(* ===== verification/Prelude.thy ===== *)
theory Prelude
  imports Main "HOL-Library.Word" "HOL-Library.Multiset"
begin

text \<open>
  Shared vocabulary of the development: the machine types of the C++ code (bytes, 16-, 32-,
  64- and 128-bit integers), the collections of simplification rules the component theories
  fill, and the generic facts on lists, folds, words and state machines that several
  components use. Nothing here models code of the repository.
\<close>

unbundle bit_operations_syntax

type_synonym byte = "8 word"
type_synonym bytes = "8 word list"
type_synonym u16 = "16 word"
type_synonym u32 = "32 word"
type_synonym u64 = "64 word"
type_synonym u128 = "128 word"

named_theorems codec_simps \<open>equations that evaluate encoders and decoders\<close>
named_theorems js_simps \<open>equations of the JavaScript runtime model\<close>
named_theorems state_simps \<open>effect of one operation on the fields of a state\<close>
named_theorems inv_intros \<open>preservation of component invariants\<close>


section \<open>Bytes and characters\<close>

definition byte_of_char :: "char \<Rightarrow> byte" where
  "byte_of_char c = of_nat (of_char c)"

definition char_of_byte :: "byte \<Rightarrow> char" where
  "char_of_byte b = char_of (unat b)"

lemma unat_byte_lt: "unat (b :: byte) < 256"
  using unsigned_less [of b, where ?'a = nat] by simp

lemma char_of_byte_of_char [simp]: "char_of_byte (byte_of_char c) = c"
proof -
  have "unat (of_nat (of_char c) :: byte) = of_char c"
    by (simp add: unat_of_nat)
  then show ?thesis by (simp add: char_of_byte_def byte_of_char_def)
qed

lemma byte_of_char_of_byte [simp]: "byte_of_char (char_of_byte b) = b"
  using unat_byte_lt [of b] by (simp add: char_of_byte_def byte_of_char_def)

lemma map_char_of_byte_of_char [simp]: "map char_of_byte (map byte_of_char s) = s"
  by (simp add: comp_def)

lemma map_byte_of_char_of_byte [simp]: "map byte_of_char (map char_of_byte bs) = bs"
  by (simp add: comp_def)

lemma list_all_upt_iff: "list_all P [0..<n] \<longleftrightarrow> (\<forall>i<n. P i)"
  by (auto simp: list_all_iff)


section \<open>Lists\<close>

lemma takeWhile_append_stop:
  "list_all P xs \<Longrightarrow> \<not> P y \<Longrightarrow> takeWhile P (xs @ y # ys) = xs"
  by (induction xs) auto

lemma dropWhile_append_stop:
  "list_all P xs \<Longrightarrow> \<not> P y \<Longrightarrow> dropWhile P (xs @ y # ys) = y # ys"
  by (induction xs) auto

lemma takeWhile_all: "list_all P xs \<Longrightarrow> takeWhile P xs = xs"
  by (induction xs) auto

lemma dropWhile_all: "list_all P xs \<Longrightarrow> dropWhile P xs = []"
  by (induction xs) auto

lemma concat_pairs_even: "\<forall>x \<in> set xs. length (f x) = 2 \<Longrightarrow> length (concat (map f xs)) = 2 * length xs"
  by (induction xs) auto


lemma map_le_Some: "m \<subseteq>\<^sub>m m' \<Longrightarrow> m k = Some x \<Longrightarrow> m' k = Some x"
  by (metis domI map_le_def)

section \<open>Codecs: an encoder and the decoder that undoes it\<close>

locale codec =
  fixes enc :: "'a \<Rightarrow> 'b" and dec :: "'b \<Rightarrow> 'a option" and dom_ok :: "'a \<Rightarrow> bool"
  assumes dec_enc: "dom_ok x \<Longrightarrow> dec (enc x) = Some x"
begin

lemma enc_inj: "dom_ok x \<Longrightarrow> dom_ok y \<Longrightarrow> enc x = enc y \<longleftrightarrow> x = y"
  by (metis dec_enc option.inject)

lemma dec_enc_eq: "dom_ok x \<Longrightarrow> dec (enc x) = Some y \<longleftrightarrow> y = x"
  by (auto simp: dec_enc)

end


section \<open>State machines\<close>

inductive reach :: "('s \<Rightarrow> bool) \<Rightarrow> ('s \<Rightarrow> 's \<Rightarrow> bool) \<Rightarrow> 's \<Rightarrow> bool"
  for ini :: "'s \<Rightarrow> bool" and stp :: "'s \<Rightarrow> 's \<Rightarrow> bool" where
  reach_init: "ini s \<Longrightarrow> reach ini stp s"
| reach_step: "reach ini stp s \<Longrightarrow> stp s t \<Longrightarrow> reach ini stp t"

locale machine =
  fixes ini :: "'s \<Rightarrow> bool" and stp :: "'s \<Rightarrow> 's \<Rightarrow> bool" and invr :: "'s \<Rightarrow> bool"
  assumes inv_init: "ini s \<Longrightarrow> invr s"
    and inv_step: "invr s \<Longrightarrow> stp s t \<Longrightarrow> invr t"
begin

lemma reach_inv: "reach ini stp s \<Longrightarrow> invr s"
  by (induction rule: reach.induct) (auto intro: inv_init inv_step)

lemma reach_rtranclp: "reach ini stp s \<Longrightarrow> stp\<^sup>*\<^sup>* s t \<Longrightarrow> reach ini stp t"
  by (rotate_tac, induction rule: rtranclp_induct) (auto intro: reach_step)

lemma rtranclp_inv: "invr s \<Longrightarrow> stp\<^sup>*\<^sup>* s t \<Longrightarrow> invr t"
  by (rotate_tac, induction rule: rtranclp_induct) (auto intro: inv_step)

end

text \<open>A machine that refines another: each of its steps is a step of the abstract one.\<close>

locale refinement = machine +
  fixes abs :: "'s \<Rightarrow> 't" and astp :: "'t \<Rightarrow> 't \<Rightarrow> bool"
  assumes step_refines: "invr s \<Longrightarrow> stp s t \<Longrightarrow> astp (abs s) (abs t)"
begin

lemma run_refines: "invr s \<Longrightarrow> stp\<^sup>*\<^sup>* s t \<Longrightarrow> astp\<^sup>*\<^sup>* (abs s) (abs t)"
proof (rotate_tac, induction rule: rtranclp_induct)
  case (step u v)
  then have "invr u" by (blast intro: rtranclp_inv)
  with step show ?case using step_refines by (meson rtranclp.rtrancl_into_rtrancl)
qed simp

lemma reach_refines: "reach ini stp s \<Longrightarrow> \<exists>s0. ini s0 \<and> astp\<^sup>*\<^sup>* (abs s0) (abs s)"
proof (induction rule: reach.induct)
  case (reach_step s t)
  then show ?case using step_refines [OF reach_inv] by (meson rtranclp.rtrancl_into_rtrancl)
qed blast

end

end
