(* ===== verification/JsRuntime.thy ===== *)
theory JsRuntime
  imports Prelude
begin

text \<open>
  The part of the JavaScript language and of the Node.js standard library that the
  JavaScript programs of the repository use: numbers with NaN, \<open>parseInt(s, 16)\<close>,
  \<open>toString(16)\<close>, the 32-bit operators, \<open>isNaN\<close> of a string, \<open>split\<close>, \<open>substr\<close>, Buffers
  with their hex, base64, binary and utf8 codecs, objects, and \<open>JSON.stringify\<close>.
  A JavaScript string is modelled by its code units, all below 256 (the programs handle
  URLs, hex digits and base64 text); a number is an integer of magnitude at most
  \<open>2^53\<close>, where doubles are exact, or NaN.
\<close>

section \<open>Numbers\<close>

datatype jsnum = NaN | Num int

definition to_uint32 :: "jsnum \<Rightarrow> int" where
  "to_uint32 x = (case x of NaN \<Rightarrow> 0 | Num n \<Rightarrow> n mod 2 ^ 32)"

definition to_int32 :: "jsnum \<Rightarrow> int" where
  "to_int32 x = (let u = to_uint32 x in if u < 2 ^ 31 then u else u - 2 ^ 32)"

text \<open>The operators \<open>x >>> k\<close>, \<open>x & y\<close>, \<open>x < y\<close> and \<open>x + y\<close>.\<close>

definition js_ushr :: "jsnum \<Rightarrow> nat \<Rightarrow> jsnum" where
  "js_ushr x k = Num (to_uint32 x div 2 ^ k)"

definition js_and :: "jsnum \<Rightarrow> jsnum \<Rightarrow> jsnum" where
  "js_and x y = Num (to_int32 x AND to_int32 y)"

fun js_less :: "jsnum \<Rightarrow> jsnum \<Rightarrow> bool" where
  "js_less (Num a) (Num b) = (a < b)"
| "js_less _ _ = False"

fun js_add :: "jsnum \<Rightarrow> jsnum \<Rightarrow> jsnum" where
  "js_add (Num a) (Num b) = Num (a + b)"
| "js_add _ _ = NaN"

section \<open>Digits\<close>

definition hexdigit :: "nat \<Rightarrow> char" where
  "hexdigit n = char_of (if n < 10 then n + 48 else n + 87)"

definition hexval :: "char \<Rightarrow> nat option" where
  "hexval c = (let n = of_char c in
     if 48 \<le> n \<and> n \<le> 57 then Some (n - 48)
     else if 97 \<le> n \<and> n \<le> 102 then Some (n - 87)
     else if 65 \<le> n \<and> n \<le> 70 then Some (n - 55)
     else None)"

definition is_hex :: "char \<Rightarrow> bool" where
  "is_hex c \<longleftrightarrow> hexval c \<noteq> None"

definition is_digit :: "char \<Rightarrow> bool" where
  "is_digit c \<longleftrightarrow> (let n = of_char c in (48::nat) \<le> n \<and> n \<le> 57)"

fun nat_to_hex :: "nat \<Rightarrow> string" where
  "nat_to_hex n = (if n < 16 then [hexdigit n] else nat_to_hex (n div 16) @ [hexdigit (n mod 16)])"

fun nat_to_dec :: "nat \<Rightarrow> string" where
  "nat_to_dec n = (if n < 10 then [hexdigit n] else nat_to_dec (n div 10) @ [hexdigit (n mod 10)])"

declare nat_to_hex.simps [simp del] nat_to_dec.simps [simp del]

definition int_to_dec :: "int \<Rightarrow> string" where
  "int_to_dec n = (if n < 0 then CHR ''-'' # nat_to_dec (nat (- n)) else nat_to_dec (nat n))"

text \<open>\<open>Number.prototype.toString(16)\<close>.\<close>

definition js_toString16 :: "jsnum \<Rightarrow> string" where
  "js_toString16 x = (case x of NaN \<Rightarrow> ''NaN''
     | Num n \<Rightarrow> if n < 0 then CHR ''-'' # nat_to_hex (nat (- n)) else nat_to_hex (nat n))"

text \<open>White space among the code units below 256: tab, LF, VT, FF, CR, space and NBSP.\<close>

definition js_white :: "char \<Rightarrow> bool" where
  "js_white c \<longleftrightarrow> of_char c \<in> {9, 10, 11, 12, 13, 32, 160 :: nat}"

definition js_trim :: "string \<Rightarrow> string" where
  "js_trim s = rev (dropWhile js_white (rev (dropWhile js_white s)))"

text \<open>
  \<open>parseInt(s, 16)\<close>: leading white space, an optional sign, an optional \<open>0x\<close>, then the
  longest prefix of hex digits; NaN when that prefix is empty.
\<close>

fun hex_num :: "nat \<Rightarrow> string \<Rightarrow> nat" where
  "hex_num acc [] = acc"
| "hex_num acc (c # s) = hex_num (16 * acc + the (hexval c)) s"

definition strip_sign :: "string \<Rightarrow> bool \<times> string" where
  "strip_sign s = (case s of [] \<Rightarrow> (False, [])
     | c # r \<Rightarrow> if c = CHR ''-'' then (True, r) else if c = CHR ''+'' then (False, r) else (False, s))"

definition strip_0x :: "string \<Rightarrow> string" where
  "strip_0x s = (case s of a # b # r \<Rightarrow> if a = CHR ''0'' \<and> b \<in> {CHR ''x'', CHR ''X''} then r else s
     | _ \<Rightarrow> s)"

definition parseInt16 :: "string \<Rightarrow> jsnum" where
  "parseInt16 s = (let (neg, r) = strip_sign (dropWhile js_white s);
       ds = takeWhile is_hex (strip_0x r)
     in if ds = [] then NaN
        else Num (if neg then - int (hex_num 0 ds) else int (hex_num 0 ds)))"

text \<open>
  \<open>isNaN(s)\<close> of a string converts it to a number first: the trimmed text must be empty,
  a decimal literal with optional fraction and exponent, \<open>Infinity\<close>, or an unsigned
  \<open>0x\<close>, \<open>0o\<close> or \<open>0b\<close> literal.
\<close>

definition is_exponent :: "string \<Rightarrow> bool" where
  "is_exponent s = (case s of [] \<Rightarrow> True
     | c # r \<Rightarrow> c \<in> {CHR ''e'', CHR ''E''} \<and>
         (let d = snd (strip_sign r) in d \<noteq> [] \<and> list_all is_digit d))"

definition is_decimal :: "string \<Rightarrow> bool" where
  "is_decimal s = (let d = takeWhile is_digit s in
     case dropWhile is_digit s of
       [] \<Rightarrow> d \<noteq> []
     | c # r \<Rightarrow> if c = CHR ''.'' then (d \<noteq> [] \<or> takeWhile is_digit r \<noteq> []) \<and> is_exponent (dropWhile is_digit r)
               else d \<noteq> [] \<and> is_exponent (c # r))"

definition is_radix_literal :: "string \<Rightarrow> bool" where
  "is_radix_literal s = (case s of a # b # r \<Rightarrow> a = CHR ''0'' \<and> r \<noteq> [] \<and>
       (b \<in> {CHR ''x'', CHR ''X''} \<and> list_all is_hex r
        \<or> b \<in> {CHR ''o'', CHR ''O''} \<and> list_all (\<lambda>c. c \<in> set ''01234567'') r
        \<or> b \<in> {CHR ''b'', CHR ''B''} \<and> list_all (\<lambda>c. c \<in> set ''01'') r)
     | _ \<Rightarrow> False)"

definition js_isNaN_str :: "string \<Rightarrow> bool" where
  "js_isNaN_str s = (let t = js_trim s; u = snd (strip_sign t) in
     \<not> (t = [] \<or> is_radix_literal t \<or> u = ''Infinity'' \<or> is_decimal u))"


section \<open>Strings\<close>

text \<open>\<open>s.substr(i, n)\<close> for an index inside or at the end of the string.\<close>

definition js_substr :: "string \<Rightarrow> nat \<Rightarrow> nat \<Rightarrow> string" where
  "js_substr s i n = take n (drop i s)"

fun js_split :: "char \<Rightarrow> string \<Rightarrow> string list" where
  "js_split d [] = [[]]"
| "js_split d (c # s) = (if c = d then [] # js_split d s
     else (case js_split d s of [] \<Rightarrow> [[c]] | p # ps \<Rightarrow> (c # p) # ps))"

fun js_join :: "string \<Rightarrow> string list \<Rightarrow> string" where
  "js_join d [] = []"
| "js_join d [x] = x"
| "js_join d (x # y # ys) = x @ d @ js_join d (y # ys)"

text \<open>\<open>toUpperCase\<close> on ASCII letters.\<close>

definition char_upper :: "char \<Rightarrow> char" where
  "char_upper c = (let n = of_char c in if 97 \<le> n \<and> n \<le> (122::nat) then char_of (n - 32) else c)"

definition js_toUpperCase :: "string \<Rightarrow> string" where
  "js_toUpperCase s = map char_upper s"


section \<open>Buffers\<close>

definition hex_pair :: "byte \<Rightarrow> string" where
  "hex_pair b = [hexdigit (unat b div 16), hexdigit (unat b mod 16)]"

text \<open>\<open>buf.toString('hex')\<close>, and \<open>Buffer.from(s, 'hex')\<close>, which stops at the first pair that is not hex.\<close>

definition buf_to_hex :: "bytes \<Rightarrow> string" where
  "buf_to_hex bs = concat (map hex_pair bs)"

fun buf_from_hex :: "string \<Rightarrow> bytes" where
  "buf_from_hex (a # b # r) = (case (hexval a, hexval b) of
       (Some x, Some y) \<Rightarrow> of_nat (16 * x + y) # buf_from_hex r
     | _ \<Rightarrow> [])"
| "buf_from_hex _ = []"

definition b64_char :: "nat \<Rightarrow> char" where
  "b64_char n = (if n < 26 then char_of (n + 65) else if n < 52 then char_of (n + 71)
     else if n < 62 then char_of (n - 4) else if n = 62 then CHR ''+'' else CHR ''/'')"

definition b64_val :: "char \<Rightarrow> nat option" where
  "b64_val c = (let n = of_char c in
     if 65 \<le> n \<and> n \<le> 90 then Some (n - 65)
     else if 97 \<le> n \<and> n \<le> 122 then Some (n - 71)
     else if 48 \<le> n \<and> n \<le> 57 then Some (n + 4)
     else if c \<in> {CHR ''+'', CHR ''-''} then Some 62
     else if c \<in> {CHR ''/'', CHR ''_''} then Some 63
     else None)"

fun buf_to_base64 :: "bytes \<Rightarrow> string" where
  "buf_to_base64 (a # b # c # r) =
     b64_char (unat a div 4) # b64_char (unat a mod 4 * 16 + unat b div 16)
       # b64_char (unat b mod 16 * 4 + unat c div 64) # b64_char (unat c mod 64) # buf_to_base64 r"
| "buf_to_base64 [a, b] =
     [b64_char (unat a div 4), b64_char (unat a mod 4 * 16 + unat b div 16),
      b64_char (unat b mod 16 * 4), CHR ''='']"
| "buf_to_base64 [a] = [b64_char (unat a div 4), b64_char (unat a mod 4 * 16), CHR ''='', CHR ''='']"
| "buf_to_base64 [] = []"

fun b64_groups :: "nat list \<Rightarrow> bytes" where
  "b64_groups (p # q # r # s # t) =
     of_nat (p * 4 + q div 16) # of_nat (q mod 16 * 16 + r div 4) # of_nat (r mod 4 * 64 + s) # b64_groups t"
| "b64_groups [p, q, r] = [of_nat (p * 4 + q div 16), of_nat (q mod 16 * 16 + r div 4)]"
| "b64_groups [p, q] = [of_nat (p * 4 + q div 16)]"
| "b64_groups _ = []"

text \<open>\<open>Buffer.from(s, 'base64')\<close> skips every character outside the alphabet.\<close>

definition buf_from_base64 :: "string \<Rightarrow> bytes" where
  "buf_from_base64 s = b64_groups (List.map_filter b64_val s)"

text \<open>\<open>Buffer.from(s, 'binary')\<close> and the default utf8 encoding, for code units below 256.\<close>

definition buf_from_binary :: "string \<Rightarrow> bytes" where
  "buf_from_binary s = map byte_of_char s"

definition utf8_char :: "char \<Rightarrow> bytes" where
  "utf8_char c = (let n = of_char c :: nat in
     if n < 128 then [of_nat n] else [of_nat (192 + n div 64), of_nat (128 + n mod 64)])"

definition buf_from_utf8 :: "string \<Rightarrow> bytes" where
  "buf_from_utf8 s = concat (map utf8_char s)"


section \<open>Facts about digits\<close>

lemma of_char_hexdigit [codec_simps]:
  "n < 16 \<Longrightarrow> (of_char (hexdigit n) :: nat) = (if n < 10 then n + 48 else n + 87)"
  by (simp add: hexdigit_def)

lemma hexdigit_eval [codec_simps]:
  "hexdigit 0 = CHR ''0''"
  "hexdigit (Suc 0) = CHR ''1''"
  "hexdigit 2 = CHR ''2''"
  "hexdigit 3 = CHR ''3''"
  "hexdigit 4 = CHR ''4''"
  "hexdigit 5 = CHR ''5''"
  "hexdigit 6 = CHR ''6''"
  "hexdigit 7 = CHR ''7''"
  "hexdigit 8 = CHR ''8''"
  "hexdigit 9 = CHR ''9''"
  "hexdigit 10 = CHR ''a''"
  "hexdigit 11 = CHR ''b''"
  "hexdigit 12 = CHR ''c''"
  "hexdigit 13 = CHR ''d''"
  "hexdigit 14 = CHR ''e''"
  "hexdigit 15 = CHR ''f''"
  by (simp_all add: hexdigit_def char_of_def bit_0)

lemma hexval_hexdigit [codec_simps]: "n < 16 \<Longrightarrow> hexval (hexdigit n) = Some n"
  by (simp add: hexval_def of_char_hexdigit Let_def)

lemma hexdigit_neq:
  "n < 16 \<Longrightarrow> (of_char c :: nat) \<notin> {48..57} \<union> {97..102} \<Longrightarrow> hexdigit n \<noteq> c"
  by (auto simp: of_char_hexdigit split: if_splits)

lemma hexdigit_plain [codec_simps]:
  assumes "n < 16"
  shows "\<not> js_white (hexdigit n)" "hexdigit n \<noteq> CHR ''-''" "hexdigit n \<noteq> CHR ''+''"
    "hexdigit n \<noteq> CHR ''x''" "hexdigit n \<noteq> CHR ''X''" "hexdigit n \<noteq> CHR '',''" "hexdigit n \<noteq> CHR '':''"
  using assms by (simp_all add: hexdigit_neq js_white_def of_char_hexdigit)

lemma is_hex_hexdigit [codec_simps]: "n < 16 \<Longrightarrow> is_hex (hexdigit n)"
  by (simp add: is_hex_def hexval_hexdigit)

lemma hexval_lt: "hexval c = Some n \<Longrightarrow> n < 16"
  by (auto simp: hexval_def Let_def split: if_splits)

lemma nibbles_lt [simp]:
  "unat (b :: byte) div 16 < 16" "unat (b :: byte) mod 16 < 16"
  using unat_byte_lt [of b] by simp_all

lemma nibbles_join [simp]:
  "of_nat (16 * (unat b div 16) + unat b mod 16) = (b :: byte)"
  by (simp only: mult_div_mod_eq of_nat_unat ucast_id)

lemma parseInt16_pair:
  assumes "m < 16" and "n < 16"
  shows "parseInt16 [hexdigit m, hexdigit n] = Num (int (16 * m + n))"
proof -
  have "strip_0x [hexdigit m, hexdigit n] = [hexdigit m, hexdigit n]"
    using hexdigit_plain [OF assms(2)] by (auto simp: strip_0x_def)
  then show ?thesis
    using hexdigit_plain [OF assms(1)] assms
    by (simp add: parseInt16_def strip_sign_def is_hex_hexdigit hexval_hexdigit)
qed

lemma hex_pair_length [simp]: "length (hex_pair b) = 2"
  by (simp add: hex_pair_def)

lemma buf_to_hex_length [simp]: "length (buf_to_hex bs) = 2 * length bs"
  by (simp add: buf_to_hex_def concat_pairs_even)

lemma buf_to_hex_Nil [simp]: "buf_to_hex [] = []"
  by (simp add: buf_to_hex_def)

lemma buf_to_hex_Cons [simp]: "buf_to_hex (b # bs) = hex_pair b @ buf_to_hex bs"
  by (simp add: buf_to_hex_def)

lemma buf_to_hex_append [simp]: "buf_to_hex (as @ bs) = buf_to_hex as @ buf_to_hex bs"
  by (simp add: buf_to_hex_def)

lemma buf_to_hex_is_hex: "list_all is_hex (buf_to_hex bs)"
  by (induction bs) (auto simp: hex_pair_def is_hex_hexdigit)

lemma buf_from_to_hex [codec_simps]: "buf_from_hex (buf_to_hex bs) = bs"
  by (induction bs) (simp_all add: hex_pair_def hexval_hexdigit)

interpretation hex_codec: codec buf_to_hex "\<lambda>s. Some (buf_from_hex s)" "\<lambda>_. True"
  by unfold_locales (simp add: buf_from_to_hex)


section \<open>Facts about base64\<close>

lemma b64_val_char [codec_simps]: "n < 64 \<Longrightarrow> b64_val (b64_char n) = Some n"
  by (auto simp: b64_val_def b64_char_def Let_def)

lemma b64_val_pad [codec_simps]: "b64_val (CHR ''='') = None"
  by code_simp

lemma map_filter_Cons [codec_simps]:
  "List.map_filter f (x # xs) = (case f x of None \<Rightarrow> List.map_filter f xs | Some y \<Rightarrow> y # List.map_filter f xs)"
  "List.map_filter f [] = []"
  by (simp_all add: List.map_filter_def split: option.splits)

lemma b64_sextet_lt:
  fixes a b :: byte
  shows "unat a div 4 < 64" and "unat a mod 4 * 16 + unat b div 16 < 64"
    and "unat a mod 16 * 4 + unat b div 64 < 64" and "unat a mod 64 < 64"
    and "unat a mod 4 * 16 < 64" and "unat a mod 16 * 4 < 64"
proof -
  have "unat a mod 4 < 4" "unat a mod 16 < 16" "unat a div 4 < 64" "unat b div 16 < 16" "unat b div 64 < 4"
    using unat_byte_lt [of a] unat_byte_lt [of b] by simp_all
  then show "unat a div 4 < 64" and "unat a mod 4 * 16 + unat b div 16 < 64"
    and "unat a mod 16 * 4 + unat b div 64 < 64" and "unat a mod 64 < 64"
    and "unat a mod 4 * 16 < 64" and "unat a mod 16 * 4 < 64"
    by linarith+
qed

lemma b64_octets:
  fixes x y z :: nat
  assumes "y < 256" and "z < 256"
  shows "x div 4 * 4 + (x mod 4 * 16 + y div 16) div 16 = x"
    and "(x mod 4 * 16 + y div 16) mod 16 * 16 + (y mod 16 * 4 + z div 64) div 4 = y"
    and "(y mod 16 * 4 + z div 64) mod 4 * 64 + z mod 64 = z"
    and "x div 4 * 4 + (x mod 4 * 16) div 16 = x"
    and "(x mod 4 * 16 + y div 16) mod 16 * 16 + (y mod 16 * 4) div 4 = y"
proof -
  have "y div 16 < 16" "z div 64 < 4" using assms by simp_all
  then show "x div 4 * 4 + (x mod 4 * 16 + y div 16) div 16 = x"
    and "(x mod 4 * 16 + y div 16) mod 16 * 16 + (y mod 16 * 4 + z div 64) div 4 = y"
    and "(y mod 16 * 4 + z div 64) mod 4 * 64 + z mod 64 = z"
    and "x div 4 * 4 + (x mod 4 * 16) div 16 = x"
    and "(x mod 4 * 16 + y div 16) mod 16 * 16 + (y mod 16 * 4) div 4 = y"
    by simp_all
qed

lemma buf_from_to_base64 [codec_simps]: "buf_from_base64 (buf_to_base64 bs) = bs"
proof (induction bs rule: buf_to_base64.induct)
  case (1 a b c r)
  then show ?case
    using b64_octets(1,2,4,5) [OF unat_byte_lt [of b] unat_byte_lt [of c], where x = "unat a"]
      b64_octets(3) [OF unat_byte_lt [of b] unat_byte_lt [of c]]
    by (simp add: buf_from_base64_def map_filter_Cons b64_val_char b64_sextet_lt)
next
  case (2 a b)
  then show ?case
    using b64_octets(1,2,4,5) [OF unat_byte_lt [of b] unat_byte_lt [of b], where x = "unat a"]
      b64_octets(3) [OF unat_byte_lt [of b] unat_byte_lt [of b]]
    by (simp add: buf_from_base64_def map_filter_Cons b64_val_char b64_val_pad b64_sextet_lt)
next
  case (3 a)
  then show ?case
    using b64_octets(1,2,4,5) [OF unat_byte_lt [of a] unat_byte_lt [of a], where x = "unat a"]
      b64_octets(3) [OF unat_byte_lt [of a] unat_byte_lt [of a]]
    by (simp add: buf_from_base64_def map_filter_Cons b64_val_char b64_val_pad b64_sextet_lt)
next
  case 4
  then show ?case by (simp add: buf_from_base64_def map_filter_Cons)
qed

interpretation base64_codec: codec buf_to_base64 "\<lambda>s. Some (buf_from_base64 s)" "\<lambda>_. True"
  by unfold_locales (simp add: buf_from_to_base64)


section \<open>Facts about split and join\<close>

lemma js_split_not_Nil [simp]: "js_split d s \<noteq> []"
  by (induction s) (auto split: list.splits)

lemma js_join_split: "js_join [d] (js_split d s) = s"
proof (induction s)
  case (Cons c s)
  then show ?case by (cases "js_split d s" rule: remdups_adj.cases) auto
qed simp

lemma js_split_no_sep: "p \<in> set (js_split d s) \<Longrightarrow> d \<notin> set p"
  by (induction s arbitrary: p) (auto split: list.splits if_splits)

lemma js_split_single: "d \<notin> set s \<Longrightarrow> js_split d s = [s]"
  by (induction s) auto

lemma js_split_append: "d \<notin> set p \<Longrightarrow> js_split d (p @ d # s) = p # js_split d s"
  by (induction p) auto

lemma js_split_join:
  "ps \<noteq> [] \<Longrightarrow> \<forall>p \<in> set ps. d \<notin> set p \<Longrightarrow> js_split d (js_join [d] ps) = ps"
  by (induction "[d]" ps rule: js_join.induct) (auto simp: js_split_single js_split_append)

end
