(* ===== verification/JsValue.thy ===== *)
theory JsValue
  imports JsRuntime
begin

text \<open>
  JavaScript values as the programs of the repository build them, exceptions, property
  access on objects, and \<open>JSON.stringify\<close>. An object is the list of its own properties in
  insertion order (no property name here is an array index, which JavaScript would order
  first). A value of a library class (a big number) is known by what its \<open>toString()\<close>,
  its \<open>toString('hex')\<close> and its \<open>toJSON()\<close> return.
\<close>

datatype jsval =
    JUndef
  | JNull
  | JBool bool
  | JNum int
  | JStr string
  | JBuf bytes
  | JLib string string string
  | JArr "jsval list"
  | JObj "(string \<times> jsval) list"

text \<open>An exception, by its \<open>message\<close>.\<close>

datatype jsexn = JsExn (message: string)

type_synonym 'a js = "jsexn + 'a"

abbreviation js_throw :: "string \<Rightarrow> 'a js" where
  "js_throw m \<equiv> Inl (JsExn m)"

fun js_bind :: "'a js \<Rightarrow> ('a \<Rightarrow> 'b js) \<Rightarrow> 'b js" where
  "js_bind (Inl e) f = Inl e"
| "js_bind (Inr x) f = f x"

fun js_map :: "('a \<Rightarrow> 'b js) \<Rightarrow> 'a list \<Rightarrow> 'b list js" where
  "js_map f [] = Inr []"
| "js_map f (x # xs) = js_bind (f x) (\<lambda>y. js_bind (js_map f xs) (\<lambda>ys. Inr (y # ys)))"

lemma js_map_cong [fundef_cong]:
  "xs = ys \<Longrightarrow> (\<And>x. x \<in> set ys \<Longrightarrow> f x = g x) \<Longrightarrow> js_map f xs = js_map g ys"
proof (induction xs arbitrary: ys)
  case (Cons x xs)
  then show ?case by (cases ys) auto
qed simp

text \<open>Assignment to a property: in place when the object has it, else at the end.\<close>

fun prop_set :: "(string \<times> jsval) list \<Rightarrow> string \<Rightarrow> jsval \<Rightarrow> (string \<times> jsval) list" where
  "prop_set [] k v = [(k, v)]"
| "prop_set ((k', v') # ps) k v = (if k' = k then (k, v) # ps else (k', v') # prop_set ps k v)"

text \<open>
  Reading \<open>x.k\<close>: undefined for a property the object does not have, an exception on null
  and undefined. The other values are only read through properties they do not have.
\<close>

definition js_get :: "jsval \<Rightarrow> string \<Rightarrow> jsval js" where
  "js_get x k = (case x of
       JObj ps \<Rightarrow> Inr (case map_of ps k of None \<Rightarrow> JUndef | Some v \<Rightarrow> v)
     | JUndef \<Rightarrow> js_throw ''Cannot read property of undefined''
     | JNull \<Rightarrow> js_throw ''Cannot read property of null''
     | _ \<Rightarrow> Inr JUndef)"

text \<open>Writing \<open>x.k = v\<close>: ignored on a primitive, an exception on null and undefined.\<close>

definition js_set :: "jsval \<Rightarrow> string \<Rightarrow> jsval \<Rightarrow> jsval js" where
  "js_set x k v = (case x of
       JObj ps \<Rightarrow> Inr (JObj (prop_set ps k v))
     | JUndef \<Rightarrow> js_throw ''Cannot set property of undefined''
     | JNull \<Rightarrow> js_throw ''Cannot set property of null''
     | _ \<Rightarrow> Inr x)"

definition js_hasOwn :: "jsval \<Rightarrow> string \<Rightarrow> bool js" where
  "js_hasOwn x k = (case x of
       JObj ps \<Rightarrow> Inr (map_of ps k \<noteq> None)
     | JUndef \<Rightarrow> js_throw ''Cannot read property of undefined''
     | JNull \<Rightarrow> js_throw ''Cannot read property of null''
     | _ \<Rightarrow> Inr False)"

text \<open>\<open>Buffer.from(x, 'binary')\<close> takes a string or a Buffer (an array of bytes likewise).\<close>

definition js_num_byte :: "jsval \<Rightarrow> byte" where
  "js_num_byte v = (case v of JNum n \<Rightarrow> word_of_int n | _ \<Rightarrow> 0)"

definition js_buffer_binary :: "jsval \<Rightarrow> bytes js" where
  "js_buffer_binary x = (case x of
       JStr s \<Rightarrow> Inr (buf_from_binary s)
     | JBuf bs \<Rightarrow> Inr bs
     | JArr xs \<Rightarrow> Inr (map js_num_byte xs)
     | _ \<Rightarrow> js_throw ''The first argument must be of type string or an instance of Buffer'')"

section \<open>JSON.stringify\<close>

definition json_char :: "char \<Rightarrow> string" where
  "json_char c = (let n = of_char c :: nat in
     if n = 34 then [char_of (92::nat), char_of (34::nat)]
     else if n = 92 then [char_of (92::nat), char_of (92::nat)]
     else if n = 8 then [char_of (92::nat), CHR ''b'']
     else if n = 9 then [char_of (92::nat), CHR ''t'']
     else if n = 10 then [char_of (92::nat), CHR ''n'']
     else if n = 12 then [char_of (92::nat), CHR ''f'']
     else if n = 13 then [char_of (92::nat), CHR ''r'']
     else if n < 32 then char_of (92::nat) # ''u00'' @ [hexdigit (n div 16), hexdigit (n mod 16)]
     else [c])"

definition json_quote :: "string \<Rightarrow> string" where
  "json_quote s = char_of (34::nat) # concat (map json_char s) @ [char_of (34::nat)]"

definition json_bytes :: "bytes \<Rightarrow> string" where
  "json_bytes bs = CHR ''{'' # json_quote ''type'' @ '':'' @ json_quote ''Buffer'' @ '','' @ json_quote ''data'' @ '':''
     @ CHR ''['' # js_join '','' (map (\<lambda>b. nat_to_dec (unat b)) bs) @ '']}''"

text \<open>Undefined is null inside an array, and a property that is undefined is left out.\<close>

fun json_stringify :: "jsval \<Rightarrow> string" where
  "json_stringify JUndef = ''null''"
| "json_stringify JNull = ''null''"
| "json_stringify (JBool b) = (if b then ''true'' else ''false'')"
| "json_stringify (JNum n) = int_to_dec n"
| "json_stringify (JStr s) = json_quote s"
| "json_stringify (JBuf bs) = json_bytes bs"
| "json_stringify (JLib t h j) = json_quote j"
| "json_stringify (JArr xs) = CHR ''['' # js_join '','' (map json_stringify xs) @ '']''"
| "json_stringify (JObj ps) = CHR ''{'' # js_join '',''
     (map (\<lambda>p. json_quote (fst p) @ CHR '':'' # json_stringify (snd p)) (filter (\<lambda>p. snd p \<noteq> JUndef) ps)) @ ''}''"


section \<open>Facts about properties\<close>

lemma map_of_prop_set [js_simps]: "map_of (prop_set ps k v) = (map_of ps)(k \<mapsto> v)"
  by (induction ps k v rule: prop_set.induct) (auto simp: fun_eq_iff)

lemma prop_set_keys [js_simps]:
  "map fst (prop_set ps k v) = (if k \<in> fst ` set ps then map fst ps else map fst ps @ [k])"
  by (induction ps k v rule: prop_set.induct) auto

lemma prop_set_distinct [inv_intros]: "distinct (map fst ps) \<Longrightarrow> distinct (map fst (prop_set ps k v))"
  by (auto simp: prop_set_keys)

lemma js_get_JObj [js_simps]: "js_get (JObj ps) k = Inr (case map_of ps k of None \<Rightarrow> JUndef | Some v \<Rightarrow> v)"
  by (simp add: js_get_def)

lemma js_set_JObj [js_simps]: "js_set (JObj ps) k v = Inr (JObj (prop_set ps k v))"
  by (simp add: js_set_def)

lemma js_hasOwn_JObj [js_simps]: "js_hasOwn (JObj ps) k = Inr (map_of ps k \<noteq> None)"
  by (simp add: js_hasOwn_def)

lemma js_map_Inr: "js_map f xs = Inr ys \<longleftrightarrow> list_all2 (\<lambda>x y. f x = Inr y) xs ys"
proof (induction xs arbitrary: ys)
  case (Cons x xs)
  show ?case
  proof (cases "f x")
    case (Inr y)
    then show ?thesis
      using Cons.IH by (cases "js_map f xs") (auto simp: list_all2_Cons1)
  qed (auto simp: list_all2_Cons1)
qed auto

lemma js_map_pure [js_simps]: "js_map (\<lambda>x. Inr (f x)) xs = Inr (map f xs)"
  by (induction xs) auto

lemma js_map_Inl_first: "f x = Inl e \<Longrightarrow> js_map f (x # xs) = Inl e"
  by simp

end
