(* ===== verification/RestServer.thy ===== *)
theory RestServer
  imports JsValue
begin

text \<open>
  The REST server \<open>rest/index.js\<close>: its helpers (\<open>hexToBytes\<close>, \<open>bytesToHex\<close>,
  \<open>addressToScriptpubkey\<close>), its four routes and the callbacks that turn a gRPC result into an
  HTTP response, each by its outcome. RestProgram has the same handlers statement by statement.

  Libraries are parameters, the fields of \<open>libs\<close>: Express's decoding of a route parameter,
  \<open>cashaddrjs.decode\<close>, bitcore's address of a script, and whether the generated class of a
  returned output has an accessor \<open>getHeight\<close> (the generated code is not in the repository;
  \<open>pb/utxo.proto\<close>, from which it is generated, declares no such field).
\<close>

section \<open>Helpers\<close>

function hexToBytes_loop :: "string \<Rightarrow> nat \<Rightarrow> jsnum list \<Rightarrow> jsnum list" where
  "hexToBytes_loop hex c bytes =
     (if c < length hex then hexToBytes_loop hex (c + 2) (bytes @ [parseInt16 (js_substr hex c 2)])
      else bytes)"
  by pat_completeness auto
termination by (relation "measure (\<lambda>(hex, c, bytes). length hex - c)") auto

declare hexToBytes_loop.simps [simp del]

definition hexToBytes :: "string \<Rightarrow> jsnum list" where
  "hexToBytes hex = hexToBytes_loop hex 0 []"

definition bytesToHex_push :: "jsnum \<Rightarrow> string list" where
  "bytesToHex_push b = (let current = (if js_less b (Num 0) then js_add b (Num 256) else b)
     in [js_toString16 (js_ushr current 4), js_toString16 (js_and current (Num 15))])"

function bytesToHex_loop :: "jsnum list \<Rightarrow> nat \<Rightarrow> string list \<Rightarrow> string list" where
  "bytesToHex_loop bytes i hex =
     (if i < length bytes then bytesToHex_loop bytes (i + 1) (hex @ bytesToHex_push (bytes ! i)) else hex)"
  by pat_completeness auto
termination by (relation "measure (\<lambda>(bytes, i, hex). length bytes - i)") auto

declare bytesToHex_loop.simps [simp del]

definition bytesToHex :: "jsnum list \<Rightarrow> string" where
  "bytesToHex bytes = js_join '''' (bytesToHex_loop bytes 0 [])"

text \<open>\<open>Object.values\<close> of a \<open>Uint8Array\<close>.\<close>

definition u8_values :: "bytes \<Rightarrow> jsnum list" where
  "u8_values bs = map (\<lambda>b. Num (uint b)) bs"

section \<open>Messages, libraries, clients\<close>

record output_msg =
  prev_tx_id_u8 :: bytes
  prev_out_idx :: int
  msg_value :: int
  scriptpubkey_b64 :: string

record libs =
  decode_param :: "string \<Rightarrow> string option"
  cashaddr_decode :: "string \<Rightarrow> (string \<times> bytes) js"
  script_address :: "bytes \<Rightarrow> string option"
  get_height :: "(output_msg \<Rightarrow> int) option"

record grpc_client =
  service :: string
  bind_addr :: string
  client_options :: "(string \<times> nat) list"

definition graphSearchClient :: "(string \<Rightarrow> string) \<Rightarrow> grpc_client" where
  "graphSearchClient env = \<lparr>service = ''GraphSearchService'',
     bind_addr = env ''graphsearch_grpc_server_bind'',
     client_options = [(''grpc.max_receive_message_length'', 1024*1024*1024), (''grpc.enable_http_proxy'', 1)]\<rparr>"

definition utxoClient :: "(string \<Rightarrow> string) \<Rightarrow> grpc_client" where
  "utxoClient env = \<lparr>service = ''UtxoService'',
     bind_addr = env ''graphsearch_grpc_server_bind'',
     client_options = [(''grpc.max_receive_message_length'', 1024*1024*1024), (''grpc.enable_http_proxy'', 1)]\<rparr>"

text \<open>The requests the server sends: the method with the fields it sets.\<close>

datatype rpc_call =
    CallGraphSearch string
  | CallByOutpoints "(string \<times> string) list"
  | CallByScriptPubKey string nat
  | CallBalance string

definition client_of :: "(string \<Rightarrow> string) \<Rightarrow> rpc_call \<Rightarrow> grpc_client" where
  "client_of env c = (case c of CallGraphSearch _ \<Rightarrow> graphSearchClient env | _ \<Rightarrow> utxoClient env)"

text \<open>What the accessors of a reply return, or the error object a call ends with.\<close>

datatype reply =
    TxdataReply "string list"
  | OutputsReply "output_msg list"
  | BalanceReply int

datatype rpc_result = RpcErr jsval | RpcOk reply

record http_response =
  headers :: "(string \<times> string) list"
  body :: string

text \<open>The callback of a pending call, with the variables it closes over.\<close>

datatype callback =
    CbGraphSearch string
  | CbUtxo string
  | CbAddressUtxos string
  | CbAddressBalance string

text \<open>
  A handler ends the response, sends a call and returns, or throws into Express; a callback
  ends the response or throws, and then nothing catches the exception.
\<close>

datatype handler_outcome =
    HEnd http_response
  | HCall rpc_call callback
  | HThrow jsexn
  | HNotFound

datatype callback_outcome = CEnd http_response | CThrow jsexn

definition addressToScriptpubkey :: "libs \<Rightarrow> string \<Rightarrow> string js" where
  "addressToScriptpubkey L address = js_bind (cashaddr_decode L address) (\<lambda>(ty, hash).
     Inr (buf_to_base64
       (if ty = ''P2PKH'' then [0x76, 0xA9, of_nat (length hash)] @ hash @ [0x88, 0xAC]
        else if ty = ''P2PK'' then [0xAC, of_nat (length hash)] @ hash @ [0x87]
        else [0xA9, of_nat (length hash)] @ hash @ [0x87])))"

definition json_headers :: "(string \<times> string) list" where
  "json_headers = [(''Content-Type'', ''application/json'')]"

definition failure_body :: "jsval \<Rightarrow> string" where
  "failure_body err = json_stringify (JObj [(''success'', JBool False), (''error'', err)])"

definition success_body :: "jsval \<Rightarrow> string" where
  "success_body d = json_stringify (JObj [(''success'', JBool True), (''data'', d)])"


section \<open>The handlers\<close>

definition get_graphsearch :: "string \<Rightarrow> handler_outcome" where
  "get_graphsearch txid = HCall (CallGraphSearch txid) (CbGraphSearch txid)"

definition bad_format :: http_response where
  "bad_format = \<lparr>headers = [], body = failure_body (JStr ''bad format'')\<rparr>"

fun add_outpoints :: "string list \<Rightarrow> (string \<times> string) list \<Rightarrow> (string \<times> string) list option" where
  "add_outpoints [] request = Some request"
| "add_outpoints (p # ps) request = (let segments = js_split (CHR '':'') p in
     if length segments \<noteq> 2 \<or> js_isNaN_str (segments ! 1) then None
     else add_outpoints ps (request @ [(bytesToHex (rev (hexToBytes (segments ! 0))), segments ! 1)]))"

definition get_utxo :: "string \<Rightarrow> handler_outcome" where
  "get_utxo param = (let outpoints = js_split (CHR '','') param in
     case add_outpoints outpoints [] of
       None \<Rightarrow> HEnd bad_format
     | Some request \<Rightarrow> HCall (CallByOutpoints request) (CbUtxo param))"

definition get_address_utxos :: "libs \<Rightarrow> string \<Rightarrow> handler_outcome" where
  "get_address_utxos L param = (case addressToScriptpubkey L param of
       Inl e \<Rightarrow> HThrow e
     | Inr spk \<Rightarrow> HCall (CallByScriptPubKey spk 10000) (CbAddressUtxos spk))"

definition get_address_balance :: "libs \<Rightarrow> string \<Rightarrow> handler_outcome" where
  "get_address_balance L param = (case addressToScriptpubkey L param of
       Inl e \<Rightarrow> HThrow e
     | Inr spk \<Rightarrow> HCall (CallBalance spk) (CbAddressBalance spk))"


section \<open>The callbacks\<close>

definition missing_method :: "string \<Rightarrow> callback_outcome" where
  "missing_method m = CThrow (JsExn (m @ '' is not a function''))"

definition on_graphsearch :: "rpc_result \<Rightarrow> callback_outcome" where
  "on_graphsearch r = (case r of
       RpcErr err \<Rightarrow> CEnd \<lparr>headers = json_headers, body = failure_body err\<rparr>
     | RpcOk (TxdataReply txs) \<Rightarrow> CEnd \<lparr>headers = json_headers, body = success_body (JArr (map JStr txs))\<rparr>
     | RpcOk _ \<Rightarrow> missing_method ''response.getTxdataList_asB64'')"

text \<open>The properties both UTXO callbacks return, in the order the object literal evaluates them.\<close>

definition height_of :: "libs \<Rightarrow> output_msg \<Rightarrow> int js" where
  "height_of L v = (case get_height L of None \<Rightarrow> js_throw ''v.getHeight is not a function'' | Some g \<Rightarrow> Inr (g v))"

definition utxo_fields :: "libs \<Rightarrow> output_msg \<Rightarrow> ((string \<times> jsval) list) js" where
  "utxo_fields L v = js_bind (height_of L v) (\<lambda>h. Inr
     [(''prevTxId'', JStr (bytesToHex (rev (u8_values (prev_tx_id_u8 v))))),
      (''prevOutIdx'', JNum (prev_out_idx v)),
      (''height'', JNum h),
      (''value'', JNum (msg_value v))])"

definition utxo_entry :: "libs \<Rightarrow> output_msg \<Rightarrow> jsval js" where
  "utxo_entry L v = js_bind (utxo_fields L v) (\<lambda>ret.
     let pk = scriptpubkey_b64 v; ret = ret @ [(''pkScript'', JStr pk)] in
     Inr (JObj (case script_address L (buf_from_base64 pk) of
         Some a \<Rightarrow> prop_set ret ''address'' (JStr a)
       | None \<Rightarrow> prop_set ret ''address'' JNull)))"

definition on_utxo :: "libs \<Rightarrow> rpc_result \<Rightarrow> callback_outcome" where
  "on_utxo L r = (case r of
       RpcErr err \<Rightarrow> CEnd \<lparr>headers = json_headers, body = failure_body err\<rparr>
     | RpcOk (OutputsReply outs) \<Rightarrow> (case js_map (utxo_entry L) outs of
           Inl e \<Rightarrow> CThrow e
         | Inr es \<Rightarrow> CEnd \<lparr>headers = json_headers, body = success_body (JArr es)\<rparr>)
     | RpcOk _ \<Rightarrow> missing_method ''response.getOutputsList'')"

definition on_address_utxos :: "libs \<Rightarrow> rpc_result \<Rightarrow> callback_outcome" where
  "on_address_utxos L r = (case r of
       RpcErr err \<Rightarrow> CEnd \<lparr>headers = json_headers, body = failure_body err\<rparr>
     | RpcOk (OutputsReply outs) \<Rightarrow> (case js_map (\<lambda>v. js_bind (utxo_fields L v) (\<lambda>fs. Inr (JObj fs))) outs of
           Inl e \<Rightarrow> CThrow e
         | Inr es \<Rightarrow> CEnd \<lparr>headers = json_headers, body = success_body (JArr es)\<rparr>)
     | RpcOk _ \<Rightarrow> missing_method ''response.getOutputsList'')"

definition on_address_balance :: "rpc_result \<Rightarrow> callback_outcome" where
  "on_address_balance r = (case r of
       RpcErr err \<Rightarrow> CEnd \<lparr>headers = json_headers, body = failure_body err\<rparr>
     | RpcOk (BalanceReply b) \<Rightarrow> CEnd \<lparr>headers = json_headers, body = success_body (JNum b)\<rparr>
     | RpcOk _ \<Rightarrow> missing_method ''response.getBalance'')"

fun on_callback :: "libs \<Rightarrow> callback \<Rightarrow> rpc_result \<Rightarrow> callback_outcome" where
  "on_callback L (CbGraphSearch txid) r = on_graphsearch r"
| "on_callback L (CbUtxo param) r = on_utxo L r"
| "on_callback L (CbAddressUtxos spk) r = on_address_utxos L r"
| "on_callback L (CbAddressBalance spk) r = on_address_balance r"


section \<open>Routing\<close>

datatype route = RGraphSearch | RUtxo | RAddressUtxos | RAddressBalance

text \<open>The patterns, all of the form \<open>^prefix(.+)\<close>, in the order they are registered.\<close>

definition routes :: "(string \<times> route) list" where
  "routes = [(''/slp/graphsearch/'', RGraphSearch), (''/utxo/'', RUtxo),
     (''/address/utxos/'', RAddressUtxos), (''/address/balance/'', RAddressBalance)]"

text \<open>The application as it is configured and started: \<open>cors()\<close> in front of the routes.\<close>

record express_app =
  middleware :: "string list"
  trust_proxy :: bool
  app_routes :: "(string \<times> route) list"
  listen_port :: string

definition rest_app :: "(string \<Rightarrow> string) \<Rightarrow> express_app" where
  "rest_app env = \<lparr>middleware = [''cors''], trust_proxy = True, app_routes = routes,
     listen_port = env ''graphsearch_http_port''\<rparr>"

definition line_end :: "char \<Rightarrow> bool" where
  "line_end c \<longleftrightarrow> of_char c \<in> {10, 13 :: nat}"

definition match_pattern :: "string \<Rightarrow> string \<Rightarrow> string option" where
  "match_pattern pre path = (if take (length pre) path = pre
     then (let cap = takeWhile (\<lambda>c. \<not> line_end c) (drop (length pre) path) in
           if cap = [] then None else Some cap)
     else None)"

fun first_match :: "(string \<times> route) list \<Rightarrow> string \<Rightarrow> (route \<times> string) option" where
  "first_match [] path = None"
| "first_match ((pre, r) # rs) path = (case match_pattern pre path of
     Some cap \<Rightarrow> Some (r, cap) | None \<Rightarrow> first_match rs path)"

fun run_handler :: "libs \<Rightarrow> route \<Rightarrow> string \<Rightarrow> handler_outcome" where
  "run_handler L RGraphSearch p = get_graphsearch p"
| "run_handler L RUtxo p = get_utxo p"
| "run_handler L RAddressUtxos p = get_address_utxos L p"
| "run_handler L RAddressBalance p = get_address_balance L p"

definition dispatch :: "libs \<Rightarrow> string \<Rightarrow> handler_outcome" where
  "dispatch L path = (case first_match routes path of
       None \<Rightarrow> HNotFound
     | Some (r, cap) \<Rightarrow> (case decode_param L cap of
           None \<Rightarrow> HThrow (JsExn ''Failed to decode param'')
         | Some p \<Rightarrow> run_handler L r p))"


section \<open>Facts about the hex helpers\<close>

fun str_pairs :: "string \<Rightarrow> string list" where
  "str_pairs (a # b # r) = [a, b] # str_pairs r"
| "str_pairs [a] = [[a]]"
| "str_pairs [] = []"

lemma str_pairs_unfold: "s \<noteq> [] \<Longrightarrow> str_pairs s = take 2 s # str_pairs (drop 2 s)"
  by (cases s rule: str_pairs.cases) auto

lemma length_str_pairs: "length (str_pairs s) = (length s + 1) div 2"
  by (induction s rule: str_pairs.induct) auto

lemma str_pairs_elem: "p \<in> set (str_pairs s) \<Longrightarrow> length p \<le> 2"
  by (induction s rule: str_pairs.induct) auto

lemma str_pairs_buf_to_hex: "str_pairs (buf_to_hex bs) = map hex_pair bs"
  by (induction bs) (simp_all add: hex_pair_def)

lemma hexToBytes_loop_eq:
  "hexToBytes_loop hex c bytes = bytes @ map parseInt16 (str_pairs (drop c hex))"
proof (induction hex c bytes rule: hexToBytes_loop.induct)
  case (1 hex c bytes)
  show ?case
  proof (cases "c < length hex")
    case True
    then have "str_pairs (drop c hex) = take 2 (drop c hex) # str_pairs (drop (c + 2) hex)"
      by (simp add: str_pairs_unfold add.commute)
    with 1 True show ?thesis
      by (subst hexToBytes_loop.simps) (simp add: js_substr_def)
  qed (subst hexToBytes_loop.simps, simp)
qed

lemma hexToBytes_eq: "hexToBytes hex = map parseInt16 (str_pairs hex)"
  by (simp add: hexToBytes_def hexToBytes_loop_eq)

lemma bytesToHex_loop_eq:
  "bytesToHex_loop bytes i hex = hex @ concat (map bytesToHex_push (drop i bytes))"
proof (induction bytes i hex rule: bytesToHex_loop.induct)
  case (1 bytes i hex)
  show ?case
  proof (cases "i < length bytes")
    case True
    then have "drop i bytes = bytes ! i # drop (i + 1) bytes"
      by (simp add: Cons_nth_drop_Suc)
    with 1 True show ?thesis
      by (subst bytesToHex_loop.simps) simp
  qed (subst bytesToHex_loop.simps, simp)
qed

lemma js_join_empty: "js_join [] xs = concat xs"
  by (induction "[] :: string" xs rule: js_join.induct) auto

lemma bytesToHex_eq: "bytesToHex bytes = concat (map (\<lambda>b. concat (bytesToHex_push b)) bytes)"
  by (simp add: bytesToHex_def bytesToHex_loop_eq js_join_empty) (induction bytes, auto)

text \<open>The byte a number stands for in these helpers, for the numbers \<open>parseInt\<close> returns on two digits.\<close>

definition num_byte :: "jsnum \<Rightarrow> byte" where
  "num_byte x = (case x of NaN \<Rightarrow> 0 | Num n \<Rightarrow> word_of_int n)"

definition byte_range :: "jsnum \<Rightarrow> bool" where
  "byte_range x \<longleftrightarrow> (case x of NaN \<Rightarrow> True | Num n \<Rightarrow> - 256 \<le> n \<and> n < 256)"

lemma toString16_digit: "0 \<le> n \<Longrightarrow> n < 16 \<Longrightarrow> js_toString16 (Num n) = [hexdigit (nat n)]"
  by (simp add: js_toString16_def nat_to_hex.simps)

lemma and_15_int: "(n :: int) AND 15 = n mod 16"
  using take_bit_eq_mask [of 4 n] by (simp add: take_bit_eq_mod mask_eq_exp_minus_1)

lemma push_byte:
  assumes "0 \<le> n" and "n < 256"
  shows "bytesToHex_push (Num n) = [[hexdigit (nat n div 16)], [hexdigit (nat n mod 16)]]"
proof -
  have "0 \<le> n div 16" and "n div 16 < 16" and "nat (n div 16) = nat n div 16" and "nat (n mod 16) = nat n mod 16"
    using assms by (simp_all add: nat_div_distrib nat_mod_distrib)
  then show ?thesis
    using assms
    by (simp add: bytesToHex_push_def js_ushr_def js_and_def to_int32_def to_uint32_def and_15_int
        toString16_digit)
qed

lemma hex_pair_word_of_int:
  assumes "0 \<le> n" and "n < 256"
  shows "hex_pair (word_of_int n) = [hexdigit (nat n div 16), hexdigit (nat n mod 16)]"
proof -
  have "unat (word_of_int n :: byte) = nat n"
    using assms by (simp add: unat_eq_nat_uint uint_word_of_int_eq take_bit_int_eq_self)
  then show ?thesis by (simp add: hex_pair_def)
qed

lemma concat_push: "byte_range x \<Longrightarrow> concat (bytesToHex_push x) = hex_pair (num_byte x)"
proof (cases x)
  case NaN
  have "bytesToHex_push NaN = bytesToHex_push (Num 0)"
    by (simp add: bytesToHex_push_def js_ushr_def js_and_def to_int32_def to_uint32_def Let_def)
  then show ?thesis
    using push_byte [of 0] hex_pair_word_of_int [of 0] by (simp add: num_byte_def NaN)
next
  case (Num n)
  moreover assume "byte_range x"
  ultimately have n: "- 256 \<le> n" "n < 256" by (simp_all add: byte_range_def)
  show ?thesis
  proof (cases "n < 0")
    case False
    with n Num show ?thesis
      by (simp add: push_byte hex_pair_word_of_int num_byte_def)
  next
    case True
    have "bytesToHex_push (Num n) = bytesToHex_push (Num (n + 256))"
      using True n by (simp add: bytesToHex_push_def)
    moreover have w: "(word_of_int n :: byte) = word_of_int (n + 256)"
      by (simp add: word_of_int_eq_iff take_bit_eq_mod)
    moreover have "hex_pair (word_of_int n) = [hexdigit (nat (n + 256) div 16), hexdigit (nat (n + 256) mod 16)]"
      unfolding w using True n by (intro hex_pair_word_of_int) auto
    ultimately show ?thesis
      using True n Num by (simp add: push_byte num_byte_def)
  qed
qed

lemma bytesToHex_bytes: "list_all byte_range xs \<Longrightarrow> bytesToHex xs = buf_to_hex (map num_byte xs)"
  by (induction xs) (simp_all add: bytesToHex_eq concat_push)

lemma hex_num_bound: "hex_num acc ds < (acc + 1) * 16 ^ length ds" if "list_all is_hex ds"
  using that
proof (induction ds arbitrary: acc)
  case (Cons d ds)
  then have "the (hexval d) < 16" by (auto simp: is_hex_def dest: hexval_lt)
  then have "(16 * acc + the (hexval d) + 1) * 16 ^ length ds \<le> (16 * acc + 16) * 16 ^ length ds"
    by (intro mult_le_mono1) simp
  moreover have "hex_num (16 * acc + the (hexval d)) ds < (16 * acc + the (hexval d) + 1) * 16 ^ length ds"
    using Cons by simp
  ultimately have "hex_num (16 * acc + the (hexval d)) ds < (16 * acc + 16) * 16 ^ length ds"
    by (rule less_le_trans [rotated])
  then show ?case by (simp add: algebra_simps)
qed simp

lemma length_dropWhile_le2: "length s \<le> 2 \<Longrightarrow> length (dropWhile P s) \<le> 2"
  using length_dropWhile_le [of P s] by linarith

lemma parseInt16_range: "length s \<le> 2 \<Longrightarrow> byte_range (parseInt16 s)"
proof -
  assume len: "length s \<le> 2"
  define t where "t = dropWhile js_white s"
  define ds where "ds = takeWhile is_hex (strip_0x (snd (strip_sign t)))"
  have "length t \<le> 2" using len by (simp add: t_def length_dropWhile_le2)
  then have "length (strip_0x (snd (strip_sign t))) \<le> 2"
    by (auto simp: strip_sign_def strip_0x_def split: list.splits)
  then have "length ds \<le> 2"
    unfolding ds_def by (meson le_trans length_takeWhile_le)
  then have "(16::nat) ^ length ds \<le> 16 ^ 2" by (intro power_increasing) auto
  moreover have "hex_num 0 ds < 16 ^ length ds"
    using hex_num_bound [of ds 0] by (simp add: ds_def list_all_iff) (metis set_takeWhileD)
  ultimately have "hex_num 0 ds < 256" by simp
  moreover have "parseInt16 s = (if ds = [] then NaN
      else Num (if fst (strip_sign t) then - int (hex_num 0 ds) else int (hex_num 0 ds)))"
    by (simp add: parseInt16_def t_def ds_def Let_def case_prod_beta)
  ultimately show ?thesis by (auto simp: byte_range_def)
qed

lemma hexToBytes_range: "list_all byte_range (hexToBytes s)"
  by (auto simp: hexToBytes_eq list_all_iff intro: parseInt16_range dest: str_pairs_elem)

lemma bytesToHex_hexToBytes_rev:
  "bytesToHex (rev (hexToBytes s)) = buf_to_hex (rev (map (num_byte \<circ> parseInt16) (str_pairs s)))"
proof -
  have "list_all byte_range (rev (hexToBytes s))"
    using hexToBytes_range by (simp add: list_all_iff)
  from bytesToHex_bytes [OF this] show ?thesis
    by (simp add: hexToBytes_eq rev_map)
qed

lemma num_byte_parseInt16_hex:
  "hexval a = Some m \<Longrightarrow> hexval b = Some n \<Longrightarrow> num_byte (parseInt16 [a, b]) = of_nat (16 * m + n)"
proof -
  assume a: "hexval a = Some m" and b: "hexval b = Some n"
  have "\<not> js_white a" "a \<noteq> CHR ''-''" "a \<noteq> CHR ''+''" "b \<noteq> CHR ''x''" "b \<noteq> CHR ''X''"
    using a b by (auto simp: js_white_def hexval_def Let_def)
  then show ?thesis
    using a b by (simp add: parseInt16_def strip_sign_def strip_0x_def is_hex_def num_byte_def)
qed

lemma hexToBytes_valid:
  "list_all is_hex s \<Longrightarrow> even (length s) \<Longrightarrow> map (num_byte \<circ> parseInt16) (str_pairs s) = buf_from_hex s"
  by (induction s rule: str_pairs.induct)
    (auto simp: is_hex_def num_byte_parseInt16_hex split: option.splits)

lemma num_byte_u8_values: "map num_byte (u8_values bs) = bs"
  by (induction bs) (simp_all add: u8_values_def num_byte_def)

lemma bytesToHex_u8_values: "bytesToHex (rev (u8_values bs)) = buf_to_hex (rev bs)"
proof -
  have "byte_range (Num (uint b))" for b :: byte
  proof -
    have "0 \<le> uint b" and "uint b < 256"
      using uint_bounded [of b] by simp_all
    then have "- 256 \<le> uint b" by linarith
    with \<open>uint b < 256\<close> show ?thesis by (simp add: byte_range_def)
  qed
  then have "list_all byte_range (rev (u8_values bs))"
    by (auto simp: u8_values_def list_all_iff)
  then show ?thesis
    by (simp add: bytesToHex_bytes rev_map [symmetric] num_byte_u8_values)
qed

section \<open>What the helpers and the handlers compute\<close>

text \<open>A transaction id a client writes in display order goes to the server in internal
  order, and an id the server returns in internal order is printed back in display order:
  \<open>bytesToHex(hexToBytes(h).reverse())\<close> is the hex of the reversed bytes, whatever the case of
  the digits, and \<open>bytesToHex\<close> of the reversed reply bytes undoes it.\<close>

theorem rest_txid_order:
  assumes "list_all is_hex h" and "even (length h)"
  shows "bytesToHex (rev (hexToBytes h)) = buf_to_hex (rev (buf_from_hex h))
    \<and> bytesToHex (rev (u8_values (buf_from_hex (bytesToHex (rev (hexToBytes h)))))) = buf_to_hex (buf_from_hex h)"
proof -
  have "bytesToHex (rev (hexToBytes h)) = buf_to_hex (rev (buf_from_hex h))"
    using assms by (simp only: bytesToHex_hexToBytes_rev hexToBytes_valid)
  then show ?thesis by (simp add: buf_from_to_hex bytesToHex_u8_values)
qed

theorem rest_txid_order_witness:
  "bytesToHex (rev (hexToBytes ''0aFF10'')) = ''10ff0a''"
proof -
  have "list_all is_hex ''0aFF10''" and "even (length ''0aFF10'')"
    by (simp_all add: is_hex_def hexval_def)
  from rest_txid_order [OF this] show ?thesis
    by (simp add: hexval_def hex_pair_def hexdigit_eval)
qed

lemma add_outpoints_eq:
  "add_outpoints ps acc =
     (if \<exists>p \<in> set ps. length (js_split (CHR '':'') p) \<noteq> 2 \<or> js_isNaN_str (js_split (CHR '':'') p ! 1) then None
      else Some (acc @ map (\<lambda>p. (bytesToHex (rev (hexToBytes (js_split (CHR '':'') p ! 0))), js_split (CHR '':'') p ! 1)) ps))"
  by (induction ps arbitrary: acc) (auto simp: Let_def)

text \<open>The outpoint route sends exactly one outpoint per comma-separated item, in order, each
  with a lower-case hex id of even length and the vout text as written; it answers "bad format"
  without calling the server exactly when some item does not have the form \<open>txid:vout\<close> with a vout
  that converts to a number.\<close>

theorem get_utxo_spec:
  "get_utxo param =
     (let seg = js_split (CHR '':''); items = js_split (CHR '','') param in
      if \<exists>p \<in> set items. length (seg p) \<noteq> 2 \<or> js_isNaN_str (seg p ! 1)
      then HEnd bad_format
      else HCall (CallByOutpoints (map (\<lambda>p.
             (buf_to_hex (rev (map (num_byte \<circ> parseInt16) (str_pairs (seg p ! 0)))), seg p ! 1)) items)) (CbUtxo param))"
  by (simp add: get_utxo_def Let_def add_outpoints_eq bytesToHex_hexToBytes_rev)

theorem get_utxo_spec_witness: "get_utxo ''ab'' = HEnd bad_format"
  using get_utxo_spec [of "''ab''"] by simp

text \<open>The script of a decoded P2PKH address is the standard script, of any other type but P2PK
  the P2SH form, and it reaches the server as base64 that decodes to exactly those bytes; an
  address the decoder rejects makes the handler throw without a call.\<close>

theorem addressToScriptpubkey_spec:
  "case cashaddr_decode L a of
     Inl e \<Rightarrow> get_address_utxos L a = HThrow e \<and> get_address_balance L a = HThrow e
   | Inr (ty, h) \<Rightarrow> (\<exists>spk. get_address_utxos L a = HCall (CallByScriptPubKey spk 10000) (CbAddressUtxos spk)
        \<and> get_address_balance L a = HCall (CallBalance spk) (CbAddressBalance spk)
        \<and> buf_from_base64 spk =
            (if ty = ''P2PKH'' then 0x76 # 0xA9 # of_nat (length h) # h @ [0x88, 0xAC]
             else (if ty = ''P2PK'' then 0xAC else 0xA9) # of_nat (length h) # h @ [0x87]))"
  by (auto simp: addressToScriptpubkey_def get_address_utxos_def get_address_balance_def
      buf_from_to_base64 split: sum.splits)

end
