(* ===== verification/RestProgram.thy ===== *)
theory RestProgram
  imports RestServer "HOL-Library.AList"
begin

text \<open>
  The handlers and callbacks of \<open>rest/index.js\<close> statement by statement. A statement changes the world of
  response objects and sent gRPC calls and completes normally, by \<open>return\<close>, or with an exception; only
  the sequencing of the statements decides how often a response is ended and whether a call is sent, so
  a missing \<open>return\<close> lets a body run on. RestServer describes the same handlers by their outcome; the
  theorems here say that the bodies have these outcomes.
\<close>

section \<open>Response objects and statements\<close>

text \<open>
  What a client gets: a response the code ends, the page of Express's error handler, or its 404 page.
  A response object lists what was sent on it, in order, so that ending it twice is visible.
\<close>

datatype answer = Sent http_response | ErrorPage jsexn | NotFoundPage

record response_object =
  ro_headers :: "(string \<times> string) list"
  ro_answers :: "answer list"

definition new_response :: response_object where
  "new_response = \<lparr>ro_headers = [], ro_answers = []\<rparr>"

text \<open>A sent call with its callback: the reference to the response and the variables it closes over.\<close>

type_synonym sent_call = "rpc_call \<times> nat \<times> callback"

record js_world =
  w_objects :: "nat \<Rightarrow> response_object"
  w_calls :: "sent_call list"

datatype 'a completion = Norm 'a | Ret | Thrown jsexn

type_synonym 'a stm = "js_world \<Rightarrow> 'a completion \<times> js_world"

definition stm_seq :: "'a stm \<Rightarrow> ('a \<Rightarrow> 'b stm) \<Rightarrow> 'b stm" where
  "stm_seq m k w = (case m w of (Norm x, w) \<Rightarrow> k x w | (Ret, w) \<Rightarrow> (Ret, w) | (Thrown e, w) \<Rightarrow> (Thrown e, w))"

definition stm_value :: "'a \<Rightarrow> 'a stm" where
  "stm_value x w = (Norm x, w)"

definition stm_return :: "'a stm" where
  "stm_return w = (Ret, w)"

definition stm_eval :: "'a js \<Rightarrow> 'a stm" where
  "stm_eval v w = (case v of Inl e \<Rightarrow> (Thrown e, w) | Inr x \<Rightarrow> (Norm x, w))"

definition stm_if :: "bool \<Rightarrow> unit stm \<Rightarrow> unit stm" where
  "stm_if c m = (if c then m else stm_value ())"

definition on_object :: "nat \<Rightarrow> (response_object \<Rightarrow> response_object) \<Rightarrow> js_world \<Rightarrow> js_world" where
  "on_object res f w = w\<lparr>w_objects := (w_objects w)(res := f (w_objects w res))\<rparr>"

text \<open>\<open>res.setHeader\<close>, which throws once the response is sent, and \<open>res.end\<close>.\<close>

definition res_setHeader :: "nat \<Rightarrow> string \<Rightarrow> string \<Rightarrow> unit stm" where
  "res_setHeader res k v w = (if ro_answers (w_objects w res) \<noteq> [] then (Thrown (JsExn ''ERR_HTTP_HEADERS_SENT''), w)
     else (Norm (), on_object res (\<lambda>obj. obj\<lparr>ro_headers := AList.update k v (ro_headers obj)\<rparr>) w))"

definition send_answer :: "answer \<Rightarrow> response_object \<Rightarrow> response_object" where
  "send_answer a obj = obj\<lparr>ro_answers := ro_answers obj @ [a]\<rparr>"

definition res_end :: "nat \<Rightarrow> string \<Rightarrow> unit stm" where
  "res_end res text w = (Norm (), on_object res (\<lambda>obj. send_answer (Sent \<lparr>headers = ro_headers obj, body = text\<rparr>) obj) w)"

definition send_call :: "rpc_call \<Rightarrow> nat \<Rightarrow> callback \<Rightarrow> unit stm" where
  "send_call call res cb w = (Norm (), w\<lparr>w_calls := w_calls w @ [(call, res, cb)]\<rparr>)"

text \<open>The accessors of a reply; with an error the reply is undefined.\<close>

definition reply_method :: "string \<Rightarrow> (reply \<Rightarrow> 'a option) \<Rightarrow> rpc_result \<Rightarrow> 'a js" where
  "reply_method m get r = (case r of
       RpcErr _ \<Rightarrow> js_throw ''Cannot read property of undefined''
     | RpcOk rep \<Rightarrow> (case get rep of None \<Rightarrow> js_throw (''response.'' @ m @ '' is not a function'') | Some x \<Rightarrow> Inr x))"

definition getTxdataList_asB64 :: "rpc_result \<Rightarrow> string list js" where
  "getTxdataList_asB64 = reply_method ''getTxdataList_asB64'' (\<lambda>rep. case rep of TxdataReply txs \<Rightarrow> Some txs | _ \<Rightarrow> None)"

definition getOutputsList :: "rpc_result \<Rightarrow> output_msg list js" where
  "getOutputsList = reply_method ''getOutputsList'' (\<lambda>rep. case rep of OutputsReply outs \<Rightarrow> Some outs | _ \<Rightarrow> None)"

definition getBalance :: "rpc_result \<Rightarrow> int js" where
  "getBalance = reply_method ''getBalance'' (\<lambda>rep. case rep of BalanceReply b \<Rightarrow> Some b | _ \<Rightarrow> None)"

section \<open>The routes\<close>

definition graphsearch_route :: "nat \<Rightarrow> string \<Rightarrow> unit stm" where
  "graphsearch_route res txid = send_call (CallGraphSearch txid) res (CbGraphSearch txid)"

fun outpoints_route_loop :: "nat \<Rightarrow> string list \<Rightarrow> (string \<times> string) list \<Rightarrow> (string \<times> string) list stm" where
  "outpoints_route_loop res [] request = stm_value request"
| "outpoints_route_loop res (o1 # os) request = (let segments = js_split (CHR '':'') o1 in
     stm_seq (stm_if (length segments \<noteq> 2 \<or> js_isNaN_str (segments ! 1))
       (stm_seq (res_end res (failure_body (JStr ''bad format''))) (\<lambda>_. stm_return)))
     (\<lambda>_. outpoints_route_loop res os (request @ [(bytesToHex (rev (hexToBytes (segments ! 0))), segments ! 1)])))"

definition utxo_route :: "nat \<Rightarrow> string \<Rightarrow> unit stm" where
  "utxo_route res param = stm_seq (outpoints_route_loop res (js_split (CHR '','') param) [])
     (\<lambda>request. send_call (CallByOutpoints request) res (CbUtxo param))"

definition address_utxos_route :: "libs \<Rightarrow> nat \<Rightarrow> string \<Rightarrow> unit stm" where
  "address_utxos_route L res param = stm_seq (stm_eval (addressToScriptpubkey L param))
     (\<lambda>spk. send_call (CallByScriptPubKey spk 10000) res (CbAddressUtxos spk))"

definition address_balance_route :: "libs \<Rightarrow> nat \<Rightarrow> string \<Rightarrow> unit stm" where
  "address_balance_route L res param = stm_seq (stm_eval (addressToScriptpubkey L param))
     (\<lambda>spk. send_call (CallBalance spk) res (CbAddressBalance spk))"

section \<open>The callbacks\<close>

text \<open>The same statements open every callback: \<open>if (err) { res.end(...); return; }\<close>.\<close>

definition answer_error :: "nat \<Rightarrow> rpc_result \<Rightarrow> unit stm" where
  "answer_error res r = (case r of
       RpcErr err \<Rightarrow> stm_seq (res_end res (failure_body err)) (\<lambda>_. stm_return)
     | RpcOk _ \<Rightarrow> stm_value ())"

definition graphsearch_callback :: "nat \<Rightarrow> rpc_result \<Rightarrow> unit stm" where
  "graphsearch_callback res r =
     stm_seq (res_setHeader res ''Content-Type'' ''application/json'') (\<lambda>_.
     stm_seq (answer_error res r) (\<lambda>_.
     stm_seq (stm_eval (getTxdataList_asB64 r)) (\<lambda>txdatalist.
     res_end res (success_body (JArr (map JStr txdatalist))))))"

definition utxo_callback :: "libs \<Rightarrow> nat \<Rightarrow> rpc_result \<Rightarrow> unit stm" where
  "utxo_callback L res r =
     stm_seq (res_setHeader res ''Content-Type'' ''application/json'') (\<lambda>_.
     stm_seq (answer_error res r) (\<lambda>_.
     stm_seq (stm_eval (getOutputsList r)) (\<lambda>outputslist.
     stm_seq (stm_eval (js_map (utxo_entry L) outputslist)) (\<lambda>entries.
     res_end res (success_body (JArr entries))))))"

definition address_utxos_callback :: "libs \<Rightarrow> nat \<Rightarrow> rpc_result \<Rightarrow> unit stm" where
  "address_utxos_callback L res r =
     stm_seq (res_setHeader res ''Content-Type'' ''application/json'') (\<lambda>_.
     stm_seq (answer_error res r) (\<lambda>_.
     stm_seq (stm_eval (getOutputsList r)) (\<lambda>outputslist.
     stm_seq (stm_eval (js_map (\<lambda>v. js_bind (utxo_fields L v) (\<lambda>fs. Inr (JObj fs))) outputslist)) (\<lambda>entries.
     res_end res (success_body (JArr entries))))))"

definition address_balance_callback :: "nat \<Rightarrow> rpc_result \<Rightarrow> unit stm" where
  "address_balance_callback res r =
     stm_seq (res_setHeader res ''Content-Type'' ''application/json'') (\<lambda>_.
     stm_seq (answer_error res r) (\<lambda>_.
     stm_seq (stm_eval (getBalance r)) (\<lambda>balance.
     res_end res (success_body (JNum balance)))))"

section \<open>Running the bodies\<close>

fun route_body :: "libs \<Rightarrow> route \<Rightarrow> nat \<Rightarrow> string \<Rightarrow> unit stm" where
  "route_body L RGraphSearch res p = graphsearch_route res p"
| "route_body L RUtxo res p = utxo_route res p"
| "route_body L RAddressUtxos res p = address_utxos_route L res p"
| "route_body L RAddressBalance res p = address_balance_route L res p"

fun callback_body :: "libs \<Rightarrow> callback \<Rightarrow> nat \<Rightarrow> rpc_result \<Rightarrow> unit stm" where
  "callback_body L (CbGraphSearch txid) res r = graphsearch_callback res r"
| "callback_body L (CbUtxo param) res r = utxo_callback L res r"
| "callback_body L (CbAddressUtxos spk) res r = address_utxos_callback L res r"
| "callback_body L (CbAddressBalance spk) res r = address_balance_callback res r"

text \<open>A function body: its exception, if any, and the world it leaves.\<close>

definition run_body :: "unit stm \<Rightarrow> js_world \<Rightarrow> jsexn option \<times> js_world" where
  "run_body m w = (case m w of (Thrown e, w) \<Rightarrow> (Some e, w) | (_, w) \<Rightarrow> (None, w))"

text \<open>
  Express: the first route that matches; its error page for an exception, unless something was sent
  already, and its 404 page when no route matches.
\<close>

definition express_error :: "nat \<Rightarrow> jsexn \<Rightarrow> js_world \<Rightarrow> js_world" where
  "express_error res e w = (if ro_answers (w_objects w res) = [] then on_object res (send_answer (ErrorPage e)) w else w)"

definition express_request :: "libs \<Rightarrow> string \<Rightarrow> nat \<Rightarrow> js_world \<Rightarrow> js_world" where
  "express_request L path res w = (case first_match routes path of
       None \<Rightarrow> on_object res (send_answer NotFoundPage) w
     | Some (r, cap) \<Rightarrow> (case decode_param L cap of
           None \<Rightarrow> express_error res (JsExn ''Failed to decode param'') w
         | Some p \<Rightarrow> (case run_body (route_body L r res p) w of
               (None, w) \<Rightarrow> w
             | (Some e, w) \<Rightarrow> express_error res e w)))"

section \<open>The bodies have the outcomes of RestServer\<close>

lemmas stm_defs = stm_seq_def stm_value_def stm_return_def stm_eval_def stm_if_def res_end_def send_call_def

lemma outpoints_route_loop_run:
  "outpoints_route_loop res ps request w = (case add_outpoints ps request of
     None \<Rightarrow> (Ret, snd (res_end res (body bad_format) w)) | Some q \<Rightarrow> (Norm q, w))"
  by (induction ps arbitrary: request) (simp_all add: stm_defs Let_def bad_format_def)

text \<open>A route on a fresh response: exactly what \<open>dispatch\<close> says, on this response and no other.\<close>

theorem express_request_run:
  assumes "w_objects w res = new_response"
  shows "express_request L path res w = (case dispatch L path of
      HEnd resp \<Rightarrow> on_object res (send_answer (Sent resp)) w
    | HCall call cb \<Rightarrow> w\<lparr>w_calls := w_calls w @ [(call, res, cb)]\<rparr>
    | HThrow e \<Rightarrow> on_object res (send_answer (ErrorPage e)) w
    | HNotFound \<Rightarrow> on_object res (send_answer NotFoundPage) w)"
proof (cases "first_match routes path")
  case (Some rc)
  obtain r cap where rc: "rc = (r, cap)" by (cases rc)
  show ?thesis
  proof (cases "decode_param L cap")
    case None
    with Some rc assms show ?thesis by (simp add: express_request_def dispatch_def express_error_def new_response_def)
  next
    case (Some p)
    have e: "express_request L path res w = (case run_body (route_body L r res p) w of (None, w) \<Rightarrow> w | (Some e, w) \<Rightarrow> express_error res e w)"
      "dispatch L path = run_handler L r p"
      using \<open>first_match routes path = Some rc\<close> rc Some by (simp_all add: express_request_def dispatch_def)
    show ?thesis
      unfolding e using assms
      by (cases r) (auto simp: run_body_def graphsearch_route_def get_graphsearch_def utxo_route_def get_utxo_def outpoints_route_loop_run
        address_utxos_route_def get_address_utxos_def address_balance_route_def get_address_balance_def stm_defs express_error_def
        bad_format_def new_response_def on_object_def split: option.split sum.split)
  qed
qed (simp add: express_request_def dispatch_def)

text \<open>A callback on a response nothing was sent on: it answers or throws as \<open>on_callback\<close> says.\<close>

theorem callback_body_run:
  assumes "w_objects w res = new_response"
  shows "run_body (callback_body L cb res r) w = (case on_callback L cb r of
      CEnd resp \<Rightarrow> (None, on_object res (\<lambda>obj. send_answer (Sent resp) (obj\<lparr>ro_headers := headers resp\<rparr>)) w)
    | CThrow e \<Rightarrow> (Some e, on_object res (\<lambda>obj. obj\<lparr>ro_headers := json_headers\<rparr>) w))"
  using assms
  by (cases cb; cases r)
    (auto simp: run_body_def graphsearch_callback_def utxo_callback_def address_utxos_callback_def address_balance_callback_def
      on_graphsearch_def on_utxo_def on_address_utxos_def on_address_balance_def missing_method_def answer_error_def
      getTxdataList_asB64_def getOutputsList_def getBalance_def reply_method_def stm_defs res_setHeader_def on_object_def new_response_def
      json_headers_def send_answer_def split: reply.split sum.split)

end
