(* ===== verification/RestEventLoop.thy ===== *)
theory RestEventLoop
  imports RestProgram
begin

text \<open>
  The event loop under \<open>rest/index.js\<close>: requests arrive in any order, each with a response object of its
  own, and Express runs the route to its end at once; a sent gRPC call gets its result at any later
  time, in any order, and then its callback runs on the response it closes over. Nothing catches an
  exception of a callback, so the process exits with it. The loop belongs to Node and Express; what is
  proved about it here rests on the statements of the bodies in RestProgram.
\<close>

section \<open>The loop\<close>

record loop_state =
  arrived :: "string list"
  objects :: "nat \<Rightarrow> response_object"
  calls :: "sent_call list"
  replies :: "nat \<rightharpoonup> rpc_result"
  crashed :: "(nat \<times> jsexn) option"

definition loop_start :: loop_state where
  "loop_start = \<lparr>arrived = [], objects = (\<lambda>_. new_response), calls = [], replies = Map.empty, crashed = None\<rparr>"

definition world_of :: "loop_state \<Rightarrow> js_world" where
  "world_of s = \<lparr>w_objects = objects s, w_calls = calls s\<rparr>"

text \<open>A request: the next response object is its own.\<close>

definition accept_request :: "libs \<Rightarrow> string \<Rightarrow> loop_state \<Rightarrow> loop_state" where
  "accept_request L path s = (let w = express_request L path (length (arrived s)) (world_of s) in
     s\<lparr>arrived := arrived s @ [path], objects := w_objects w, calls := w_calls w\<rparr>)"

text \<open>The result of the call with number \<open>k\<close>.\<close>

definition run_callback :: "libs \<Rightarrow> nat \<Rightarrow> rpc_result \<Rightarrow> loop_state \<Rightarrow> loop_state" where
  "run_callback L k r s = (case calls s ! k of (call, res, cb) \<Rightarrow>
     (case run_body (callback_body L cb res r) (world_of s) of (e, w) \<Rightarrow>
        s\<lparr>objects := w_objects w, calls := w_calls w, replies := (replies s)(k \<mapsto> r),
          crashed := map_option (Pair k) e\<rparr>))"

inductive loop_step :: "libs \<Rightarrow> loop_state \<Rightarrow> loop_state \<Rightarrow> bool" for L :: libs where
  step_request: "crashed s = None \<Longrightarrow> loop_step L s (accept_request L path s)"
| step_reply: "crashed s = None \<Longrightarrow> k < length (calls s) \<Longrightarrow> replies s k = None \<Longrightarrow> loop_step L s (run_callback L k r s)"

inductive_cases loop_stepE: "loop_step L s t"

abbreviation loop_reachable :: "libs \<Rightarrow> loop_state \<Rightarrow> bool" where
  "loop_reachable L \<equiv> reach (\<lambda>s. s = loop_start) (loop_step L)"

section \<open>What becomes of a request\<close>

abbreviation call_object :: "loop_state \<Rightarrow> nat \<Rightarrow> nat" where
  "call_object s k \<equiv> fst (snd (calls s ! k))"

text \<open>The answers sent on a response, its calls without a result, and whether the process died in its callback.\<close>

abbreviation answers_of :: "loop_state \<Rightarrow> nat \<Rightarrow> answer list" where
  "answers_of s i \<equiv> ro_answers (objects s i)"

definition open_calls :: "loop_state \<Rightarrow> nat \<Rightarrow> nat set" where
  "open_calls s i = {k. k < length (calls s) \<and> replies s k = None \<and> call_object s k = i}"

definition died_in :: "loop_state \<Rightarrow> nat \<Rightarrow> bool" where
  "died_in s i \<longleftrightarrow> (\<exists>k e. crashed s = Some (k, e) \<and> k < length (calls s) \<and> call_object s k = i)"

text \<open>The answer the code owes a request at once, by the outcome of its route.\<close>

fun owed_at_once :: "handler_outcome \<Rightarrow> answer option" where
  "owed_at_once (HEnd resp) = Some (Sent resp)"
| "owed_at_once (HThrow e) = Some (ErrorPage e)"
| "owed_at_once HNotFound = Some NotFoundPage"
| "owed_at_once (HCall call cb) = None"

definition call_rule :: "libs \<Rightarrow> loop_state \<Rightarrow> bool" where
  "call_rule L s \<longleftrightarrow> (\<forall>k call res cb. k < length (calls s) \<and> calls s ! k = (call, res, cb) \<longrightarrow>
     res < length (arrived s) \<and> dispatch L (arrived s ! res) = HCall call cb)"

text \<open>
  The invariant: a request is answered at once, or has one call; with the call open its response is
  untouched, and with a result it holds the answer of the callback, unless that threw.
\<close>

definition call_state :: "libs \<Rightarrow> loop_state \<Rightarrow> nat \<Rightarrow> bool" where
  "call_state L s k \<longleftrightarrow> (case replies s k of
       None \<Rightarrow> objects s (call_object s k) = new_response
     | Some r \<Rightarrow> (case on_callback L (snd (snd (calls s ! k))) r of
           CEnd resp \<Rightarrow> answers_of s (call_object s k) = [Sent resp] \<and> (\<forall>e. crashed s \<noteq> Some (k, e))
         | CThrow e \<Rightarrow> answers_of s (call_object s k) = [] \<and> crashed s = Some (k, e)))"

definition request_rule :: "libs \<Rightarrow> loop_state \<Rightarrow> nat \<Rightarrow> bool" where
  "request_rule L s i \<longleftrightarrow> (case owed_at_once (dispatch L (arrived s ! i)) of
       Some a \<Rightarrow> answers_of s i = [a]
     | None \<Rightarrow> (\<exists>k < length (calls s). call_object s k = i \<and> call_state L s k))"

definition loop_inv :: "libs \<Rightarrow> loop_state \<Rightarrow> bool" where
  "loop_inv L s \<longleftrightarrow> call_rule L s \<and> distinct (map (fst \<circ> snd) (calls s)) \<and> (\<forall>i < length (arrived s). request_rule L s i)
     \<and> (\<forall>i \<ge> length (arrived s). objects s i = new_response) \<and> (\<forall>k. length (calls s) \<le> k \<longrightarrow> replies s k = None)
     \<and> (\<forall>k e. crashed s = Some (k, e) \<longrightarrow> k < length (calls s) \<and> replies s k \<noteq> None)"

lemma accept_request_run:
  assumes "objects s (length (arrived s)) = new_response"
  shows "accept_request L path s = (case dispatch L path of
      HCall call cb \<Rightarrow> s\<lparr>arrived := arrived s @ [path], calls := calls s @ [(call, length (arrived s), cb)]\<rparr>
    | out \<Rightarrow> s\<lparr>arrived := arrived s @ [path],
        objects := (objects s)(length (arrived s) := send_answer (the (owed_at_once out)) new_response)\<rparr>)"
  using assms
  by (simp add: accept_request_def express_request_run world_of_def on_object_def Let_def split: handler_outcome.split)

lemma run_callback_run:
  assumes "calls s ! k = (call, res, cb)" and "objects s res = new_response"
  shows "run_callback L k r s = (case on_callback L cb r of
      CEnd resp \<Rightarrow> s\<lparr>replies := (replies s)(k \<mapsto> r), crashed := None,
        objects := (objects s)(res := send_answer (Sent resp) (new_response\<lparr>ro_headers := headers resp\<rparr>))\<rparr>
    | CThrow e \<Rightarrow> s\<lparr>replies := (replies s)(k \<mapsto> r), crashed := Some (k, e),
        objects := (objects s)(res := new_response\<lparr>ro_headers := json_headers\<rparr>)\<rparr>)"
  using assms
  by (simp add: run_callback_def callback_body_run world_of_def on_object_def split: callback_outcome.split)

lemma send_answer_new [state_simps]:
  "ro_answers (send_answer a obj) = ro_answers obj @ [a]" "ro_answers new_response = []"
  "ro_answers (obj\<lparr>ro_headers := h\<rparr>) = ro_answers obj"
  by (simp_all add: send_answer_def new_response_def)

lemma distinct_call_objects:
  "distinct (map (fst \<circ> snd) (calls s)) \<Longrightarrow> j < length (calls s) \<Longrightarrow> k < length (calls s) \<Longrightarrow> call_object s j = call_object s k \<Longrightarrow> j = k"
  by (auto simp: distinct_conv_nth)

text \<open>A step that leaves a request and its calls alone.\<close>

lemma request_rule_frame:
  assumes "request_rule L s j" and "arrived t ! j = arrived s ! j" and "answers_of t j = answers_of s j"
    and "\<And>k. k < length (calls s) \<Longrightarrow> call_object s k = j \<Longrightarrow> call_state L s k \<Longrightarrow>
      k < length (calls t) \<and> call_object t k = j \<and> call_state L t k"
  shows "request_rule L t j"
proof (cases "owed_at_once (dispatch L (arrived s ! j))")
  case None
  with assms(1) obtain k where "k < length (calls s)" "call_object s k = j" "call_state L s k" by (auto simp: request_rule_def)
  from assms(4) [OF this] show ?thesis using None assms(2) by (auto simp: request_rule_def)
qed (use assms in \<open>auto simp: request_rule_def\<close>)

lemma loop_inv_start [inv_intros]: "loop_inv L loop_start"
  by (simp add: loop_inv_def loop_start_def call_rule_def)

lemma accept_request_inv [inv_intros]:
  assumes inv: "loop_inv L s" and c: "crashed s = None"
  shows "loop_inv L (accept_request L path s)"
proof -
  let ?n = "length (arrived s)" and ?t = "accept_request L path s"
  note i = inv [unfolded loop_inv_def]
  have new: "objects s ?n = new_response" using i by simp
  note run = accept_request_run [OF new, of L path]
  have calls: "\<forall>k < length (calls s). call_object s k < ?n" using i by (auto simp: call_rule_def) (metis prod.collapse)
  show ?thesis
  proof (cases "owed_at_once (dispatch L path)")
    case (Some a)
    then have t: "?t = s\<lparr>arrived := arrived s @ [path], objects := (objects s)(?n := send_answer a new_response)\<rparr>"
      unfolding run by (cases "dispatch L path") auto
    have "request_rule L ?t j" if "j < ?n" for j
    proof (rule request_rule_frame [of L s])
      show "request_rule L s j" using i that by blast
    qed (use that in \<open>auto simp: call_state_def t nth_append split: option.splits callback_outcome.splits\<close>)
    moreover have "request_rule L ?t ?n" using Some by (simp add: request_rule_def t send_answer_new)
    moreover have "call_rule L ?t" using i by (simp add: call_rule_def t nth_append) (metis less_SucI)
    ultimately show ?thesis using i by (auto simp: loop_inv_def t less_Suc_eq)
  next
    case None
    then obtain call cb where d: "dispatch L path = HCall call cb" by (cases "dispatch L path") auto
    then have t: "?t = s\<lparr>arrived := arrived s @ [path], calls := calls s @ [(call, ?n, cb)]\<rparr>" unfolding run by simp
    have "request_rule L ?t j" if "j < ?n" for j
    proof (rule request_rule_frame [of L s])
      show "request_rule L s j" using i that by blast
    qed (use that in \<open>auto simp: call_state_def t nth_append split: option.splits callback_outcome.splits\<close>)
    moreover have "request_rule L ?t ?n"
      using d new i unfolding request_rule_def call_state_def t by (auto simp: nth_append intro!: exI [of _ "length (calls s)"])
    moreover have "call_rule L ?t" using i d by (auto simp: call_rule_def t nth_append less_Suc_eq)
    moreover have "distinct (map (fst \<circ> snd) (calls ?t))" using i calls by (force simp: t in_set_conv_nth)
    ultimately show ?thesis using i c by (auto simp: loop_inv_def t less_Suc_eq)
  qed
qed

lemma run_callback_inv [inv_intros]:
  assumes inv: "loop_inv L s" and c: "crashed s = None" and k: "k < length (calls s)" "replies s k = None"
  shows "loop_inv L (run_callback L k r s)"
proof -
  obtain call res cb where call: "calls s ! k = (call, res, cb)" by (cases "calls s ! k") auto
  note i = inv [unfolded loop_inv_def]
  have res: "res < length (arrived s)" "dispatch L (arrived s ! res) = HCall call cb" using i k(1) call by (auto simp: call_rule_def)
  have same: "j = k" if "j < length (calls s)" "call_object s j = res" for j
    using distinct_call_objects [of s j k] i that k(1) call by simp
  have "request_rule L s res" using i res(1) by blast
  then have "call_state L s k" using res(2) same by (auto simp: request_rule_def)
  then have new: "objects s res = new_response" using k(2) call by (simp add: call_state_def)
  let ?t = "run_callback L k r s"
  note run = run_callback_run [OF call new, of L r]
  have states: "call_state L ?t j" if "call_state L s j" "call_object s j \<noteq> res" for j
  proof -
    have "j \<noteq> k" using that(2) call by auto
    with that c show ?thesis unfolding call_state_def run
      by (cases "on_callback L cb r"; cases "replies s j") (auto split: callback_outcome.splits)
  qed
  have same_calls: "calls ?t = calls s" "arrived ?t = arrived s" unfolding run by (simp_all split: callback_outcome.split)
  have same_answers: "answers_of ?t j = answers_of s j" if "j \<noteq> res" for j using that unfolding run by (simp split: callback_outcome.split)
  have other: "request_rule L ?t j" if "j < length (arrived s)" "j \<noteq> res" for j
  proof (rule request_rule_frame [of L s])
    show "request_rule L s j" using i that(1) by blast
  qed (use states same_calls same_answers [OF that(2)] that(2) in \<open>simp_all\<close>)
  have "call_state L ?t k" using call unfolding call_state_def run by (cases "on_callback L cb r") (auto simp: send_answer_new)
  then have own: "request_rule L ?t res" using res(2) call k(1) same_calls unfolding request_rule_def by auto
  have "call_rule L ?t" using i same_calls by (simp add: call_rule_def)
  moreover have "\<forall>j. length (calls s) \<le> j \<longrightarrow> replies ?t j = None" "\<forall>j e. crashed ?t = Some (j, e) \<longrightarrow> j < length (calls s) \<and> replies ?t j \<noteq> None"
    "\<forall>j \<ge> length (arrived s). objects ?t j = new_response"
    using i k(1) res(1) unfolding run by (cases "on_callback L cb r"; auto)+
  ultimately show ?thesis using i own other same_calls unfolding loop_inv_def by metis
qed

interpretation loop: machine "\<lambda>s. s = loop_start" "loop_step L" "loop_inv L" for L
proof unfold_locales
  fix s t
  show "s = loop_start \<Longrightarrow> loop_inv L s" by (simp add: loop_inv_start)
  show "loop_inv L s \<Longrightarrow> loop_step L s t \<Longrightarrow> loop_inv L t" by (auto elim!: loop_stepE intro: inv_intros)
qed

lemma reachable_parts:
  assumes "loop_reachable L s"
  shows "call_rule L s" "distinct (map (fst \<circ> snd) (calls s))" "i < length (arrived s) \<Longrightarrow> request_rule L s i"
    "length (arrived s) \<le> i \<Longrightarrow> objects s i = new_response" "k < length (calls s) \<Longrightarrow> call_object s k < length (arrived s)"
    "crashed s = Some (k, e) \<Longrightarrow> k < length (calls s) \<and> replies s k \<noteq> None"
  using loop.reach_inv [OF assms] unfolding loop_inv_def
  by (auto simp: call_rule_def) (metis prod.collapse)

lemma open_calls_one:
  assumes "distinct (map (fst \<circ> snd) (calls s))" and "k < length (calls s)"
  shows "open_calls s (call_object s k) = (if replies s k = None then {k} else {})"
  using distinct_call_objects [OF assms(1) _ assms(2)] assms(2) by (auto simp: open_calls_def)

lemma died_in_call:
  assumes "distinct (map (fst \<circ> snd) (calls s))" and "k < length (calls s)"
  shows "died_in s (call_object s k) \<longleftrightarrow> (\<exists>e. crashed s = Some (k, e))"
  using distinct_call_objects [OF assms(1) _ assms(2)] assms(2) unfolding died_in_def by blast

section \<open>Properties of the running server\<close>

text \<open>C1: Every request is answered once: at any moment, however requests and gRPC results interleave, a request
  that has arrived has been sent exactly one answer, or has exactly one call open and nothing sent, or
  had nothing sent when its callback threw and the process ended; nothing is ever sent on the
  response of a request that has not arrived. Since the bodies run statement by statement, this says
  that every \<open>return\<close> after an answer is in its place.\<close>

theorem rest_exactly_once:
  assumes "loop_reachable L s"
  shows "length (answers_of s i) + card (open_calls s i) + of_bool (died_in s i) = (if i < length (arrived s) then 1 else 0 :: nat)"
proof (cases "i < length (arrived s)")
  case True
  note p = reachable_parts [OF assms]
  show ?thesis
  proof (cases "owed_at_once (dispatch L (arrived s ! i))")
    case (Some a)
    have "call_object s k \<noteq> i" if "k < length (calls s)" for k
      using p(1) that Some by (cases "calls s ! k") (fastforce simp: call_rule_def)
    then have "open_calls s i = {}" "\<not> died_in s i" by (auto simp: open_calls_def died_in_def)
    then show ?thesis using p(3) [OF True] Some True by (simp add: request_rule_def)
  next
    case None
    then obtain k where k: "k < length (calls s)" "call_object s k = i" "call_state L s k"
      using p(3) [OF True] by (auto simp: request_rule_def)
    note o = open_calls_one [OF p(2) k(1)] died_in_call [OF p(2) k(1)]
    show ?thesis
    proof (cases "replies s k")
      case None
      then have "\<not> died_in s i" using p(6) k(2) o(2) by fastforce
      then show ?thesis using None k o True by (simp add: call_state_def send_answer_new)
    next
      case (Some r)
      then show ?thesis using k o True
        by (cases "on_callback L (snd (snd (calls s ! k))) r") (auto simp: call_state_def)
    qed
  qed
next
  case False
  note p = reachable_parts [OF assms]
  then have "open_calls s i = {}" "\<not> died_in s i" using False by (auto simp: open_calls_def died_in_def)
  then show ?thesis using p(4) [of i] False by (simp add: send_answer_new)
qed

text \<open>C2: No two requests are mixed up: whatever the interleaving, an answer on a response is the one its own request
  is owed, at once, or by the result of a gRPC call that the request itself sent, with the arguments its
  path names, and that answered this very call. The bodies reach responses through references they
  close over, so an answer could go to any response.\<close>

theorem rest_answers_own_request:
  assumes "loop_reachable L s" and "a \<in> set (answers_of s i)"
  shows "i < length (arrived s) \<and> (owed_at_once (dispatch L (arrived s ! i)) = Some a
    \<or> (\<exists>k call cb r resp. k < length (calls s) \<and> calls s ! k = (call, i, cb) \<and> replies s k = Some r
        \<and> dispatch L (arrived s ! i) = HCall call cb \<and> on_callback L cb r = CEnd resp \<and> a = Sent resp))"
proof -
  note p = reachable_parts [OF assms(1)]
  have i: "i < length (arrived s)" using p(4) [of i] assms(2) by (force simp: send_answer_new simp flip: not_le)
  show ?thesis
  proof (cases "owed_at_once (dispatch L (arrived s ! i))")
    case (Some b)
    then show ?thesis using p(3) [OF i] i assms(2) by (simp add: request_rule_def)
  next
    case None
    then obtain k where k: "k < length (calls s)" "call_object s k = i" "call_state L s k"
      using p(3) [OF i] by (auto simp: request_rule_def)
    obtain call cb where c: "calls s ! k = (call, i, cb)" using k(2) by (cases "calls s ! k") auto
    then have d: "dispatch L (arrived s ! i) = HCall call cb" using p(1) k(1) by (auto simp: call_rule_def)
    from k(3) assms(2) k(2) c obtain r resp where "replies s k = Some r" "on_callback L cb r = CEnd resp" "a = Sent resp"
      by (cases "replies s k") (auto simp: call_state_def send_answer_new split: callback_outcome.splits)
    with i k(1) c d show ?thesis by blast
  qed
qed

section \<open>Example\<close>

definition example_libs :: libs where
  "example_libs = \<lparr>decode_param = Some, cashaddr_decode = (\<lambda>a. js_throw ''Invalid address''),
     script_address = (\<lambda>_. None), get_height = Some (\<lambda>_. 0)\<rparr>"

text \<open>A search, a malformed outpoint, and the result of the search.\<close>

definition example_loop :: loop_state where
  "example_loop = run_callback example_libs 0 (RpcOk (TxdataReply []))
     (accept_request example_libs ''/utxo/ab'' (accept_request example_libs ''/slp/graphsearch/ab'' loop_start))"

lemma example_dispatch:
  "dispatch example_libs ''/slp/graphsearch/ab'' = HCall (CallGraphSearch ''ab'') (CbGraphSearch ''ab'')"
  "dispatch example_libs ''/utxo/ab'' = HEnd bad_format"
  by (simp_all add: dispatch_def routes_def match_pattern_def line_end_def example_libs_def get_graphsearch_def get_utxo_def)

lemma example_loop_run:
  "accept_request example_libs ''/slp/graphsearch/ab'' loop_start
     = loop_start\<lparr>arrived := [''/slp/graphsearch/ab''], calls := [(CallGraphSearch ''ab'', 0, CbGraphSearch ''ab'')]\<rparr>"
  "loop_reachable example_libs example_loop" "arrived example_loop = [''/slp/graphsearch/ab'', ''/utxo/ab'']"
  "answers_of example_loop 0 = [Sent \<lparr>headers = json_headers, body = success_body (JArr [])\<rparr>]"
  "answers_of example_loop 1 = [Sent bad_format]" "calls example_loop = [(CallGraphSearch ''ab'', 0, CbGraphSearch ''ab'')]"
proof -
  let ?s1 = "accept_request example_libs ''/slp/graphsearch/ab'' loop_start"
  let ?s2 = "accept_request example_libs ''/utxo/ab'' ?s1"
  show s1: "?s1 = loop_start\<lparr>arrived := [''/slp/graphsearch/ab''], calls := [(CallGraphSearch ''ab'', 0, CbGraphSearch ''ab'')]\<rparr>"
    by (subst accept_request_run) (simp_all add: example_dispatch loop_start_def)
  have s2: "?s2 = ?s1\<lparr>arrived := [''/slp/graphsearch/ab'', ''/utxo/ab''],
      objects := (objects loop_start)(1 := send_answer (Sent bad_format) new_response)\<rparr>"
    by (subst accept_request_run) (simp_all add: example_dispatch s1, simp_all add: loop_start_def)
  have "calls ?s2 ! 0 = (CallGraphSearch ''ab'', 0, CbGraphSearch ''ab'')" "objects ?s2 0 = new_response"
    by (simp_all add: s2, simp_all add: s1, simp_all add: loop_start_def)
  note s3 = run_callback_run [OF this, of example_libs "RpcOk (TxdataReply [])"]
  show "answers_of example_loop 0 = [Sent \<lparr>headers = json_headers, body = success_body (JArr [])\<rparr>]"
    "answers_of example_loop 1 = [Sent bad_format]" "arrived example_loop = [''/slp/graphsearch/ab'', ''/utxo/ab'']"
    "calls example_loop = [(CallGraphSearch ''ab'', 0, CbGraphSearch ''ab'')]"
    unfolding example_loop_def s3 by (simp_all add: on_graphsearch_def send_answer_new s2) (simp add: s1)
  have "loop_step example_libs loop_start ?s1" by (rule step_request) (simp add: loop_start_def)
  moreover have "loop_step example_libs ?s1 ?s2" by (rule step_request) (simp add: s1, simp add: loop_start_def)
  moreover have "loop_step example_libs ?s2 example_loop"
    unfolding example_loop_def by (rule step_reply) (simp_all add: s2, simp_all add: s1, simp_all add: loop_start_def)
  ultimately show "loop_reachable example_libs example_loop"
    using reach_init [of "\<lambda>s. s = loop_start" loop_start "loop_step example_libs"] by (blast intro: reach_step)
qed

theorem rest_exactly_once_witness:
  "length (answers_of example_loop 0) + card (open_calls example_loop 0) + of_bool (died_in example_loop 0) = (1 :: nat)
   \<and> answers_of example_loop 1 = [Sent bad_format]"
  using rest_exactly_once [OF example_loop_run(2), of 0] example_loop_run(3,5) by simp

theorem rest_answers_own_request_witness:
  "\<exists>r resp. replies example_loop 0 = Some r \<and> on_callback example_libs (CbGraphSearch ''ab'') r = CEnd resp
     \<and> resp = \<lparr>headers = json_headers, body = success_body (JArr [])\<rparr>"
  using rest_answers_own_request [OF example_loop_run(2), of "Sent \<lparr>headers = json_headers, body = success_body (JArr [])\<rparr>" 0]
    example_loop_run(3,4,6) by (auto simp: example_dispatch)

section \<open>When a callback throws\<close>

text \<open>A result of the kind the called method returns.\<close>

fun reply_fits :: "callback \<Rightarrow> rpc_result \<Rightarrow> bool" where
  "reply_fits _ (RpcErr _) = True"
| "reply_fits (CbGraphSearch _) (RpcOk (TxdataReply _)) = True"
| "reply_fits (CbUtxo _) (RpcOk (OutputsReply _)) = True"
| "reply_fits (CbAddressUtxos _) (RpcOk (OutputsReply _)) = True"
| "reply_fits (CbAddressBalance _) (RpcOk (BalanceReply _)) = True"
| "reply_fits _ _ = False"

lemma utxo_fields_throw: "get_height L = None \<Longrightarrow> \<exists>e. utxo_fields L v = Inl e"
  by (simp add: utxo_fields_def height_of_def)

lemma js_map_total: "(\<And>x. x \<in> set xs \<Longrightarrow> \<exists>y. f x = Inr y) \<Longrightarrow> \<exists>ys. js_map f xs = Inr ys"
proof (induction xs)
  case (Cons x xs)
  then obtain y ys where "f x = Inr y" and "js_map f xs = Inr ys" by fastforce
  then show ?case by simp
qed simp

lemma utxo_entries_ok:
  assumes "get_height L = Some g"
  shows "\<exists>es. js_map (utxo_entry L) outs = Inr es"
    and "\<exists>es. js_map (\<lambda>v. js_bind (utxo_fields L v) (\<lambda>fs. Inr (JObj fs))) outs = Inr es"
  by (rule js_map_total, simp add: utxo_entry_def utxo_fields_def height_of_def assms Let_def)+

lemma utxo_entries_throw:
  assumes "get_height L = None" and "outs \<noteq> []"
  shows "\<exists>e. js_map (utxo_entry L) outs = Inl e"
    and "\<exists>e. js_map (\<lambda>v. js_bind (utxo_fields L v) (\<lambda>fs. Inr (JObj fs))) outs = Inl e"
  using utxo_fields_throw [OF assms(1), of "hd outs"] assms(2)
  by (cases outs; auto simp: utxo_entry_def)+

lemma outputs_callbacks_throw:
  "(\<exists>e. on_utxo L (RpcOk (OutputsReply outs)) = CThrow e) \<longleftrightarrow> get_height L = None \<and> outs \<noteq> []"
  "(\<exists>e. on_address_utxos L (RpcOk (OutputsReply outs)) = CThrow e) \<longleftrightarrow> get_height L = None \<and> outs \<noteq> []"
  using utxo_entries_ok [of L _ outs] utxo_entries_throw [of L outs]
  by (cases "get_height L"; cases "outs = []"; auto simp: on_utxo_def on_address_utxos_def split: sum.splits)+

lemma callbacks_end:
  "on_graphsearch (RpcErr err) = CEnd \<lparr>headers = json_headers, body = failure_body err\<rparr>"
  "on_utxo L (RpcErr err) = CEnd \<lparr>headers = json_headers, body = failure_body err\<rparr>"
  "on_address_utxos L (RpcErr err) = CEnd \<lparr>headers = json_headers, body = failure_body err\<rparr>"
  "on_address_balance (RpcErr err) = CEnd \<lparr>headers = json_headers, body = failure_body err\<rparr>"
  "on_graphsearch (RpcOk (TxdataReply txs)) = CEnd \<lparr>headers = json_headers, body = success_body (JArr (map JStr txs))\<rparr>"
  "on_address_balance (RpcOk (BalanceReply b)) = CEnd \<lparr>headers = json_headers, body = success_body (JNum b)\<rparr>"
  by (simp_all add: on_graphsearch_def on_utxo_def on_address_utxos_def on_address_balance_def)

lemma callback_throw_cases:
  "reply_fits cb r \<Longrightarrow> (\<exists>e. on_callback L cb r = CThrow e) \<longleftrightarrow>
     get_height L = None \<and> (\<exists>outs. outs \<noteq> [] \<and> r = RpcOk (OutputsReply outs))"
  by (induction cb r rule: reply_fits.induct)
    (auto simp: outputs_callbacks_throw callbacks_end elim: on_callback.elims)

text \<open>A callback given the reply of its own method throws, and so takes the process down,
  exactly when the generated output class has no \<open>getHeight\<close> and the reply has an output. The
  message \<open>Output\<close> of \<open>pb/utxo.proto\<close> declares no height, so with the repository's own proto
  every non-empty UTXO answer does so.\<close>

theorem callback_throws_iff:
  assumes "reply_fits cb r"
  shows "(\<exists>e. on_callback L cb r = CThrow e) \<longleftrightarrow>
     get_height L = None \<and> (\<exists>v vs. r = RpcOk (OutputsReply (v # vs)))"
  unfolding callback_throw_cases [OF assms] by (metis neq_Nil_conv)

text \<open>As long as the process runs and the output class has the accessor the code calls, every open call can
  be answered: the arrival of any fitting reply, an error included, is a step after which the
  request has its answer.\<close>

theorem open_call_is_answered:
  assumes "loop_reachable L s" and "crashed s = None" and "k \<in> open_calls s i" and "calls s ! k = (call, i, cb)"
    and "reply_fits cb r" and "get_height L \<noteq> None"
  shows "\<exists>t resp. loop_step L s t \<and> answers_of t i = [Sent resp] \<and> crashed t = None"
proof -
  note p = reachable_parts [OF assms(1)]
  have k: "k < length (calls s)" "replies s k = None" using assms(3) by (simp_all add: open_calls_def)
  have step: "loop_step L s (run_callback L k r s)" by (rule step_reply [OF assms(2) k])
  then have t: "loop_reachable L (run_callback L k r s)" by (rule reach_step [OF assms(1)])
  have "\<not> (\<exists>e. on_callback L cb r = CThrow e)" using assms(6) by (simp add: callback_throw_cases [OF assms(5)])
  then obtain resp where resp: "on_callback L cb r = CEnd resp" by (cases "on_callback L cb r") auto
  have "objects s i = new_response"
  proof -
    have d: "dispatch L (arrived s ! i) = HCall call cb" "i < length (arrived s)" using p(1) k(1) assms(4) by (auto simp: call_rule_def)
    then obtain j where "j < length (calls s)" "call_object s j = i" "call_state L s j"
      using p(3) [OF d(2)] by (auto simp: request_rule_def)
    moreover from this have "j = k" using distinct_call_objects [OF p(2)] k(1) assms(4) by simp
    ultimately show ?thesis using k(2) assms(4) by (simp add: call_state_def)
  qed
  from run_callback_run [OF assms(4) this, of L r] step resp show ?thesis
    by (intro exI [of _ "run_callback L k r s"] exI [of _ resp]) (simp add: send_answer_new)
qed

end
