(* ===== verification/FuzzServers.thy ===== *)
theory FuzzServers
  imports JsValue
begin

text \<open>
  The JavaScript side of the differential fuzzers: \<open>fuzz/slp-parser.js/server.js\<close>,
  \<open>fuzz/nodejs_validation/server.js\<close> and \<open>fuzz/nodejs_validation/report.js\<close>. Each decodes a
  script, gives it to an SLP parser of another project, and rewrites the parser's result into
  the JSON the C++ drivers compare. The two parsers (\<open>slpParser.parseSLP\<close> and
  \<open>validate.Slp.parseSlpOutputScript\<close>) are parameters: functions from bytes to a value or an
  exception.
\<close>

section \<open>Shared steps\<close>

text \<open>\<open>x.toString()\<close>; a Buffer as text holds ASCII here.\<close>

fun js_toString :: "jsval \<Rightarrow> string js" where
  "js_toString JUndef = js_throw ''Cannot read property of undefined''"
| "js_toString JNull = js_throw ''Cannot read property of null''"
| "js_toString (JBool b) = Inr (if b then ''true'' else ''false'')"
| "js_toString (JNum n) = Inr (int_to_dec n)"
| "js_toString (JStr s) = Inr s"
| "js_toString (JBuf bs) = Inr (map char_of_byte bs)"
| "js_toString (JLib t h j) = Inr t"
| "js_toString (JArr xs) = js_bind (js_map (\<lambda>x. if x = JUndef \<or> x = JNull then Inr [] else js_toString x) xs)
     (\<lambda>ss. Inr (js_join '','' ss))"
| "js_toString (JObj ps) = Inr ''[object Object]''"

text \<open>\<open>x.toString('hex')\<close>: strings, arrays and objects ignore the argument, a number has no such radix.\<close>

definition js_toString_hex :: "jsval \<Rightarrow> string js" where
  "js_toString_hex v = (case v of
       JBuf bs \<Rightarrow> Inr (buf_to_hex bs)
     | JLib t h j \<Rightarrow> Inr h
     | JNum n \<Rightarrow> js_throw ''toString() radix argument must be between 2 and 36''
     | _ \<Rightarrow> js_toString v)"

definition js_equals_str :: "jsval \<Rightarrow> string \<Rightarrow> bool" where
  "js_equals_str v s = (case v of
       JUndef \<Rightarrow> False | JNull \<Rightarrow> False | JBool _ \<Rightarrow> False | JNum _ \<Rightarrow> False
     | _ \<Rightarrow> js_toString v = Inr s)"

text \<open>\<open>Buffer.from(v, 'binary').toString('hex').toUpperCase()\<close>.\<close>

definition hex_field :: "jsval \<Rightarrow> jsval js" where
  "hex_field v = js_bind (js_buffer_binary v) (\<lambda>b. Inr (JStr (js_toUpperCase (buf_to_hex b))))"

text \<open>\<open>v.map((v) => v.toString())\<close>.\<close>

definition map_toString :: "jsval \<Rightarrow> jsval js" where
  "map_toString v = (case v of
       JArr xs \<Rightarrow> js_bind (js_map js_toString xs) (\<lambda>ss. Inr (JArr (map JStr ss)))
     | _ \<Rightarrow> js_throw ''map is not a function'')"

text \<open>\<open>y.k = f(x)\<close>, and the same when an object has a property.\<close>

definition set_from :: "jsval \<Rightarrow> string \<Rightarrow> jsval js \<Rightarrow> jsval js" where
  "set_from y k v = js_bind v (js_set y k)"

definition when_js :: "bool js \<Rightarrow> jsval \<Rightarrow> (jsval \<Rightarrow> jsval js) \<Rightarrow> jsval js" where
  "when_js c y f = js_bind c (\<lambda>b. if b then f y else Inr y)"

text \<open>\<open>y.data.k\<close>.\<close>

definition data_get :: "jsval \<Rightarrow> string \<Rightarrow> jsval js" where
  "data_get y k = js_bind (js_get y ''data'') (\<lambda>d. js_get d k)"

definition data_has :: "jsval \<Rightarrow> string \<Rightarrow> bool js" where
  "data_has y k = js_bind (js_get y ''data'') (\<lambda>d. js_hasOwn d k)"

definition script_of_url :: "string \<Rightarrow> bytes" where
  "script_of_url url = buf_from_hex (if url \<noteq> [] \<and> hd url = CHR ''/'' then tl url else url)"

record turbo_response =
  content_length :: nat
  written :: "bytes list"

text \<open>The end of both request handlers: one JSON object, as utf8, with its length.\<close>

definition turbo_reply :: "jsval js \<Rightarrow> turbo_response" where
  "turbo_reply r = (let buf = buf_from_utf8 (case r of
       Inl e \<Rightarrow> json_stringify (JObj [(''success'', JBool False), (''error'', JStr (message e))])
     | Inr y \<Rightarrow> json_stringify (JObj [(''success'', JBool True), (''data'', y)]))
     in \<lparr>content_length = length buf, written = [buf]\<rparr>)"


section \<open>fuzz/slp-parser.js/server.js\<close>

definition slpparser_genesis :: "jsval \<Rightarrow> jsval js" where
  "slpparser_genesis y =
     js_bind (set_from y ''symbol'' (js_bind (data_get y ''ticker'') hex_field)) (\<lambda>y.
     js_bind (set_from y ''name'' (js_bind (data_get y ''name'') hex_field)) (\<lambda>y.
     js_bind (set_from y ''documentUri'' (js_bind (data_get y ''documentUri'') hex_field)) (\<lambda>y.
     js_bind (when_js (js_bind (data_get y ''documentHash'') (\<lambda>h. Inr (h = JNull))) y
                (\<lambda>y. js_set y ''documentSha256'' (JStr ''''))) (\<lambda>y.
     set_from y ''documentSha256'' (js_bind (data_get y ''documentHash'') hex_field)))))"

definition slpparser_rewrite :: "jsval \<Rightarrow> jsval js" where
  "slpparser_rewrite y =
     js_bind (set_from y ''versionType'' (js_get y ''tokenType'')) (\<lambda>y.
     js_bind (when_js (js_bind (js_get y ''transactionType'') (\<lambda>t. Inr (js_equals_str t ''GENESIS''))) y
                slpparser_genesis) (\<lambda>y.
     js_bind (when_js (data_has y ''decimals'') y
                (\<lambda>y. set_from y ''decimals'' (data_get y ''decimals''))) (\<lambda>y.
     js_bind (when_js (data_has y ''qty'') y
                (\<lambda>y. set_from y ''genesisOrMintQuantity'' (js_bind (data_get y ''qty'') (\<lambda>v. js_bind (js_toString v) (Inr \<circ> JStr))))) (\<lambda>y.
     js_bind (when_js (data_has y ''tokenid'') y
                (\<lambda>y. set_from y ''tokenIdHex'' (js_bind (data_get y ''tokenid'') (\<lambda>v. js_bind (js_toString_hex v) (Inr \<circ> JStr))))) (\<lambda>y.
     js_bind (when_js (data_has y ''mintBatonVout'') y
                (\<lambda>y. set_from y ''batonVout'' (data_get y ''mintBatonVout''))) (\<lambda>y.
     when_js (data_has y ''amounts'') y
                (\<lambda>y. set_from y ''sendOutputs'' (js_bind (data_get y ''amounts'') map_toString))))))))"

definition slpparser_server :: "(bytes \<Rightarrow> jsval js) \<Rightarrow> string \<Rightarrow> turbo_response" where
  "slpparser_server parseSLP url = turbo_reply (js_bind (parseSLP (script_of_url url)) slpparser_rewrite)"


section \<open>fuzz/nodejs_validation/server.js and report.js\<close>

definition slpvalidate_genesis :: "jsval \<Rightarrow> jsval js" where
  "slpvalidate_genesis y =
     js_bind (set_from y ''symbol'' (js_bind (js_get y ''symbol'') hex_field)) (\<lambda>y.
     js_bind (set_from y ''name'' (js_bind (js_get y ''name'') hex_field)) (\<lambda>y.
     js_bind (set_from y ''documentUri'' (js_bind (js_get y ''documentUri'') hex_field)) (\<lambda>y.
     js_bind (when_js (js_bind (js_get y ''documentSha256'') (\<lambda>h. Inr (h = JNull))) y
                (\<lambda>y. js_set y ''documentSha256'' (JStr ''''))) (\<lambda>y.
     set_from y ''documentSha256'' (js_bind (js_get y ''documentSha256'') hex_field)))))"

definition slpvalidate_rewrite :: "jsval \<Rightarrow> jsval js" where
  "slpvalidate_rewrite y =
     js_bind (when_js (js_bind (js_get y ''transactionType'') (\<lambda>t. Inr (js_equals_str t ''GENESIS''))) y
                slpvalidate_genesis) (\<lambda>y.
     js_bind (when_js (js_hasOwn y ''genesisOrMintQuantity'') y
                (\<lambda>y. set_from y ''genesisOrMintQuantity''
                   (js_bind (js_get y ''genesisOrMintQuantity'') (\<lambda>v. js_bind (js_toString v) (Inr \<circ> JStr))))) (\<lambda>y.
     when_js (js_hasOwn y ''sendOutputs'') y
                (\<lambda>y. set_from y ''sendOutputs'' (js_bind (js_get y ''sendOutputs'') map_toString))))"

definition slpvalidate_server :: "(bytes \<Rightarrow> jsval js) \<Rightarrow> string \<Rightarrow> turbo_response" where
  "slpvalidate_server parse url = turbo_reply (js_bind (parse (script_of_url url)) slpvalidate_rewrite)"

text \<open>
  \<open>report.js\<close> rewrites with the same statements, on the bytes of a file: it exits with status 1
  and a message, or prints the object. Reading the file is outside its \<open>try\<close>.
\<close>

datatype report_outcome =
    ReportExit nat string
  | ReportUncaught
  | ReportPrint jsval

definition report :: "(bytes \<Rightarrow> jsval js) \<Rightarrow> (string \<Rightarrow> bytes option) \<Rightarrow> string list \<Rightarrow> report_outcome" where
  "report parse readFile argv = (if length argv < 3 then ReportExit 1 ''missing input file''
     else (case readFile (argv ! 2) of
         None \<Rightarrow> ReportUncaught
       | Some bin \<Rightarrow> (case js_bind (parse bin) slpvalidate_rewrite of
             Inl e \<Rightarrow> ReportExit 1 (message e)
           | Inr y \<Rightarrow> ReportPrint y)))"

section \<open>Facts\<close>

lemma hexval_upper: "n < 16 \<Longrightarrow> hexval (char_upper (hexdigit n)) = Some n"
  by (auto simp: hexval_def char_upper_def of_char_hexdigit Let_def)

lemma buf_from_upper_hex [codec_simps]: "buf_from_hex (js_toUpperCase (buf_to_hex bs)) = bs"
  by (induction bs) (simp_all add: js_toUpperCase_def hex_pair_def hexval_upper)

lemma js_bind_assoc [js_simps]: "js_bind (js_bind m f) g = js_bind m (\<lambda>x. js_bind (f x) g)"
  by (cases m) auto

lemma set_from_simps [js_simps]:
  "set_from y k (Inr v) = js_set y k v"
  "set_from y k (Inl e) = Inl e"
  by (simp_all add: set_from_def)

lemma when_js_simps [js_simps]:
  "when_js (Inr True) y f = f y"
  "when_js (Inr False) y f = Inr y"
  "when_js (Inl e) y f = Inl e"
  by (simp_all add: when_js_def)

lemma js_buffer_binary_simps [js_simps]:
  "js_buffer_binary (JBuf bs) = Inr bs"
  "js_buffer_binary (JStr s) = Inr (buf_from_binary s)"
  "js_buffer_binary JNull = js_throw ''The first argument must be of type string or an instance of Buffer''"
  by (simp_all add: js_buffer_binary_def)

section \<open>What the drivers receive\<close>

text \<open>An SLP message as its fields, a mint baton output of 0 meaning none.\<close>

datatype slp_msg =
    MsgGenesis nat bytes bytes bytes bytes nat nat nat
  | MsgMint nat bytes nat nat
  | MsgSend nat bytes "nat list"

text \<open>The object \<open>slp-parser\<close> documents for a message; \<open>big\<close> builds its big numbers.\<close>

fun slpparser_object :: "(nat \<Rightarrow> jsval) \<Rightarrow> slp_msg \<Rightarrow> jsval" where
  "slpparser_object big (MsgGenesis tt ticker name uri hash decs baton qty) =
     JObj [(''tokenType'', JNum (int tt)), (''transactionType'', JStr ''GENESIS''), (''data'', JObj
       [(''ticker'', JBuf ticker), (''name'', JBuf name), (''documentUri'', JBuf uri), (''documentHash'', JBuf hash),
        (''decimals'', JNum (int decs)), (''mintBatonVout'', JNum (int baton)), (''qty'', big qty)])]"
| "slpparser_object big (MsgMint tt tokenid baton qty) =
     JObj [(''tokenType'', JNum (int tt)), (''transactionType'', JStr ''MINT''), (''data'', JObj
       [(''tokenid'', JBuf tokenid), (''mintBatonVout'', JNum (int baton)), (''qty'', big qty)])]"
| "slpparser_object big (MsgSend tt tokenid amounts) =
     JObj [(''tokenType'', JNum (int tt)), (''transactionType'', JStr ''SEND''), (''data'', JObj
       [(''tokenid'', JBuf tokenid), (''amounts'', JArr (map big amounts))])]"

text \<open>The fields the C++ driver compares with its own parse, in upper-case hex and decimal.\<close>

definition upper_hex :: "bytes \<Rightarrow> jsval" where
  "upper_hex bs = JStr (js_toUpperCase (buf_to_hex bs))"

fun driver_fields :: "slp_msg \<Rightarrow> (string \<times> jsval) list" where
  "driver_fields (MsgGenesis tt ticker name uri hash decs baton qty) =
     [(''versionType'', JNum (int tt)), (''transactionType'', JStr ''GENESIS''), (''symbol'', upper_hex ticker),
      (''name'', upper_hex name), (''documentUri'', upper_hex uri), (''documentSha256'', upper_hex hash),
      (''decimals'', JNum (int decs)), (''batonVout'', JNum (int baton)),
      (''genesisOrMintQuantity'', JStr (nat_to_dec qty))]"
| "driver_fields (MsgMint tt tokenid baton qty) =
     [(''versionType'', JNum (int tt)), (''transactionType'', JStr ''MINT''), (''tokenIdHex'', JStr (buf_to_hex tokenid)),
      (''batonVout'', JNum (int baton)), (''genesisOrMintQuantity'', JStr (nat_to_dec qty))]"
| "driver_fields (MsgSend tt tokenid amounts) =
     [(''versionType'', JNum (int tt)), (''transactionType'', JStr ''SEND''), (''tokenIdHex'', JStr (buf_to_hex tokenid)),
      (''sendOutputs'', JArr (map (JStr \<circ> nat_to_dec) amounts))]"

lemma js_map_toString_big:
  "(\<And>n. js_toString (big n) = Inr (nat_to_dec n)) \<Longrightarrow> js_map js_toString (map big ns) = Inr (map nat_to_dec ns)"
  by (induction ns) auto

lemma slpparser_rewrite_fields:
  assumes "\<And>n. js_toString (big n) = Inr (nat_to_dec n)"
  shows "\<exists>ps. slpparser_rewrite (slpparser_object big m) = Inr (JObj ps) \<and> (\<forall>(k, v) \<in> set (driver_fields m). map_of ps k = Some v)"
  by (cases m) (simp_all add: slpparser_rewrite_def slpparser_genesis_def data_get_def data_has_def
      js_simps hex_field_def upper_hex_def js_equals_str_def js_toString_hex_def map_toString_def
      js_map_toString_big assms)

lemma script_of_driver_url: "script_of_url (CHR ''/'' # js_toUpperCase (buf_to_hex script)) = script"
  by (simp add: script_of_url_def buf_from_upper_hex)

text \<open>For every message the slp-parser bridge answers success, and its object carries exactly
  the fields the driver compares: version, type, the four GENESIS byte fields as upper-case hex,
  the token id as hex, quantities and send amounts as decimal text. The driver's own URL, a slash
  and upper-case hex, reaches the parser as the script it encodes.\<close>

theorem slpparser_bridge:
  assumes "\<And>n. js_toString (big n) = Inr (nat_to_dec n)"
    and "parseSLP script = Inr (slpparser_object big m)"
  shows "\<exists>ps. slpparser_server parseSLP (CHR ''/'' # js_toUpperCase (buf_to_hex script))
       = turbo_reply (Inr (JObj ps)) \<and> (\<forall>(k, v) \<in> set (driver_fields m). map_of ps k = Some v)"
  using slpparser_rewrite_fields [OF assms(1), of m] assms(2) by (auto simp: slpparser_server_def script_of_driver_url)

definition example_big :: "nat \<Rightarrow> jsval" where
  "example_big n = JLib (nat_to_dec n) [] (nat_to_dec n)"

lemma slpparser_bridge_witness:
  "\<exists>ps. slpparser_server (\<lambda>bs. if bs = [106, 0] then Inr (slpparser_object example_big (MsgSend 1 [7] [5, 6])) else js_throw ''x'')
        (CHR ''/'' # js_toUpperCase (buf_to_hex [106, 0]))
      = turbo_reply (Inr (JObj ps))
     \<and> (\<forall>(k, v) \<in> set (driver_fields (MsgSend 1 [7] [5, 6])). map_of ps k = Some v)"
  by (rule slpparser_bridge [where big = example_big]) (simp_all add: example_big_def)

text \<open>A null document hash. The slp-validate bridge replaces it by the empty text and answers
  with an empty \<open>documentSha256\<close>; the slp-parser bridge, whose replacement has no \<open>else\<close>, goes on
  to convert the null and answers failure for every GENESIS object with a null hash.\<close>

theorem null_document_hash:
  "slpparser_rewrite (JObj [(''tokenType'', t), (''transactionType'', JStr ''GENESIS''), (''data'', JObj
       ([(''ticker'', JBuf ticker), (''name'', JBuf name), (''documentUri'', JBuf uri), (''documentHash'', JNull)] @ rest))])
     = js_throw ''The first argument must be of type string or an instance of Buffer''
   \<and> slpvalidate_genesis (JObj [(''symbol'', JBuf ticker), (''name'', JBuf name), (''documentUri'', JBuf uri),
        (''documentSha256'', JNull)])
     = Inr (JObj [(''symbol'', upper_hex ticker), (''name'', upper_hex name), (''documentUri'', upper_hex uri),
        (''documentSha256'', JStr [])])"
  by (simp add: slpparser_rewrite_def slpparser_genesis_def slpvalidate_genesis_def data_get_def
      js_simps hex_field_def upper_hex_def js_equals_str_def buf_from_binary_def js_toUpperCase_def)

text \<open>The report and the server of slp-validate are the same conversion: on a readable file the
  report prints an object exactly when the server answers that object for the file's hex, and
  exits with the message the server would send exactly when the server answers failure.\<close>

theorem report_agrees_with_server:
  assumes "length argv \<ge> 3" and "readFile (argv ! 2) = Some bin"
  shows "(\<exists>y. report parse readFile argv = ReportPrint y
            \<and> slpvalidate_server parse (buf_to_hex bin) = turbo_reply (Inr y))
       \<or> (\<exists>e. report parse readFile argv = ReportExit 1 (message e)
            \<and> slpvalidate_server parse (buf_to_hex bin) = turbo_reply (Inl e))"
proof -
  have "script_of_url (buf_to_hex bin) = bin"
    by (cases bin) (simp_all add: script_of_url_def hex_pair_def hexdigit_neq hexval_hexdigit buf_from_to_hex)
  then show ?thesis
    using assms by (auto simp: report_def slpvalidate_server_def split: sum.splits)
qed

lemma report_agrees_with_server_witness:
  "\<exists>y. report (\<lambda>bs. Inr (JObj [(''transactionType'', JStr ''MINT'')])) (\<lambda>_. Some [1]) [''node'', ''report.js'', ''f''] = ReportPrint y
      \<and> slpvalidate_server (\<lambda>bs. Inr (JObj [(''transactionType'', JStr ''MINT'')])) (buf_to_hex [1]) = turbo_reply (Inr y)"
  using report_agrees_with_server [of "[''node'', ''report.js'', ''f'']" "\<lambda>_. Some [1]" "[1]"
      "\<lambda>bs. Inr (JObj [(''transactionType'', JStr ''MINT'')])"]
  by (auto simp: report_def slpvalidate_rewrite_def js_equals_str_def js_simps)

end
