(* ===== verification/GraphSearch.thy ===== *)
theory GraphSearch
  imports Prelude
begin

text \<open>
  Depth-first search with an explicit stack, the loop that \<open>build_exclusion_set\<close> and
  \<open>graph_search__ptr\<close> of \<open>src/txgraph.cpp\<close> share: pop a node, and push, mark and emit each of
  its successors that was not seen. The loop is a partial function, so that finishing is a
  theorem; the locale \<open>search_space\<close> is what it needs of a graph, and proves that it returns
  exactly the nodes that can be reached without entering a node seen before.
\<close>

section \<open>The loop\<close>

text \<open>The inner \<open>for\<close> over the successors of one node.\<close>

fun visit_inputs :: "'a list \<Rightarrow> 'a list \<Rightarrow> 'a set \<Rightarrow> 'a list \<Rightarrow> 'a list \<times> 'a set \<times> 'a list" where
  "visit_inputs [] stack seen ret = (stack, seen, ret)"
| "visit_inputs (n # ns) stack seen ret =
     (if n \<notin> seen then visit_inputs ns (n # stack) (insert n seen) (ret @ [n])
      else visit_inputs ns stack seen ret)"

partial_function (option) search_loop ::
  "('a \<Rightarrow> 'a list) \<Rightarrow> 'a list \<Rightarrow> 'a set \<Rightarrow> 'a list \<Rightarrow> ('a set \<times> 'a list) option" where
  "search_loop succs stack seen ret = (case stack of
       [] \<Rightarrow> Some (seen, ret)
     | node # stack \<Rightarrow> (case visit_inputs (succs node) stack seen ret of
           (stack, seen, ret) \<Rightarrow> search_loop succs stack seen ret))"

text \<open>The whole search from one node, which is seen and emitted first.\<close>

definition search_from :: "('a \<Rightarrow> 'a list) \<Rightarrow> 'a \<Rightarrow> 'a set \<Rightarrow> ('a set \<times> 'a list) option" where
  "search_from succs root seen = search_loop succs [root] (insert root seen) [root]"

lemma search_loop_simps [simp]:
  "search_loop succs [] seen ret = Some (seen, ret)"
  "search_loop succs (node # stack) seen ret = (case visit_inputs (succs node) stack seen ret of
     (stack, seen, ret) \<Rightarrow> search_loop succs stack seen ret)"
  by (subst search_loop.simps, simp)+

section \<open>The inner loop\<close>

fun fresh :: "'a list \<Rightarrow> 'a set \<Rightarrow> 'a list" where
  "fresh [] seen = []"
| "fresh (n # ns) seen = (if n \<notin> seen then n # fresh ns (insert n seen) else fresh ns seen)"

lemma visit_inputs_eq:
  "visit_inputs ns stack seen ret = (rev (fresh ns seen) @ stack, seen \<union> set (fresh ns seen), ret @ fresh ns seen)"
  by (induction ns stack seen ret rule: visit_inputs.induct) auto

lemma set_fresh [simp]: "set (fresh ns seen) = set ns - seen"
  by (induction ns seen rule: fresh.induct) auto

lemma distinct_fresh [simp]: "distinct (fresh ns seen)"
  by (induction ns seen rule: fresh.induct) auto

section \<open>What the search needs of a graph\<close>

text \<open>Nodes reached from a set by edges into nodes outside \<open>X\<close>.\<close>

inductive avoiding :: "('a \<Rightarrow> 'a list) \<Rightarrow> 'a set \<Rightarrow> 'a \<Rightarrow> 'a \<Rightarrow> bool" for succs X root where
  here: "avoiding succs X root root"
| edge: "avoiding succs X root p \<Longrightarrow> q \<in> set (succs p) \<Longrightarrow> q \<notin> X \<Longrightarrow> avoiding succs X root q"

lemma avoiding_trans: "avoiding succs X q r \<Longrightarrow> avoiding succs X p q \<Longrightarrow> avoiding succs X p r"
  by (induction rule: avoiding.induct) (auto intro: avoiding.intros)

locale search_space =
  fixes succs :: "'s \<Rightarrow> 'a \<Rightarrow> 'a list" and nodes :: "'s \<Rightarrow> 'a set" and ok :: "'s \<Rightarrow> bool"
  assumes finite_nodes: "ok g \<Longrightarrow> finite (nodes g)"
    and closed: "ok g \<Longrightarrow> p \<in> nodes g \<Longrightarrow> set (succs g p) \<subseteq> nodes g"
begin

text \<open>The nodes below the root are nodes.\<close>

lemma avoiding_nodes: "avoiding (succs g) X root p \<Longrightarrow> ok g \<Longrightarrow> root \<in> nodes g \<Longrightarrow> p \<in> nodes g"
  by (induction rule: avoiding.induct) (use closed in auto)

text \<open>Each turn pops one node, and pays for a push with a node that was not seen.\<close>

lemma unseen_card:
  assumes "ok g" and "node \<in> nodes g"
  shows "card (nodes g - (seen \<union> set (fresh (succs g node) seen))) + length (fresh (succs g node) seen)
    = card (nodes g - seen)"
proof -
  let ?F = "set (fresh (succs g node) seen)"
  have F: "?F \<subseteq> nodes g - seen" using closed [OF assms] by auto
  have fin: "finite (nodes g - seen)" using finite_nodes [OF assms(1)] by simp
  have "nodes g - (seen \<union> ?F) = (nodes g - seen) - ?F" by blast
  then have "card (nodes g - (seen \<union> ?F)) = card (nodes g - seen) - card ?F"
    using F by (simp only: card_Diff_subset [OF finite_set])
  moreover have "card ?F \<le> card (nodes g - seen)" using F fin by (rule card_mono [rotated])
  moreover have "card ?F = length (fresh (succs g node) seen)" by (rule distinct_card) simp
  ultimately show ?thesis by linarith
qed

definition loop_inv :: "'s \<Rightarrow> 'a set \<Rightarrow> 'a \<Rightarrow> 'a list \<Rightarrow> 'a set \<Rightarrow> 'a list \<Rightarrow> bool" where
  "loop_inv g X root stack seen ret \<longleftrightarrow> seen = X \<union> set ret \<and> distinct ret \<and> ret \<noteq> [] \<and> hd ret = root
     \<and> set stack \<subseteq> set ret \<and> (\<forall>p \<in> set ret. avoiding (succs g) X root p)
     \<and> (\<forall>p \<in> set ret - set stack. set (succs g p) \<subseteq> seen)"

lemma loop_inv_step:
  assumes "loop_inv g X root (node # stack) seen ret"
  shows "loop_inv g X root (rev (fresh (succs g node) seen) @ stack) (seen \<union> set (fresh (succs g node) seen))
    (ret @ fresh (succs g node) seen)"
  using assms by (auto simp: loop_inv_def intro: avoiding.edge simp del: set_fresh) (auto intro: avoiding.edge)

lemma loop_inv_end:
  assumes "loop_inv g X root [] seen ret"
  shows "seen = X \<union> set ret" "distinct ret" "hd ret = root" "ret \<noteq> []" "set ret = {p. avoiding (succs g) X root p}"
proof -
  have "p \<in> set ret" if "avoiding (succs g) X root p" for p
    using that
  proof induction
    case here
    then show ?case using assms by (auto simp: loop_inv_def)
  next
    case (edge p q)
    then show ?case using assms by (auto simp: loop_inv_def)
  qed
  with assms show "set ret = {p. avoiding (succs g) X root p}" by (auto simp: loop_inv_def)
qed (use assms in \<open>auto simp: loop_inv_def\<close>)

lemma search_loop_correct:
  assumes "ok g" and "root \<in> nodes g" and "loop_inv g X root stack seen ret"
  shows "\<exists>s r. search_loop (succs g) stack seen ret = Some (s, r) \<and> loop_inv g X root [] s r"
  using assms(3)
proof (induction "2 * card (nodes g - seen) + length stack" arbitrary: stack seen ret rule: less_induct)
  case less
  show ?case
  proof (cases stack)
    case Nil
    with less.prems show ?thesis by simp
  next
    case (Cons node st)
    let ?f = "fresh (succs g node) seen"
    have "node \<in> nodes g"
      using less.prems Cons avoiding_nodes [OF _ assms(1,2)] by (auto simp: loop_inv_def)
    then have "2 * card (nodes g - (seen \<union> set ?f)) + length (rev ?f @ st) < 2 * card (nodes g - seen) + length stack"
      using unseen_card [OF assms(1), of node seen] Cons by simp
    from less.hyps [OF this loop_inv_step [OF less.prems [unfolded Cons]]] show ?thesis
      by (simp add: Cons visit_inputs_eq)
  qed
qed

lemma search_from_correct:
  assumes "ok g" and "root \<in> nodes g"
  shows "\<exists>ns. search_from (succs g) root X = Some (X \<union> set ns, ns) \<and> distinct ns \<and> ns \<noteq> [] \<and> hd ns = root
    \<and> set ns = {p. avoiding (succs g) X root p}"
proof -
  have "loop_inv g X root [root] (insert root X) [root]"
    by (auto simp: loop_inv_def intro: avoiding.here)
  from search_loop_correct [OF assms this] obtain s r where
    "search_loop (succs g) [root] (insert root X) [root] = Some (s, r)" "loop_inv g X root [] s r" by blast
  with loop_inv_end [OF this(2)] show ?thesis by (auto simp: search_from_def)
qed

lemma search_from_nodes:
  assumes "ok g" and "root \<in> nodes g" and "search_from (succs g) root X = Some (s, ns)"
  shows "set ns \<subseteq> nodes g"
  using search_from_correct [OF assms(1,2), of X] assms avoiding_nodes by auto

text \<open>A set closed under successors, as a search from the empty set leaves it, is a set a path
  outside it never enters.\<close>

lemma avoiding_closed:
  assumes "\<forall>p \<in> X. set (succs g p) \<subseteq> X" and "p \<notin> X"
  shows "avoiding (succs g) X root p \<longleftrightarrow> avoiding (succs g) {} root p"
proof
  show "avoiding (succs g) X root p \<Longrightarrow> avoiding (succs g) {} root p"
    by (induction rule: avoiding.induct) (auto intro: avoiding.intros)
  have "avoiding (succs g) {} root q \<Longrightarrow> q \<notin> X \<Longrightarrow> avoiding (succs g) X root q" for q
  proof (induction rule: avoiding.induct)
    case (edge p q)
    then have "p \<notin> X" using assms(1) by auto
    with edge show ?case by (auto intro: avoiding.intros)
  qed (auto intro: avoiding.intros)
  then show "avoiding (succs g) {} root p \<Longrightarrow> avoiding (succs g) X root p"
    using assms(2) by blast
qed

lemma avoiding_closes:
  assumes "p \<in> X \<union> {p. avoiding (succs g) X root p}" and "\<forall>p \<in> X. set (succs g p) \<subseteq> X"
  shows "set (succs g p) \<subseteq> X \<union> {p. avoiding (succs g) X root p}"
  using assms by (auto intro: avoiding.edge)

end

end
