(* ===== verification/GsUtil.thy ===== *)
theory GsUtil
  imports Prelude
begin

text \<open>
  \<open>include/gs++/util.hpp\<close>, \<open>src/util.cpp\<close> (integers) and \<open>include/gs++/bhash.hpp\<close>: reading
  little-endian integers through an iterator, Bitcoin's variable-length integers, hex, and the
  fixed-size hashes. An iterator is the list of bytes from its position to the end of the
  buffer. A read past the end, which is undefined behaviour in the code, is the outcome
  \<open>Oob\<close>, so that memory safety is a statement about the model.
\<close>

section \<open>Outcomes\<close>

datatype ('e, 'a) res = Ok 'a | Fail 'e | Oob

fun res_bind :: "('e, 'a) res \<Rightarrow> ('a \<Rightarrow> ('e, 'b) res) \<Rightarrow> ('e, 'b) res" where
  "res_bind (Ok x) f = f x"
| "res_bind (Fail e) f = Fail e"
| "res_bind Oob f = Oob"

lemma res_bind_Ok: "res_bind m f = Ok y \<longleftrightarrow> (\<exists>x. m = Ok x \<and> f x = Ok y)"
  by (cases m) auto

lemma res_bind_Oob: "res_bind m f = Oob \<longleftrightarrow> m = Oob \<or> (\<exists>x. m = Ok x \<and> f x = Oob)"
  by (cases m) auto

lemma res_bind_cong [fundef_cong]:
  "m = m' \<Longrightarrow> (\<And>x. m' = Ok x \<Longrightarrow> f x = g x) \<Longrightarrow> res_bind m f = res_bind m' g"
  by (cases m') auto

text \<open>The code reports its failures as a message.\<close>

type_synonym 'a parse = "(string, 'a) res"

section \<open>Little-endian integers\<close>

text \<open>The value \<open>std::copy\<close> leaves in an integer on a little-endian machine.\<close>

fun le_nat :: "bytes \<Rightarrow> nat" where
  "le_nat [] = 0"
| "le_nat (b # bs) = unat b + 256 * le_nat bs"

definition copy_int :: "nat \<Rightarrow> bytes \<Rightarrow> (nat \<times> bytes) parse" where
  "copy_int k it = (if length it < k then Oob else Ok (le_nat (take k it), drop k it))"

definition extract_u8 :: "bytes \<Rightarrow> (byte \<times> bytes) parse" where
  "extract_u8 it = (case it of [] \<Rightarrow> Oob | b # r \<Rightarrow> Ok (b, r))"

definition extract_u16 :: "bytes \<Rightarrow> (u16 \<times> bytes) parse" where
  "extract_u16 it = res_bind (copy_int 2 it) (\<lambda>(n, r). Ok (of_nat n, r))"

definition extract_u32 :: "bytes \<Rightarrow> (u32 \<times> bytes) parse" where
  "extract_u32 it = res_bind (copy_int 4 it) (\<lambda>(n, r). Ok (of_nat n, r))"

definition extract_u64 :: "bytes \<Rightarrow> (u64 \<times> bytes) parse" where
  "extract_u64 it = res_bind (copy_int 8 it) (\<lambda>(n, r). Ok (of_nat n, r))"

text \<open>Signed reads: the same bytes in a signed type, here the word that holds them.\<close>

definition extract_i32 :: "bytes \<Rightarrow> (u32 \<times> bytes) parse" where
  "extract_i32 it = res_bind (copy_int 4 it) (\<lambda>(n, r). Ok (of_nat n, r))"

section \<open>Variable-length integers\<close>

definition var_int_additional_size :: "bytes \<Rightarrow> nat parse" where
  "var_int_additional_size it = (case it of [] \<Rightarrow> Oob | v # _ \<Rightarrow> Ok
     (if v < 0xFD then 0 else if v = 0xFD then 2 else if v = 0xFE then 4 else 8))"

definition extract_var_int :: "bytes \<Rightarrow> (u64 \<times> bytes) parse" where
  "extract_var_int it = res_bind (extract_u8 it) (\<lambda>(ret, it).
     if ret < 0xFD then Ok (ucast ret, it)
     else if ret = 0xFD then res_bind (extract_u16 it) (\<lambda>(n, it). Ok (ucast n, it))
     else if ret = 0xFE then res_bind (extract_u32 it) (\<lambda>(n, it). Ok (ucast n, it))
     else extract_u64 it)"

definition var_int_byte :: "u64 \<Rightarrow> nat \<Rightarrow> byte" where
  "var_int_byte n m = ucast (drop_bit (8 * m) n AND 0xFF)"

definition num_to_var_int :: "u64 \<Rightarrow> bytes" where
  "num_to_var_int n =
     (if n \<le> 0xFC then [ucast n]
      else if n \<le> 0xFFFF then 0xFD # map (var_int_byte n) [0..<2]
      else if n \<le> 0xFFFFFFFF then 0xFE # map (var_int_byte n) [0..<4]
      else 0xFF # map (var_int_byte n) [0..<8])"

section \<open>Hex\<close>

definition hex_char :: "nat \<Rightarrow> byte" where
  "hex_char n = (if n < 10 then of_nat (48 + n) else of_nat (87 + n))"

definition hex_of :: "byte \<Rightarrow> bytes" where
  "hex_of b = [hex_char (unat (drop_bit 4 b)), hex_char (unat (b AND 0x0F))]"

definition gs_hex :: "bytes \<Rightarrow> bytes" where
  "gs_hex v = concat (map hex_of v)"

text \<open>
  The digit arithmetic is on \<open>char\<close> promoted to \<open>int\<close> and truncated to a byte, as it is for any
  input in a release build, where the debug messages are compiled out.
\<close>

definition unhex_digit :: "byte \<Rightarrow> int" where
  "unhex_digit p = (let c = sint p in if c \<le> 57 then c - 48 else c - 97 + 10)"

fun unhex :: "bytes \<Rightarrow> bytes" where
  "unhex (p1 # p2 # v) = word_of_int (unhex_digit p1 * 16 + unhex_digit p2) # unhex v"
| "unhex _ = []"

section \<open>Hashes\<close>

text \<open>
  \<open>bhash(v_)\<close>: 32 bytes are copied; any other container is read as 64 hex characters, past its
  end when it is shorter. The assertion before it tests the member's own size, so it never
  fails; the assertions on the digits are compiled out of a release build.
\<close>

definition bhash_digit :: "byte \<Rightarrow> int" where
  "bhash_digit p = (let c = sint p in if 48 \<le> c \<and> c \<le> 57 then c - 48 else c - 97 + 10)"

fun bhash_hex :: "nat \<Rightarrow> bytes \<Rightarrow> bytes parse" where
  "bhash_hex 0 v = Ok []"
| "bhash_hex (Suc n) (p1 # p2 # v) = res_bind (bhash_hex n v)
     (\<lambda>r. Ok (word_of_int (bhash_digit p1 * 16 + bhash_digit p2) # r))"
| "bhash_hex (Suc n) _ = Oob"

definition bhash :: "bytes \<Rightarrow> bytes parse" where
  "bhash v = (if length v = 32 then Ok v else bhash_hex 32 v)"

definition bhash_decompress :: "bool \<Rightarrow> bytes \<Rightarrow> bytes" where
  "bhash_decompress reverse v = gs_hex (if reverse then rev v else v)"


section \<open>Facts about integers\<close>

fun le_bytes :: "nat \<Rightarrow> nat \<Rightarrow> bytes" where
  "le_bytes 0 n = []"
| "le_bytes (Suc k) n = of_nat (n mod 256) # le_bytes k (n div 256)"

lemma length_le_bytes [simp]: "length (le_bytes k n) = k"
  by (induction k arbitrary: n) auto

lemma le_bytes_numeral [codec_simps]:
  "le_bytes (numeral k) n = of_nat (n mod 256) # le_bytes (pred_numeral k) (n div 256)"
  by (subst numeral_eq_Suc) (rule le_bytes.simps(2))

lemma unat_of_nat_byte [simp]: "unat (of_nat n :: byte) = n mod 256"
  by (simp add: unat_of_nat)

lemma le_nat_le_bytes [codec_simps]: "le_nat (le_bytes k n) = n mod 256 ^ k"
proof (induction k arbitrary: n)
  case (Suc k)
  then show ?case
    using mod_mult2_eq [of n 256 "256 ^ k"] by (simp add: ac_simps)
qed simp

lemma le_nat_lt: "le_nat bs < 256 ^ length bs"
proof (induction bs)
  case (Cons b bs)
  have "unat b + 256 * le_nat bs < 256 * (le_nat bs + 1)"
    using unat_byte_lt [of b] by simp
  also have "\<dots> \<le> 256 * 256 ^ length bs"
    using Cons.IH by (intro mult_le_mono2) simp
  finally show ?case by simp
qed simp

lemma le_bytes_le_nat [codec_simps]: "le_bytes (length bs) (le_nat bs) = bs"
  using unat_byte_lt by (induction bs) (simp_all add: of_nat_mod)

lemma le_bytes_le_nat_n: "length bs = k \<Longrightarrow> le_bytes k (le_nat bs) = bs"
  using le_bytes_le_nat [of bs] by simp

lemma le_nat_inj: "length as = length bs \<Longrightarrow> le_nat as = le_nat bs \<longleftrightarrow> as = bs"
  by (metis le_bytes_le_nat)

lemma drop_bit_byte: "ucast (drop_bit (8 * m) n AND 0xFF) = (of_nat (unat n div 256 ^ m mod 256) :: byte)"
  for n :: u64
proof -
  have "drop_bit (8 * m) n AND 0xFF = take_bit 8 (drop_bit (8 * m) n)"
    by (simp add: take_bit_eq_mask mask_eq_exp_minus_1)
  moreover have "unat (take_bit 8 (drop_bit (8 * m) n)) = unat n div 256 ^ m mod 256"
    using unsigned_less [of n, where ?'a = nat]
    by (simp only: unsigned_take_bit_eq unsigned_drop_bit_eq) (simp add: take_bit_eq_mod drop_bit_eq_div power_mult)
  ultimately show ?thesis by (metis of_nat_unat)
qed

lemma map_byte_le_bytes: "map (\<lambda>m. of_nat (n div 256 ^ m mod 256)) [0..<k] = le_bytes k n"
proof (induction k arbitrary: n)
  case (Suc k)
  have "map (\<lambda>m. of_nat (n div 256 ^ m mod 256)) [0..<Suc k]
      = of_nat (n mod 256) # map (\<lambda>m. of_nat (n div 256 div 256 ^ m mod 256) :: byte) [0..<k]"
    by (simp only: map_upt_Suc) (simp add: div_mult2_eq)
  then show ?case using Suc [of "n div 256"] by simp
qed simp

lemma var_int_bytes: "map (var_int_byte n) [0..<k] = le_bytes k (unat n)"
  by (simp only: map_byte_le_bytes [symmetric]) (simp add: var_int_byte_def drop_bit_byte)

lemma copy_int_le_bytes: "copy_int k (le_bytes k n @ it) = Ok (n mod 256 ^ k, it)"
  by (simp add: copy_int_def le_nat_le_bytes)

lemma copy_int_Ok: "copy_int k it = Ok (n, r) \<longleftrightarrow> k \<le> length it \<and> it = le_bytes k n @ r \<and> n < 256 ^ k"
proof
  assume "copy_int k it = Ok (n, r)"
  then have k: "k \<le> length it" and n: "n = le_nat (take k it)" and r: "r = drop k it"
    by (auto simp: copy_int_def split: if_splits)
  then show "k \<le> length it \<and> it = le_bytes k n @ r \<and> n < 256 ^ k"
    using le_bytes_le_nat_n [of "take k it" k] le_nat_lt [of "take k it"] by simp
next
  assume "k \<le> length it \<and> it = le_bytes k n @ r \<and> n < 256 ^ k"
  then show "copy_int k it = Ok (n, r)" using copy_int_le_bytes [of k n r] by simp
qed

lemma copy_int_Oob: "copy_int k it = Oob \<longleftrightarrow> length it < k"
  by (simp add: copy_int_def)

lemma extract_u16_le_bytes: "extract_u16 (le_bytes 2 n @ it) = Ok (of_nat n, it)"
proof -
  have "(of_nat (n mod 256 ^ 2) :: u16) = of_nat n"
    by (rule word_unat_eq_iff [THEN iffD2]) (simp add: unat_of_nat)
  then show ?thesis by (simp add: extract_u16_def copy_int_le_bytes)
qed

lemma extract_u32_le_bytes: "extract_u32 (le_bytes 4 n @ it) = Ok (of_nat n, it)"
proof -
  have "(of_nat (n mod 256 ^ 4) :: u32) = of_nat n"
    by (rule word_unat_eq_iff [THEN iffD2]) (simp add: unat_of_nat)
  then show ?thesis by (simp add: extract_u32_def copy_int_le_bytes)
qed

lemma extract_u64_le_bytes: "extract_u64 (le_bytes 8 n @ it) = Ok (of_nat n, it)"
proof -
  have "(of_nat (n mod 256 ^ 8) :: u64) = of_nat n"
    by (rule word_unat_eq_iff [THEN iffD2]) (simp add: unat_of_nat)
  then show ?thesis by (simp add: extract_u64_def copy_int_le_bytes)
qed

lemma extract_u8_Cons [simp]: "extract_u8 (b # it) = Ok (b, it)"
  by (simp add: extract_u8_def)

lemma extract_u8_Ok: "extract_u8 it = Ok (b, r) \<longleftrightarrow> it = b # r"
  by (auto simp: extract_u8_def split: list.splits)

lemma u64_le_cases: "n \<le> 0xFFFF \<longleftrightarrow> unat n < 256 ^ 2" "n \<le> 0xFFFFFFFF \<longleftrightarrow> unat n < 256 ^ 4" "n \<le> 0xFC \<longleftrightarrow> unat n < 0xFD"
  for n :: u64
  by (auto simp: word_le_nat_alt)

lemma num_to_var_int_eq:
  "num_to_var_int n = (if unat n < 0xFD then [of_nat (unat n)]
     else if unat n < 256 ^ 2 then 0xFD # le_bytes 2 (unat n)
     else if unat n < 256 ^ 4 then 0xFE # le_bytes 4 (unat n)
     else 0xFF # le_bytes 8 (unat n))"
  unfolding num_to_var_int_def var_int_bytes u64_le_cases by simp


section \<open>Facts about variable-length integers, hex and hashes\<close>

lemma u8_of_nat_ucast: "(ucast (of_nat n :: u64) :: byte) = of_nat n" "(ucast (of_nat n :: u32) :: byte) = of_nat n"
  by (simp_all add: word_unat_eq_iff unat_of_nat unsigned_ucast_eq take_bit_eq_mod mod_mod_cancel)

lemma ucast_of_nat_u64:
  "n < 256 \<Longrightarrow> (ucast (of_nat n :: byte) :: u64) = of_nat n"
  "n < 256 ^ 2 \<Longrightarrow> (ucast (of_nat n :: u16) :: u64) = of_nat n"
  "n < 256 ^ 4 \<Longrightarrow> (ucast (of_nat n :: u32) :: u64) = of_nat n"
  by (simp_all add: word_unat_eq_iff unat_of_nat unsigned_ucast_eq take_bit_eq_mod)

lemma extract_num_to_var_int [codec_simps]: "extract_var_int (num_to_var_int n @ rest) = Ok (n, rest)"
proof -
  have "of_nat (unat n) < (0xFD :: byte)" if "unat n < 0xFD"
    using that by (simp add: word_less_nat_alt del: of_nat_unat)
  moreover have "(of_nat (unat n) :: u64) = n" by simp
  ultimately show ?thesis
    by (auto simp: num_to_var_int_eq extract_var_int_def
        extract_u16_le_bytes extract_u32_le_bytes extract_u64_le_bytes ucast_of_nat_u64
        simp del: of_nat_unat)
qed

text \<open>Every 64-bit number survives its variable-length encoding: reading it back from the front
  of a buffer gives the number and leaves exactly what followed, and the length the first byte
  announces is the length written.\<close>

theorem var_int_roundtrip:
  "extract_var_int (num_to_var_int n @ rest) = Ok (n, rest)
   \<and> var_int_additional_size (num_to_var_int n @ rest) = Ok (length (num_to_var_int n) - 1)"
proof
  have "of_nat (unat n) < (0xFD :: byte)" if "unat n < 0xFD"
    using that by (simp add: word_less_nat_alt del: of_nat_unat)
  then show "var_int_additional_size (num_to_var_int n @ rest) = Ok (length (num_to_var_int n) - 1)"
    by (auto simp: num_to_var_int_eq var_int_additional_size_def simp del: of_nat_unat)
qed (rule extract_num_to_var_int)

lemma num_to_var_int_length:
  "length (num_to_var_int n) = (if unat n < 0xFD then 1 else if unat n < 256 ^ 2 then 3 else if unat n < 256 ^ 4 then 5 else 9)"
  by (simp add: num_to_var_int_eq)

lemma copy_int_used: "copy_int k it = Ok (n, r) \<Longrightarrow> \<exists>used. length used = k \<and> it = used @ r"
  by (auto simp: copy_int_Ok intro: exI [of _ "le_bytes k n"])

lemma extract_used:
  "extract_u16 it = Ok (a, r) \<Longrightarrow> \<exists>used. length used = 2 \<and> it = used @ r"
  "extract_u32 it = Ok (b, r) \<Longrightarrow> \<exists>used. length used = 4 \<and> it = used @ r"
  "extract_u64 it = Ok (c, r) \<Longrightarrow> \<exists>used. length used = 8 \<and> it = used @ r"
  by (auto simp: extract_u16_def extract_u32_def extract_u64_def res_bind_Ok dest!: copy_int_used)

lemma unat_ucast_u64 [simp]:
  "unat (ucast (b :: byte) :: u64) = unat b"
  "unat (ucast (h :: u16) :: u64) = unat h"
  "unat (ucast (w :: u32) :: u64) = unat w"
  using unsigned_less [of b, where ?'a = nat] unsigned_less [of h, where ?'a = nat] unsigned_less [of w, where ?'a = nat]
  by (simp_all add: unsigned_ucast_eq take_bit_eq_mod)

lemma extract_var_int_cases:
  assumes "extract_var_int it = (Ok (n, rest) :: (u64 \<times> bytes) parse)"
  obtains (one) b where "it = b # rest" "unat n < 0xFD"
  | (two) used where "it = used @ rest" "length used = 3" "unat n < 256 ^ 2"
  | (four) used where "it = used @ rest" "length used = 5" "unat n < 256 ^ 4"
  | (eight) used where "it = used @ rest" "length used = 9"
proof -
  obtain b r where it: "it = b # r" using assms by (auto simp: extract_var_int_def res_bind_Ok extract_u8_Ok)
  consider "b < 0xFD" | "b = 0xFD" | "b = 0xFE" | "b = 0xFF"
    using word_unat_eq_iff [of b] unat_byte_lt [of b] by (fastforce simp: word_less_nat_alt)
  then show thesis
  proof cases
    case 1
    with assms it show thesis by (intro one [of b]) (auto simp: extract_var_int_def word_less_nat_alt)
  next
    case 2
    with assms it obtain v where v: "extract_u16 r = (Ok (v, rest) :: _ parse)" "n = ucast v"
      by (force simp: extract_var_int_def res_bind_Ok)
    with extract_used(1) obtain u where "length u = 2" "r = u @ rest" by blast
    with it v show thesis by (intro two [of "b # u"]) (use unsigned_less [of v, where ?'a = nat] in auto)
  next
    case 3
    with assms it obtain v where v: "extract_u32 r = (Ok (v, rest) :: _ parse)" "n = ucast v"
      by (force simp: extract_var_int_def res_bind_Ok)
    with extract_used(2) obtain u where "length u = 4" "r = u @ rest" by blast
    with it v show thesis by (intro four [of "b # u"]) (use unsigned_less [of v, where ?'a = nat] in auto)
  next
    case 4
    with assms it have "extract_u64 r = (Ok (n, rest) :: _ parse)" by (simp add: extract_var_int_def)
    with extract_used(3) obtain u where "length u = 8" "r = u @ rest" by blast
    with it show thesis by (intro eight [of "b # u"]) auto
  qed
qed

text \<open>The encoding is the shortest: whatever bytes \<open>extract_var_int\<close> reads a number from, it
  consumes at least as many as \<open>num_to_var_int\<close> writes for that number.\<close>

theorem var_int_minimal:
  assumes "extract_var_int it = Ok (n, rest)"
  shows "\<exists>used. it = used @ rest \<and> length (num_to_var_int n) \<le> length used"
  using assms
proof (cases rule: extract_var_int_cases)
  case (one b)
  then show ?thesis by (intro exI [of _ "[b]"]) (simp add: num_to_var_int_length)
qed (auto simp: num_to_var_int_length)

theorem var_int_minimal_witness:
  "length (num_to_var_int 7) \<le> 3"
  using var_int_minimal [of "[0xFD, 7, 0]" 7 "[]"]
  by (simp add: extract_var_int_def extract_u16_def copy_int_def)


lemma sint_byte: "sint (b :: byte) = (if unat b < 128 then int (unat b) else int (unat b) - 256)"
proof -
  define n where "n = unat b"
  have n: "n < 256" unfolding n_def by (rule unat_byte_lt)
  have u: "uint b = int n" by (simp add: n_def)
  have "n div 128 = (if n < 128 then 0 else 1)" using n by auto
  then have "odd (n div 128) \<longleftrightarrow> \<not> n < 128" by simp
  then have "bit (int n) 7 \<longleftrightarrow> \<not> n < 128"
    by (simp add: bit_iff_odd zdiv_int [symmetric, of _ 128, simplified])
  with n have "signed_take_bit 7 (int n) = (if n < 128 then int n else int n - 256)"
    by (simp add: signed_take_bit_eq_take_bit_minus take_bit_eq_mod)
  then show ?thesis unfolding sint_uint u n_def [symmetric] by simp
qed

lemma unat_hex_char: "n < 16 \<Longrightarrow> unat (hex_char n) = (if n < 10 then 48 + n else 87 + n)"
  by (simp add: hex_char_def del: of_nat_add)

lemma hex_digit_back [codec_simps]:
  "n < 16 \<Longrightarrow> unhex_digit (hex_char n) = int n"
  "n < 16 \<Longrightarrow> bhash_digit (hex_char n) = int n"
  by (simp_all add: unhex_digit_def bhash_digit_def sint_byte unat_hex_char)

lemma low_nibble: "unat ((b :: byte) AND 0x0F) = unat b mod 16"
proof -
  have "b AND 0x0F = take_bit 4 b" by (simp add: take_bit_eq_mask mask_eq_exp_minus_1)
  then show ?thesis by (simp only: unsigned_take_bit_eq) (simp add: take_bit_eq_mod)
qed

lemma high_nibble: "unat (drop_bit 4 (b :: byte)) = unat b div 16"
  using unsigned_less [of b, where ?'a = nat]
  by (simp only: unsigned_drop_bit_eq) (simp add: drop_bit_eq_div take_bit_eq_mod)

lemma nibbles_value [simp]: "of_nat (unat b div 16) * 16 + of_nat (unat b mod 16) = (b :: byte)"
proof -
  have "(of_nat (unat b div 16 * 16 + unat b mod 16) :: byte) = b"
    by (simp only: div_mult_mod_eq of_nat_unat ucast_id)
  then show ?thesis by (simp only: of_nat_add of_nat_mult of_nat_numeral)
qed

lemma hex_of_eq: "hex_of b = [hex_char (unat b div 16), hex_char (unat b mod 16)]"
  by (simp add: hex_of_def low_nibble high_nibble)

lemma gs_hex_simps [simp]: "gs_hex [] = []" "gs_hex (b # bs) = hex_of b @ gs_hex bs"
  by (simp_all add: gs_hex_def)

lemma length_gs_hex [simp]: "length (gs_hex bs) = 2 * length bs"
  by (induction bs) (simp_all add: hex_of_eq)

lemma digits_lt: "unat (b :: byte) div 16 < 16" "unat (b :: byte) mod 16 < 16"
  using unat_byte_lt [of b] by auto

lemma unhex_gs_hex [codec_simps]: "unhex (gs_hex bs) = bs"
  by (induction bs) (simp_all add: hex_of_eq hex_digit_back digits_lt)

lemma bhash_hex_gs_hex [codec_simps]: "length bs = n \<Longrightarrow> bhash_hex n (gs_hex bs) = Ok bs"
  by (induction bs arbitrary: n) (auto simp: hex_of_eq hex_digit_back digits_lt)

interpretation gs_hex_codec: codec gs_hex "\<lambda>v. Some (unhex v)" "\<lambda>_. True"
  by unfold_locales (simp add: unhex_gs_hex)

lemma bhash_hex_Oob: "bhash_hex n v = Oob \<longleftrightarrow> length v < 2 * n"
proof (induction n v rule: bhash_hex.induct)
  case (2 n p1 p2 v)
  then show ?case by (cases "bhash_hex n v") auto
qed auto

lemma bhash_hex_not_Fail: "bhash_hex n v \<noteq> Fail e"
proof (induction n v rule: bhash_hex.induct)
  case (2 n p1 p2 v)
  then show ?case by (cases "bhash_hex n v") auto
qed auto

lemma bhash_hex_length: "bhash_hex n v = Ok h \<Longrightarrow> length h = n"
  by (induction n v arbitrary: h rule: bhash_hex.induct) (auto simp: res_bind_Ok)

lemma bhash_length: "bhash v = Ok h \<Longrightarrow> length h = 32"
  by (auto simp: bhash_def bhash_hex_length split: if_splits)

text \<open>A hash survives its hex text: the constructor reads the text \<open>decompress\<close> prints back
  into the same 32 bytes, and in display order into the reversed bytes. Constructing a hash reads
  past the end of its argument exactly when the argument has neither 32 bytes nor at least 64.\<close>

theorem bhash_text:
  assumes "length h = 32"
  shows "bhash (bhash_decompress rv h) = Ok (if rv then rev h else h)
    \<and> (bhash v = Oob \<longleftrightarrow> length v \<noteq> 32 \<and> length v < 64)"
  using assms by (simp add: bhash_def bhash_decompress_def bhash_hex_gs_hex bhash_hex_Oob)

theorem bhash_text_witness:
  "bhash (bhash_decompress True (replicate 31 0 @ [7])) = Ok (7 # replicate 31 0) \<and> bhash [] = Oob"
  using bhash_text [of "replicate 31 0 @ [7]" True "[]"] by simp


interpretation var_int_codec: codec num_to_var_int
  "\<lambda>it. case extract_var_int it of Ok (n, []) \<Rightarrow> Some n | _ \<Rightarrow> None" "\<lambda>_. True"
proof
  fix n :: u64
  show "(case extract_var_int (num_to_var_int n) of Ok (n, []) \<Rightarrow> Some n | _ \<Rightarrow> None) = Some n"
    using extract_num_to_var_int [of n "[]"] by simp
qed

end
