(* ===== verification/SlpTransaction.thy ===== *)
theory SlpTransaction
  imports GsUtil
begin

text \<open>
  The SLP parser \<open>slp_transaction::hydrate\<close> of \<open>include/gs++/slp_transaction.hpp\<close>: the push
  opcodes, the loop over chunks, and the GENESIS, MINT and SEND branches, each check with the
  message the code prints. The grammar at the end of the theory is the reference the parser is
  compared with: an operation code, then any sequence of pushes of the chunks of a valid message.
\<close>

section \<open>Messages\<close>

record slp_transaction_genesis =
  ticker :: bytes
  name :: bytes
  document_uri :: bytes
  document_hash :: bytes
  decimals :: u32
  genesis_has_mint_baton :: bool
  genesis_mint_baton_vout :: u32
  genesis_qty :: u64

record slp_transaction_mint =
  mint_has_mint_baton :: bool
  mint_mint_baton_vout :: u32
  mint_qty :: u64

record slp_transaction_send =
  amounts :: "u64 list"

datatype slp_transaction_type = TInvalid | TGenesis | TMint | TSend

datatype slp_tx_variant =
    SlpInvalid
  | SlpGenesis slp_transaction_genesis
  | SlpMint slp_transaction_mint
  | SlpSend slp_transaction_send

record slp_transaction =
  slp_tokenid :: bytes
  slp_token_type :: u16
  slp_type :: slp_transaction_type
  slp_tx :: slp_tx_variant

text \<open>The default constructor; the token type, which it leaves unset, is an argument here.\<close>

definition slp_transaction_new :: "u16 \<Rightarrow> slp_transaction" where
  "slp_transaction_new tt = \<lparr>slp_tokenid = replicate 32 0, slp_token_type = tt, slp_type = TInvalid, slp_tx = SlpInvalid\<rparr>"

section \<open>Chunks\<close>

definition parse_check :: "bool \<Rightarrow> string \<Rightarrow> 'a parse \<Rightarrow> 'a parse" where
  "parse_check c msg k = (if c then Fail msg else k)"

text \<open>Success and length, with the iterator afterwards; an opcode that fails is not consumed.\<close>

definition extract_pushdata :: "bytes \<Rightarrow> ((bool \<times> nat) \<times> bytes) parse" where
  "extract_pushdata it0 = (if it0 = [] then Ok ((False, 0), it0)
     else res_bind (extract_u8 it0) (\<lambda>(cnt, it).
       if 0 < cnt \<and> cnt < 0x4C then
         (if length it < unat cnt then Ok ((False, 0), it0) else Ok ((True, unat cnt), it))
       else if cnt = 0x4C then
         (if length it \<le> 1 then Ok ((False, 0), it0)
          else res_bind (extract_u8 it) (\<lambda>(n, it). Ok ((True, unat n), it)))
       else if cnt = 0x4D then
         (if length it \<le> 2 then Ok ((False, 0), it0)
          else res_bind (extract_u16 it) (\<lambda>(n, it). Ok ((True, unat n), it)))
       else if cnt = 0x4E then
         (if length it \<le> 4 then Ok ((False, 0), it0)
          else res_bind (extract_u32 it) (\<lambda>(n, it). Ok ((True, unat n), it)))
       else Ok ((False, 0), it0)))"

definition extract_string :: "nat \<Rightarrow> bytes \<Rightarrow> (bool \<times> bytes) \<times> bytes" where
  "extract_string len it = (if length it < len then ((False, []), it) else ((True, take len it), drop len it))"

definition string_to_number :: "bytes \<Rightarrow> (bool \<times> u64) parse" where
  "string_to_number s =
     (if length s = 1 then res_bind (extract_u8 s) (\<lambda>(n, _). Ok (True, ucast n))
      else if length s = 2 then res_bind (extract_u16 s) (\<lambda>(n, _). Ok (True, ucast n))
      else if length s = 4 then res_bind (extract_u32 s) (\<lambda>(n, _). Ok (True, ucast n))
      else if length s = 8 then res_bind (extract_u64 s) (\<lambda>(n, _). Ok (True, n))
      else Ok (False, 0))"

definition check_valid_token_id :: "bytes \<Rightarrow> bool" where
  "check_valid_token_id tokenid \<longleftrightarrow> length tokenid = 32"

abbreviation ascii :: "string \<Rightarrow> bytes" where
  "ascii s \<equiv> map byte_of_char s"

definition lokad_id :: bytes where
  "lokad_id = ascii ''SLP'' @ [0]"

definition quick_exit :: "bytes list \<Rightarrow> 'a parse \<Rightarrow> 'a parse" where
  "quick_exit chunks k = (if length chunks = 1
     then parse_check (length (chunks ! 0) \<noteq> 4) ''lokad id wrong size''
       (parse_check (chunks ! 0 ! 0 \<noteq> lokad_id ! 0 \<or> chunks ! 0 ! 1 \<noteq> lokad_id ! 1
           \<or> chunks ! 0 ! 2 \<noteq> lokad_id ! 2 \<or> chunks ! 0 ! 3 \<noteq> lokad_id ! 3) ''SLP not in first chunk'' k)
     else k)"

lemma extract_pushdata_shrinks:
  "extract_pushdata it = Ok ((True, n), it') \<Longrightarrow> length it' < length it"
  by (auto simp: extract_pushdata_def res_bind_Ok extract_u8_def extract_u16_def extract_u32_def copy_int_def
      split: if_splits list.splits)

function chunk_loop :: "bytes \<Rightarrow> bytes list \<Rightarrow> (bytes list \<times> bytes) parse" where
  "chunk_loop it chunks = (case extract_pushdata it of
       Fail e \<Rightarrow> Fail e
     | Oob \<Rightarrow> Oob
     | Ok ((False, _), it) \<Rightarrow> Ok (chunks, it)
     | Ok ((True, len), it') \<Rightarrow> (case extract_string len it' of
           ((False, _), _) \<Rightarrow> Fail ''pushdata data extraction failed''
         | ((True, data), it'') \<Rightarrow> quick_exit (chunks @ [data]) (chunk_loop it'' (chunks @ [data]))))"
  by pat_completeness auto
termination
  by (relation "measure (\<lambda>(it, _). length it)")
    (auto dest!: extract_pushdata_shrinks simp: extract_string_def split: if_splits)

declare chunk_loop.simps [simp del]

section \<open>The message\<close>

text \<open>A chunk iterator is the list of chunks from its position on.\<close>

definition check_next :: "bytes list \<Rightarrow> (bytes list \<Rightarrow> 'a parse) \<Rightarrow> 'a parse" where
  "check_next cit k = (let cit = tl cit in parse_check (cit = []) ''parsing ended early'' (k cit))"

definition parse_head :: "bytes \<Rightarrow> (bytes list \<times> bytes list \<times> u16) parse" where
  "parse_head spk =
     parse_check (spk = []) ''scriptpubkey cannot be empty'' (
     parse_check (spk ! 0 \<noteq> 0x6A) ''scriptpubkey not op_return'' (
     parse_check (length spk < 10) ''scriptpubkey too small'' (
     res_bind (chunk_loop (tl spk) []) (\<lambda>(chunks, it).
     parse_check (it \<noteq> []) ''trailing data'' (
     parse_check (chunks = []) ''chunks empty'' (
     check_next chunks (\<lambda>cit.
     let token_type_str = rev (hd cit) in
     parse_check (length token_type_str \<noteq> 1 \<and> length token_type_str \<noteq> 2) ''token_type string length must be 1 or 2'' (
     res_bind (string_to_number token_type_str) (\<lambda>(ok, n).
     parse_check (\<not> ok) ''token_type extraction failed'' (
     let token_type = ucast n in
     parse_check (\<not> (token_type = 1 \<or> token_type = 0x41 \<or> token_type = 0x81))       ''token_type not token-type1, nft1-group, or nft1-child'' (
     check_next cit (\<lambda>cit. Ok (chunks, cit, token_type)))))))))))))"

text \<open>
  The minting baton of GENESIS and MINT. MINT alone also rejects an output above 255, which a
  one-byte string cannot denote.
\<close>

definition parse_baton :: "bool \<Rightarrow> bytes \<Rightarrow> (bool \<times> u32 \<Rightarrow> 'a parse) \<Rightarrow> 'a parse" where
  "parse_baton mint s k =
     parse_check (length s \<ge> 2) ''mint_baton_vout string length must be 0 or 1'' (
     if s = [] then k (False, 0)
     else res_bind (string_to_number s) (\<lambda>(ok, n).
       parse_check (\<not> ok) ''mint_baton_vout parse failed'' (
       let vout = (ucast n :: u32) in
       parse_check (vout < 2) ''mint_baton_vout must be at least 2'' (
       parse_check (mint \<and> vout > 0xFF) ''mint_baton_vout must be below 0xFF'' (k (True, vout))))))"

definition parse_qty :: "string \<Rightarrow> string \<Rightarrow> bytes \<Rightarrow> (u64 \<Rightarrow> 'a parse) \<Rightarrow> 'a parse" where
  "parse_qty size_msg parse_msg s k =
     parse_check (length s \<noteq> 8) size_msg (
     res_bind (string_to_number (rev s)) (\<lambda>(ok, n). parse_check (\<not> ok) parse_msg (k n)))"

definition parse_decimals :: "bytes \<Rightarrow> (u32 \<Rightarrow> 'a parse) \<Rightarrow> 'a parse" where
  "parse_decimals s k =
     parse_check (length s \<noteq> 1) ''decimals string length must be 1'' (
     res_bind (string_to_number s) (\<lambda>(ok, n).
       parse_check (\<not> ok) ''decimals parse failed'' (
       parse_check (n > 9) ''decimals bigger than 9'' (k (ucast n)))))"

definition parse_tokenid :: "bytes \<Rightarrow> (bytes \<Rightarrow> 'a parse) \<Rightarrow> 'a parse" where
  "parse_tokenid s k =
     parse_check (\<not> check_valid_token_id (rev s)) ''tokenid invalid size'' (res_bind (bhash (rev s)) k)"

definition parse_genesis :: "u16 \<Rightarrow> bytes list \<Rightarrow> bytes list \<Rightarrow> (bytes option \<times> slp_tx_variant) parse" where
  "parse_genesis tt chunks cit =
     parse_check (length chunks \<noteq> 10) ''wrong number of chunks'' (
     check_next cit (\<lambda>cit. let ticker = hd cit in
     check_next cit (\<lambda>cit. let name = hd cit in
     check_next cit (\<lambda>cit. let document_uri = hd cit in
     check_next cit (\<lambda>cit. let document_hash = hd cit in
     parse_check (\<not> (length document_hash = 0 \<or> length document_hash = 32)) ''document_hash must be size 0 or 32'' (
     check_next cit (\<lambda>cit. parse_decimals (hd cit) (\<lambda>decimals.
     check_next cit (\<lambda>cit. parse_baton False (hd cit) (\<lambda>(has_mint_baton, mint_baton_vout).
     check_next cit (\<lambda>cit. parse_qty ''initial_qty must be provided as an 8-byte buffer'' ''initial_qty parse failed'' (hd cit) (\<lambda>qty.
     parse_check (tt = 0x41 \<and> decimals \<noteq> 0) ''NFT1 child token must have divisibility set to 0 decimal places'' (
     parse_check (tt = 0x41 \<and> mint_baton_vout \<noteq> 0) ''NFT1 child token must not have a minting baton'' (
     parse_check (tt = 0x41 \<and> qty \<noteq> 1) ''NFT1 child token must have quantity of 1'' (
     Ok (None, SlpGenesis \<lparr>ticker = ticker, name = name, document_uri = document_uri, document_hash = document_hash,
       decimals = decimals, genesis_has_mint_baton = has_mint_baton, genesis_mint_baton_vout = mint_baton_vout,
       genesis_qty = qty\<rparr>))))))))))))))))"

definition parse_mint :: "u16 \<Rightarrow> bytes list \<Rightarrow> bytes list \<Rightarrow> (bytes option \<times> slp_tx_variant) parse" where
  "parse_mint tt chunks cit =
     parse_check (tt = 0x41) ''NFT1 Child cannot have MINT transaction type.'' (
     parse_check (length chunks \<noteq> 6) ''wrong number of chunks'' (
     check_next cit (\<lambda>cit. parse_tokenid (hd cit) (\<lambda>tokenid.
     check_next cit (\<lambda>cit. parse_baton True (hd cit) (\<lambda>(has_mint_baton, mint_baton_vout).
     check_next cit (\<lambda>cit. parse_qty ''additional_qty_str must be provided as an 8-byte buffer''
         ''additional_token_quantity parse failed'' (hd cit) (\<lambda>qty.
     Ok (Some tokenid, SlpMint \<lparr>mint_has_mint_baton = has_mint_baton, mint_mint_baton_vout = mint_baton_vout,
       mint_qty = qty\<rparr>)))))))))"

fun amount_loop :: "bytes list \<Rightarrow> u64 list \<Rightarrow> u64 list parse" where
  "amount_loop [] token_amounts = Ok token_amounts"
| "amount_loop (c # cit) token_amounts = (let amount_str = rev c in
     parse_check (length amount_str \<noteq> 8) ''amount string size not 8 bytes'' (
     res_bind (string_to_number amount_str) (\<lambda>(ok, n).
       parse_check (\<not> ok) ''extraction of amount failed'' (amount_loop cit (token_amounts @ [n])))))"

definition parse_send :: "bytes list \<Rightarrow> bytes list \<Rightarrow> (bytes option \<times> slp_tx_variant) parse" where
  "parse_send chunks cit =
     parse_check (length chunks < 4) ''wrong number of chunks'' (
     check_next cit (\<lambda>cit. parse_tokenid (hd cit) (\<lambda>tokenid.
     check_next cit (\<lambda>cit. res_bind (amount_loop cit []) (\<lambda>token_amounts.
     parse_check (length token_amounts = 0) ''token_amounts size is 0'' (
     parse_check (length token_amounts > 19) ''token_amounts size is greater than 19'' (
     Ok (Some tokenid, SlpSend \<lparr>amounts = token_amounts\<rparr>))))))))"

definition parse_action :: "u16 \<Rightarrow> bytes list \<Rightarrow> bytes list \<Rightarrow> (bytes option \<times> slp_tx_variant) parse" where
  "parse_action tt chunks cit = (let action_type_str = hd cit in
     if action_type_str = ascii ''GENESIS'' then parse_genesis tt chunks cit
     else if action_type_str = ascii ''MINT'' then parse_mint tt chunks cit
     else if action_type_str = ascii ''SEND'' then parse_send chunks cit
     else Fail ''unknown action type'')"

fun variant_type :: "slp_tx_variant \<Rightarrow> slp_transaction_type" where
  "variant_type SlpInvalid = TInvalid"
| "variant_type (SlpGenesis g) = TGenesis"
| "variant_type (SlpMint m) = TMint"
| "variant_type (SlpSend s) = TSend"

text \<open>
  The method: its result and the object afterwards, \<open>None\<close> if it would read out of bounds.
  A failed check leaves the token type and the token id as they are at that point.
\<close>

definition slp_set_invalid :: "slp_transaction \<Rightarrow> slp_transaction" where
  "slp_set_invalid this = this\<lparr>slp_type := TInvalid, slp_tx := SlpInvalid\<rparr>"

definition slp_hydrate :: "slp_transaction \<Rightarrow> bytes \<Rightarrow> (bool \<times> slp_transaction) option" where
  "slp_hydrate this spk = (case parse_head spk of
       Oob \<Rightarrow> None
     | Fail e \<Rightarrow> Some (False, slp_set_invalid this)
     | Ok (chunks, cit, token_type) \<Rightarrow> (let this = this\<lparr>slp_token_type := token_type\<rparr> in
         case parse_action token_type chunks cit of
           Oob \<Rightarrow> None
         | Fail e \<Rightarrow> Some (False, slp_set_invalid this)
         | Ok (tokenid, v) \<Rightarrow> Some (True, this\<lparr>slp_tokenid := (case tokenid of None \<Rightarrow> slp_tokenid this | Some i \<Rightarrow> i),
               slp_type := variant_type v, slp_tx := v\<rparr>)))"

definition slp_transaction_of_script :: "u16 \<Rightarrow> bytes \<Rightarrow> slp_transaction option" where
  "slp_transaction_of_script tt spk = map_option snd (slp_hydrate (slp_transaction_new tt) spk)"


section \<open>The grammar of SLP scripts\<close>

datatype push_op = PushDirect | Push1 | Push2 | Push4

fun push_ok :: "push_op \<Rightarrow> nat \<Rightarrow> bool" where
  "push_ok PushDirect n \<longleftrightarrow> 1 \<le> n \<and> n \<le> 75"
| "push_ok Push1 n \<longleftrightarrow> n < 256"
| "push_ok Push2 n \<longleftrightarrow> n < 256 ^ 2"
| "push_ok Push4 n \<longleftrightarrow> n < 256 ^ 4"

fun push_head :: "push_op \<Rightarrow> nat \<Rightarrow> bytes" where
  "push_head PushDirect n = [of_nat n]"
| "push_head Push1 n = [0x4C, of_nat n]"
| "push_head Push2 n = 0x4D # le_bytes 2 n"
| "push_head Push4 n = 0x4E # le_bytes 4 n"

definition push_bytes :: "push_op \<times> bytes \<Rightarrow> bytes" where
  "push_bytes p = push_head (fst p) (length (snd p)) @ snd p"

definition pushes :: "(push_op \<times> bytes) list \<Rightarrow> bytes" where
  "pushes ps = concat (map push_bytes ps)"

definition pushes_ok :: "(push_op \<times> bytes) list \<Rightarrow> bool" where
  "pushes_ok ps \<longleftrightarrow> (\<forall>p \<in> set ps. push_ok (fst p) (length (snd p)))"

definition be_nat :: "bytes \<Rightarrow> nat" where
  "be_nat c = le_nat (rev c)"

definition token_type_chunk :: "bytes \<Rightarrow> u16 \<Rightarrow> bool" where
  "token_type_chunk c tt \<longleftrightarrow> (length c = 1 \<or> length c = 2) \<and> be_nat c = unat tt"

definition baton_chunk :: "bool \<Rightarrow> u32 \<Rightarrow> bytes" where
  "baton_chunk has vout = (if has then [ucast vout] else [])"

definition qty_chunk :: "u64 \<Rightarrow> bytes" where
  "qty_chunk n = rev (le_bytes 8 (unat n))"

fun msg_chunks :: "bytes \<Rightarrow> bytes \<Rightarrow> slp_tx_variant \<Rightarrow> bytes list" where
  "msg_chunks ttc tid SlpInvalid = []"
| "msg_chunks ttc tid (SlpGenesis g) = [lokad_id, ttc, ascii ''GENESIS'', ticker g, name g, document_uri g,
     document_hash g, [ucast (decimals g)], baton_chunk (genesis_has_mint_baton g) (genesis_mint_baton_vout g),
     qty_chunk (genesis_qty g)]"
| "msg_chunks ttc tid (SlpMint m) = [lokad_id, ttc, ascii ''MINT'', rev tid,
     baton_chunk (mint_has_mint_baton m) (mint_mint_baton_vout m), qty_chunk (mint_qty m)]"
| "msg_chunks ttc tid (SlpSend s) = lokad_id # ttc # ascii ''SEND'' # rev tid # map qty_chunk (amounts s)"

definition baton_ok :: "bool \<Rightarrow> u32 \<Rightarrow> bool" where
  "baton_ok has vout \<longleftrightarrow> (if has then 2 \<le> vout \<and> vout \<le> 255 else vout = 0)"

text \<open>What a valid message promises, whoever wrote it.\<close>

fun valid_msg :: "u16 \<Rightarrow> slp_tx_variant \<Rightarrow> bool" where
  "valid_msg tt SlpInvalid \<longleftrightarrow> False"
| "valid_msg tt (SlpGenesis g) \<longleftrightarrow> tt \<in> {1, 0x41, 0x81}
     \<and> (length (document_hash g) = 0 \<or> length (document_hash g) = 32) \<and> decimals g \<le> 9
     \<and> baton_ok (genesis_has_mint_baton g) (genesis_mint_baton_vout g)
     \<and> (tt = 0x41 \<longrightarrow> decimals g = 0 \<and> \<not> genesis_has_mint_baton g \<and> genesis_qty g = 1)"
| "valid_msg tt (SlpMint m) \<longleftrightarrow> tt \<in> {1, 0x81} \<and> baton_ok (mint_has_mint_baton m) (mint_mint_baton_vout m)"
| "valid_msg tt (SlpSend s) \<longleftrightarrow> tt \<in> {1, 0x41, 0x81} \<and> 1 \<le> length (amounts s) \<and> length (amounts s) \<le> 19"

fun is_genesis :: "slp_tx_variant \<Rightarrow> bool" where
  "is_genesis (SlpGenesis g) = True"
| "is_genesis _ = False"

definition slp_script :: "u16 \<Rightarrow> bytes \<Rightarrow> slp_tx_variant \<Rightarrow> bytes \<Rightarrow> bool" where
  "slp_script tt tid v spk \<longleftrightarrow> valid_msg tt v \<and> (is_genesis v \<or> length tid = 32) \<and>
     (\<exists>ps ttc. spk = 0x6A # pushes ps \<and> pushes_ok ps \<and> token_type_chunk ttc tt \<and> map snd ps = msg_chunks ttc tid v)"


section \<open>The numbers\<close>

lemma parse_check_Ok: "parse_check c msg k = Ok y \<longleftrightarrow> \<not> c \<and> k = Ok y"
  by (simp add: parse_check_def)

lemma parse_check_Oob: "parse_check c msg k = Oob \<longleftrightarrow> \<not> c \<and> k = Oob"
  by (simp add: parse_check_def)

lemma string_to_number_eq:
  "string_to_number s = (if length s \<in> {1, 2, 4, 8} then Ok (True, of_nat (le_nat s)) else Ok (False, 0))"
proof -
  have "string_to_number s = Ok (True, of_nat (le_nat s))" if len: "length s \<in> {1, 2, 4, 8}"
  proof -
    consider "length s = 1" | "length s = 2" | "length s = 4" | "length s = 8"
      using len by blast
    then show ?thesis
      using le_nat_lt [of s]
      by cases (auto simp: string_to_number_def extract_u16_def extract_u32_def extract_u64_def copy_int_def
        ucast_of_nat_u64 length_Suc_conv)
  qed
  then show ?thesis by (auto simp: string_to_number_def)
qed

lemma parse_qty_eq:
  "parse_qty m1 m2 s k = (if length s \<noteq> 8 then Fail m1 else k (of_nat (be_nat s)))"
  by (simp add: parse_qty_def parse_check_def string_to_number_eq be_nat_def)

lemma parse_tokenid_eq:
  "parse_tokenid s k = (if length s \<noteq> 32 then Fail ''tokenid invalid size'' else k (rev s))"
  by (simp add: parse_tokenid_def parse_check_def check_valid_token_id_def bhash_def)

lemma unat_ucast_u32 [simp]: "unat (ucast (b :: byte) :: u32) = unat b"
  using unat_byte_lt [of b] by (simp add: unsigned_ucast_eq take_bit_eq_mod)

lemma ucast_u64_u32 [simp]: "(ucast (ucast (b :: byte) :: u64) :: u32) = ucast b"
  by (metis of_nat_unat unat_ucast_u64(1))

lemma ucast_u32_byte [simp]: "(ucast (ucast (b :: byte) :: u32) :: byte) = b"
  by (metis of_nat_unat unat_ucast_u32 ucast_id)

lemma parse_decimals_eq:
  "parse_decimals s k = (case s of [b] \<Rightarrow> if b > 9 then Fail ''decimals bigger than 9'' else k (ucast b)
     | _ \<Rightarrow> Fail ''decimals string length must be 1'')"
  by (auto simp: parse_decimals_def parse_check_def string_to_number_eq Let_def word_less_nat_alt split: list.splits)

lemma parse_baton_eq:
  "parse_baton mint s k = (case s of [] \<Rightarrow> k (False, 0)
     | [b] \<Rightarrow> if b < 2 then Fail ''mint_baton_vout must be at least 2'' else k (True, ucast b)
     | _ \<Rightarrow> Fail ''mint_baton_vout string length must be 0 or 1'')"
  using unat_byte_lt [of "hd s"]
  by (auto simp: parse_baton_def parse_check_def string_to_number_eq Let_def word_less_nat_alt split: list.splits)


section \<open>The chunk loop reads exactly the pushes\<close>

lemma extract_pushdata_push:
  assumes "push_ok op (length c)" and "c @ rest \<noteq> []"
  shows "extract_pushdata (push_head op (length c) @ c @ rest) = Ok ((True, length c), c @ rest)"
proof (cases op)
  case PushDirect
  with assms have n: "1 \<le> length c" "length c \<le> 75" by auto
  then have "unat (of_nat (length c) :: byte) = length c" by simp
  with n show ?thesis
    by (auto simp: PushDirect extract_pushdata_def word_less_nat_alt simp del: unat_of_nat_byte)
next
  case Push1
  with assms show ?thesis
    by (cases "c @ rest") (auto simp: extract_pushdata_def)
next
  case Push2
  with assms show ?thesis
    by (cases "c @ rest") (auto simp: extract_pushdata_def extract_u16_le_bytes unat_of_nat)
next
  case Push4
  with assms show ?thesis
    by (cases "c @ rest") (auto simp: extract_pushdata_def extract_u32_le_bytes unat_of_nat)
qed

lemma extract_u16_Ok: "extract_u16 it = Ok (n, r) \<Longrightarrow> it = le_bytes 2 (unat n) @ r"
proof -
  assume "extract_u16 it = Ok (n, r)"
  then obtain m where "copy_int 2 it = Ok (m, r)" and n: "n = of_nat m"
    by (auto simp: extract_u16_def res_bind_Ok)
  then have "it = le_bytes 2 m @ r" and "m < 256 ^ 2" by (auto simp: copy_int_Ok)
  with n show ?thesis by (simp add: unat_of_nat)
qed

lemma extract_u32_Ok: "extract_u32 it = Ok (n, r) \<Longrightarrow> it = le_bytes 4 (unat n) @ r"
proof -
  assume "extract_u32 it = Ok (n, r)"
  then obtain m where "copy_int 4 it = Ok (m, r)" and n: "n = of_nat m"
    by (auto simp: extract_u32_def res_bind_Ok)
  then have "it = le_bytes 4 m @ r" and "m < 256 ^ 4" by (auto simp: copy_int_Ok)
  with n show ?thesis by (simp add: unat_of_nat)
qed

lemma unat_u16_lt: "unat (n :: u16) < 256 ^ 2" and unat_u32_lt: "unat (w :: u32) < 256 ^ 4"
  using unsigned_less [of n, where ?'a = nat] unsigned_less [of w, where ?'a = nat] by simp_all

lemma extract_pushdata_True:
  assumes "extract_pushdata it = Ok ((True, n), it')"
  shows "\<exists>op. it = push_head op n @ it' \<and> push_ok op n \<and> it' \<noteq> []"
proof -
  obtain b r where it: "it = b # r" using assms by (cases it) (auto simp: extract_pushdata_def)
  consider "0 < b \<and> b < 0x4C" | "b = 0x4C" | "b = 0x4D" | "b = 0x4E"
    using assms it by (auto simp: extract_pushdata_def split: if_splits)
  then show ?thesis
  proof cases
    case 1
    with assms it have "n = unat b" "it' = r" "unat b \<le> length r"
      by (auto simp: extract_pushdata_def split: if_splits)
    with 1 it show ?thesis by (intro exI [of _ PushDirect]) (auto simp: word_less_nat_alt)
  next
    case 2
    with assms it show ?thesis
      by (intro exI [of _ Push1])
        (auto simp: extract_pushdata_def res_bind_Ok extract_u8_Ok unat_byte_lt split: if_splits)
  next
    case 3
    with assms it show ?thesis
      using unat_u16_lt
      by (intro exI [of _ Push2])
        (auto simp: extract_pushdata_def res_bind_Ok split: if_splits dest!: extract_u16_Ok)
  next
    case 4
    with assms it show ?thesis
      using unat_u32_lt
      by (intro exI [of _ Push4])
        (auto simp: extract_pushdata_def res_bind_Ok split: if_splits dest!: extract_u32_Ok)
  qed
qed

lemma extract_pushdata_False:
  "extract_pushdata it = Ok ((False, n), it') \<Longrightarrow> it' = it"
  by (auto simp: extract_pushdata_def res_bind_Ok split: if_splits)

lemma extract_pushdata_outcome:
  obtains (more) n it' where "extract_pushdata it = Ok ((True, n), it')"
  | (stop) n where "extract_pushdata it = Ok ((False, n), it)"
proof (cases "extract_pushdata it")
  case (Ok p)
  obtain ok n it' where p: "p = ((ok, n), it')" by (metis prod.exhaust)
  with Ok extract_pushdata_False more stop show thesis by (cases ok) auto
next
  case (Fail e)
  then show thesis
    by (auto simp: extract_pushdata_def extract_u8_def extract_u16_def extract_u32_def copy_int_def
        split: if_splits list.splits)
next
  case Oob
  then show thesis
    by (auto simp: extract_pushdata_def extract_u8_def extract_u16_def extract_u32_def copy_int_def
        split: if_splits list.splits)
qed

lemma pushes_simps [simp]: "pushes [] = []" "pushes (p # ps) = push_bytes p @ pushes ps"
  by (simp_all add: pushes_def)

lemma pushes_ok_simps [simp]:
  "pushes_ok []" "pushes_ok (p # ps) \<longleftrightarrow> push_ok (fst p) (length (snd p)) \<and> pushes_ok ps"
  by (simp_all add: pushes_ok_def)

definition first_is_lokad :: "bytes list \<Rightarrow> bool" where
  "first_is_lokad cs \<longleftrightarrow> cs = [] \<or> hd cs = lokad_id"

lemma lokad_id_eq: "lokad_id = [83, 76, 80, 0]"
  by (simp add: lokad_id_def byte_of_char_def)

lemma lokad_check:
  "length (c :: bytes) = 4 \<Longrightarrow> (c ! 0 \<noteq> lokad_id ! 0 \<or> c ! 1 \<noteq> lokad_id ! 1 \<or> c ! 2 \<noteq> lokad_id ! 2 \<or> c ! 3 \<noteq> lokad_id ! 3)
     \<longleftrightarrow> c \<noteq> lokad_id"
  by (auto simp: lokad_id_eq length_Suc_conv numeral_eq_Suc)

lemma quick_exit_Ok: "quick_exit (acc @ [c]) k = Ok y \<longleftrightarrow> (acc = [] \<longrightarrow> c = lokad_id) \<and> k = Ok y"
proof (cases acc)
  case Nil
  have "length lokad_id = 4" by (simp add: lokad_id_eq)
  then show ?thesis
    using lokad_check [of c] by (auto simp: Nil quick_exit_def parse_check_Ok)
qed (simp add: quick_exit_def)


definition last_full :: "(push_op \<times> bytes) list \<Rightarrow> bool" where
  "last_full ps \<longleftrightarrow> ps = [] \<or> snd (last ps) \<noteq> []"

lemma chunk_loop_stop: "extract_pushdata it = Ok ((False, n), it) \<Longrightarrow> chunk_loop it acc = Ok (acc, it)"
  by (subst chunk_loop.simps) simp

lemma chunk_loop_more:
  "extract_pushdata it = Ok ((True, n), it') \<Longrightarrow> chunk_loop it acc =
     (if length it' < n then Fail ''pushdata data extraction failed''
      else quick_exit (acc @ [take n it']) (chunk_loop (drop n it') (acc @ [take n it'])))"
  by (subst chunk_loop.simps) (simp add: extract_string_def)

lemma chunk_loop_sound:
  "chunk_loop it acc = Ok (chunks, rest) \<Longrightarrow> \<exists>ps. it = pushes ps @ rest \<and> pushes_ok ps
     \<and> chunks = acc @ map snd ps \<and> (acc = [] \<longrightarrow> first_is_lokad (map snd ps)) \<and> (rest = [] \<longrightarrow> last_full ps)"
proof (induction "length it" arbitrary: it acc rule: less_induct)
  case less
  show ?case
  proof (cases it rule: extract_pushdata_outcome)
    case (more n it')
    obtain op where op: "it = push_head op n @ it'" "push_ok op n" "it' \<noteq> []"
      using extract_pushdata_True [OF more] by blast
    from less.prems have len: "\<not> length it' < n" and q: "acc = [] \<longrightarrow> take n it' = lokad_id"
      and l: "chunk_loop (drop n it') (acc @ [take n it']) = Ok (chunks, rest)"
      by (auto simp: chunk_loop_more [OF more] quick_exit_Ok split: if_splits)
    have "length (drop n it') < length it"
      using extract_pushdata_shrinks [OF more] by simp
    from less.hyps [OF this l] obtain ps where ps: "drop n it' = pushes ps @ rest" "pushes_ok ps"
      "chunks = (acc @ [take n it']) @ map snd ps" "rest = [] \<longrightarrow> last_full ps" by auto
    from len have n: "length (take n it') = n" by simp
    have "it = pushes ((op, take n it') # ps) @ rest"
      using op(1) ps(1) n append_take_drop_id [of n it'] by (simp add: push_bytes_def)
    moreover have "pushes_ok ((op, take n it') # ps)"
      using op(2) ps(2) n by simp
    moreover have "rest = [] \<longrightarrow> last_full ((op, take n it') # ps)"
      using ps(1,4) op(3) by (cases it') (auto simp: last_full_def)
    ultimately show ?thesis
      using ps(3) q by (intro exI [of _ "(op, take n it') # ps"]) (auto simp: first_is_lokad_def)
  next
    case (stop n)
    with less.prems show ?thesis
      by (intro exI [of _ "[]"]) (auto simp: chunk_loop_stop first_is_lokad_def last_full_def)
  qed
qed

lemma chunk_loop_complete:
  "pushes_ok ps \<Longrightarrow> last_full ps \<Longrightarrow> (acc = [] \<longrightarrow> first_is_lokad (map snd ps))
     \<Longrightarrow> chunk_loop (pushes ps) acc = Ok (acc @ map snd ps, [])"
proof (induction ps arbitrary: acc)
  case Nil
  have "extract_pushdata [] = Ok ((False, 0), [])" by (simp add: extract_pushdata_def)
  then show ?case by (simp add: chunk_loop_stop)
next
  case (Cons p ps)
  obtain op c where p: "p = (op, c)" by (cases p)
  have "c @ pushes ps \<noteq> []"
    using Cons.prems(1,2) p
    by (cases ps) (auto simp: last_full_def push_bytes_def elim!: push_head.elims)
  then have e: "extract_pushdata (push_head op (length c) @ c @ pushes ps) = Ok ((True, length c), c @ pushes ps)"
    using Cons.prems(1) p by (intro extract_pushdata_push) auto
  have "last_full ps" using Cons.prems(2) by (cases ps) (auto simp: last_full_def)
  with Cons.IH [of "acc @ [c]"] Cons.prems p
  have "chunk_loop (pushes ps) (acc @ [c]) = Ok (acc @ c # map snd ps, [])" by simp
  moreover have "acc = [] \<longrightarrow> c = lokad_id" using Cons.prems(3) p by (simp add: first_is_lokad_def)
  ultimately show ?case
    using chunk_loop_more [OF e, of acc] by (simp add: p push_bytes_def quick_exit_Ok)
qed

lemma chunk_loop_safe: "chunk_loop it acc \<noteq> Oob"
proof (induction "length it" arbitrary: it acc rule: less_induct)
  case less
  show ?case
  proof (cases it rule: extract_pushdata_outcome)
    case (more n it')
    have "length (drop n it') < length it"
      using extract_pushdata_shrinks [OF more] by simp
    from less.hyps [OF this] show ?thesis
      by (simp add: chunk_loop_more [OF more] quick_exit_def parse_check_Oob)
  qed (simp add: chunk_loop_stop)
qed

section \<open>The fields\<close>

lemma check_next_Ok: "check_next cit k = Ok y \<longleftrightarrow> (\<exists>c cs. tl cit = c # cs \<and> k (c # cs) = Ok y)"
  by (cases "tl cit") (auto simp: check_next_def parse_check_Ok)

lemma unat_u64_lt: "unat (n :: u64) < 256 ^ 8"
  using unsigned_less [of n, where ?'a = nat] by simp

lemma be_nat_qty_chunk: "of_nat (be_nat (qty_chunk q)) = q"
  using unat_u64_lt [of q] by (simp add: be_nat_def qty_chunk_def le_nat_le_bytes)

lemma qty_chunk_be_nat: "length s = 8 \<Longrightarrow> qty_chunk (of_nat (be_nat s)) = s"
  using le_nat_lt [of "rev s"] le_bytes_le_nat_n [of "rev s" 8]
  by (simp add: be_nat_def qty_chunk_def unat_of_nat)

lemma length_qty_chunk [simp]: "length (qty_chunk q) = 8"
  by (simp add: qty_chunk_def)

lemma parse_qty_Ok: "parse_qty m1 m2 s k = Ok y \<longleftrightarrow> (\<exists>q. s = qty_chunk q \<and> k q = Ok y)"
proof
  assume "parse_qty m1 m2 s k = Ok y"
  then show "\<exists>q. s = qty_chunk q \<and> k q = Ok y"
    by (intro exI [of _ "of_nat (be_nat s)"]) (auto simp: parse_qty_eq qty_chunk_be_nat split: if_splits)
qed (auto simp: parse_qty_eq be_nat_qty_chunk)

lemma parse_tokenid_Ok: "parse_tokenid s k = Ok y \<longleftrightarrow> (\<exists>i. length i = 32 \<and> s = rev i \<and> k i = Ok y)"
  by (auto simp: parse_tokenid_eq intro: exI [of _ "rev s"])

lemma unat_ucast_u32_byte: "d \<le> 255 \<Longrightarrow> unat (ucast (d :: u32) :: byte) = unat d"
  by (simp add: word_le_nat_alt unsigned_ucast_eq take_bit_eq_mod)

lemma ucast_byte_u32_back: "d \<le> 255 \<Longrightarrow> (ucast (ucast (d :: u32) :: byte) :: u32) = d"
  by (simp only: word_unat_eq_iff unat_ucast_u32 unat_ucast_u32_byte)

lemma parse_decimals_Ok: "parse_decimals s k = Ok y \<longleftrightarrow> (\<exists>d \<le> 9. s = [ucast d] \<and> k d = Ok y)"
proof
  assume "parse_decimals s k = Ok y"
  then obtain b where "s = [b]" "b \<le> 9" "k (ucast b) = Ok y"
    by (auto simp: parse_decimals_eq split: list.splits if_splits)
  then show "\<exists>d \<le> 9. s = [ucast d] \<and> k d = Ok y"
    by (intro exI [of _ "ucast b"]) (auto simp: word_le_nat_alt)
next
  assume "\<exists>d \<le> 9. s = [ucast d] \<and> k d = Ok y"
  then obtain d where d: "d \<le> 9" "s = [ucast d]" "k d = Ok y" by blast
  then have "d \<le> 255" by (simp add: word_le_nat_alt)
  with d show "parse_decimals s k = Ok y"
    by (simp add: parse_decimals_eq ucast_byte_u32_back word_le_nat_alt word_less_nat_alt unat_ucast_u32_byte)
qed

lemma parse_baton_Ok:
  "parse_baton mint s k = Ok y \<longleftrightarrow> (\<exists>has vout. baton_ok has vout \<and> s = baton_chunk has vout \<and> k (has, vout) = Ok y)"
proof
  assume a: "parse_baton mint s k = Ok y"
  then consider "s = []" "k (False, 0) = Ok y" | b where "s = [b]" "2 \<le> b" "k (True, ucast b) = Ok y"
    by (auto simp: parse_baton_eq not_less split: list.splits if_splits)
  then show "\<exists>has vout. baton_ok has vout \<and> s = baton_chunk has vout \<and> k (has, vout) = Ok y"
  proof cases
    case 1
    then show ?thesis by (intro exI [of _ False] exI [of _ 0]) (simp add: baton_ok_def baton_chunk_def)
  next
    case (2 b)
    with unat_byte_lt [of b] show ?thesis
      by (intro exI [of _ True] exI [of _ "ucast b"]) (simp add: baton_ok_def baton_chunk_def word_le_nat_alt)
  qed
next
  assume "\<exists>has vout. baton_ok has vout \<and> s = baton_chunk has vout \<and> k (has, vout) = Ok y"
  then show "parse_baton mint s k = Ok y"
    by (auto simp: parse_baton_eq baton_ok_def baton_chunk_def ucast_byte_u32_back word_less_nat_alt
        word_le_nat_alt unat_ucast_u32_byte split: if_splits)
qed

lemma amount_loop_Ok: "amount_loop cit acc = Ok y \<longleftrightarrow> (\<exists>qs. cit = map qty_chunk qs \<and> y = acc @ qs)"
proof (induction cit arbitrary: acc)
  case (Cons c cit)
  have "amount_loop (c # cit) acc = parse_qty ''amount string size not 8 bytes'' ''extraction of amount failed'' c
      (\<lambda>q. amount_loop cit (acc @ [q]))"
    by (simp add: parse_qty_def Let_def)
  also have "\<dots> = Ok y \<longleftrightarrow> (\<exists>q qs. c = qty_chunk q \<and> cit = map qty_chunk qs \<and> y = acc @ q # qs)"
    by (simp add: parse_qty_Ok Cons.IH)
  finally show ?case by (auto simp: Cons_eq_map_conv)
qed auto


section \<open>The messages\<close>

definition tid_of :: "bytes \<Rightarrow> slp_tx_variant \<Rightarrow> bytes option" where
  "tid_of i v = (if is_genesis v then None else Some i)"

lemma res_bind_parse_Ok:
  "res_bind m (\<lambda>x. parse_check (c x) msg (k x)) = Ok y \<longleftrightarrow> (\<exists>x. m = Ok x \<and> \<not> c x \<and> k x = Ok y)"
  by (simp add: res_bind_Ok parse_check_Ok)

lemmas field_Ok = check_next_Ok parse_check_Ok res_bind_Ok parse_qty_Ok parse_tokenid_Ok parse_decimals_Ok
  parse_baton_Ok amount_loop_Ok Let_def

lemma baton_zero: "baton_ok has vout \<Longrightarrow> vout = 0 \<longleftrightarrow> \<not> has"
  by (auto simp: baton_ok_def word_le_nat_alt split: if_splits)

lemma baton_ok_True_0 [simp]: "\<not> baton_ok True 0"
  by (simp add: baton_ok_def word_le_nat_alt)

definition known_token_type :: "u16 \<Rightarrow> bool" where
  "known_token_type tt \<longleftrightarrow> tt = 1 \<or> tt = 0x41 \<or> tt = 0x81"

lemma valid_msg_known: "valid_msg tt v \<Longrightarrow> known_token_type tt"
  by (cases v) (auto simp: known_token_type_def)

lemma parse_genesis_Ok:
  assumes "known_token_type tt"
  shows "parse_genesis tt (c0 # ttc # a # cs) (a # cs) = Ok (t, v) \<longleftrightarrow> (\<exists>g. v = SlpGenesis g \<and> t = None
     \<and> cs = drop 3 (msg_chunks ttc i v) \<and> valid_msg tt v)" (is "?l \<longleftrightarrow> ?r")
proof
  assume ?l
  then show ?r
    using assms by (simp add: parse_genesis_def field_Ok known_token_type_def)
      (auto simp: baton_zero split: if_splits)
next
  assume ?r
  then obtain g where g: "v = SlpGenesis g" "t = None" "cs = drop 3 (msg_chunks ttc i v)" "valid_msg tt v"
    by blast
  then show ?l
    by (cases g) (auto simp: parse_genesis_def field_Ok baton_zero split: if_splits)
qed

lemma parse_mint_Ok:
  assumes "known_token_type tt"
  shows "parse_mint tt (c0 # ttc # a # cs) (a # cs) = Ok (t, v) \<longleftrightarrow> (\<exists>m i. v = SlpMint m \<and> t = Some i
     \<and> length i = 32 \<and> cs = drop 3 (msg_chunks ttc i v) \<and> valid_msg tt v)" (is "?l \<longleftrightarrow> ?r")
proof
  assume ?l
  then show ?r
    using assms by (simp add: parse_mint_def field_Ok known_token_type_def) auto
next
  assume ?r
  then obtain m i where "v = SlpMint m" "t = Some i" "length i = 32" "cs = drop 3 (msg_chunks ttc i v)"
    "valid_msg tt v" by blast
  then show ?l
    by (cases m) (auto simp: parse_mint_def field_Ok)
qed

lemma parse_send_Ok:
  assumes "known_token_type tt"
  shows "parse_send (c0 # ttc # a # cs) (a # cs) = Ok (t, v) \<longleftrightarrow> (\<exists>s i. v = SlpSend s \<and> t = Some i
     \<and> length i = 32 \<and> cs = drop 3 (msg_chunks ttc i v) \<and> valid_msg tt v)" (is "?l \<longleftrightarrow> ?r")
proof
  assume ?l
  then show ?r
    using assms by (simp add: parse_send_def field_Ok known_token_type_def del: amount_loop.simps)
      (auto simp: Suc_le_eq Cons_eq_map_conv)
next
  assume ?r
  then obtain s i where v: "v = SlpSend s" "t = Some i" "length i = 32" "cs = drop 3 (msg_chunks ttc i v)"
    "valid_msg tt v" by blast
  then obtain q qs where "amounts s = q # qs" by (cases "amounts s") auto
  with v show ?l
    by (cases s) (auto simp: parse_send_def field_Ok simp del: amount_loop.simps)
qed

lemma action_names [simp]:
  "ascii ''GENESIS'' \<noteq> ascii ''MINT''" "ascii ''GENESIS'' \<noteq> ascii ''SEND''" "ascii ''MINT'' \<noteq> ascii ''SEND''"
  by (simp_all add: byte_of_char_def)


lemma parse_action_dispatch:
  "hd cit = ascii ''GENESIS'' \<Longrightarrow> parse_action tt chunks cit = parse_genesis tt chunks cit"
  "hd cit = ascii ''MINT'' \<Longrightarrow> parse_action tt chunks cit = parse_mint tt chunks cit"
  "hd cit = ascii ''SEND'' \<Longrightarrow> parse_action tt chunks cit = parse_send chunks cit"
  using action_names action_names [symmetric]
  by (simp_all only: parse_action_def Let_def if_True if_False refl if_not_P)

lemma parse_action_Ok:
  assumes "known_token_type tt"
  shows "parse_action tt (c0 # ttc # a # cs) (a # cs) = Ok (t, v) \<longleftrightarrow> (\<exists>i. t = tid_of i v
     \<and> (is_genesis v \<or> length i = 32) \<and> a # cs = drop 2 (msg_chunks ttc i v) \<and> valid_msg tt v)" (is "?l \<longleftrightarrow> ?r")
proof
  assume ?l
  then consider "a = ascii ''GENESIS''" "parse_genesis tt (c0 # ttc # a # cs) (a # cs) = Ok (t, v)"
    | "a = ascii ''MINT''" "parse_mint tt (c0 # ttc # a # cs) (a # cs) = Ok (t, v)"
    | "a = ascii ''SEND''" "parse_send (c0 # ttc # a # cs) (a # cs) = Ok (t, v)"
    by (auto simp: parse_action_def split: if_splits)
  then show ?r
  proof cases
    case 1
    then show ?thesis by (auto simp: parse_genesis_Ok [OF assms, of _ ttc _ _ _ _ "[]"] tid_of_def)
  next
    case 2
    then show ?thesis by (auto simp: parse_mint_Ok [OF assms] tid_of_def)
  next
    case 3
    then show ?thesis by (auto simp: parse_send_Ok [OF assms] tid_of_def)
  qed
next
  assume ?r
  then obtain i where i: "t = tid_of i v" "is_genesis v \<or> length i = 32" "a # cs = drop 2 (msg_chunks ttc i v)"
    "valid_msg tt v" by blast
  show ?l
  proof (cases v)
    case (SlpGenesis g)
    with i have a: "a = ascii ''GENESIS''" and cs: "cs = drop 3 (msg_chunks ttc i v)" by auto
    with i SlpGenesis have "parse_genesis tt (c0 # ttc # a # cs) (a # cs) = Ok (t, v)"
      using parse_genesis_Ok [OF assms, of c0 ttc a cs t v i] by (simp add: tid_of_def)
    with a show ?thesis by (simp only: parse_action_dispatch list.sel)
  next
    case (SlpMint m)
    with i have a: "a = ascii ''MINT''" and cs: "cs = drop 3 (msg_chunks ttc i v)" by auto
    with i SlpMint have "parse_mint tt (c0 # ttc # a # cs) (a # cs) = Ok (t, v)"
      using parse_mint_Ok [OF assms, of c0 ttc a cs t v] by (auto simp: tid_of_def)
    with a show ?thesis by (simp only: parse_action_dispatch list.sel)
  next
    case (SlpSend s)
    with i have a: "a = ascii ''SEND''" and cs: "cs = drop 3 (msg_chunks ttc i v)" by auto
    with i SlpSend have "parse_send (c0 # ttc # a # cs) (a # cs) = Ok (t, v)"
      using parse_send_Ok [OF assms, of c0 ttc a cs t v] by (auto simp: tid_of_def)
    with a show ?thesis by (simp only: parse_action_dispatch list.sel)
  qed (use i in simp)
qed

lemma token_type_of_chunk:
  assumes "length c = 1 \<or> length c = 2"
  shows "string_to_number (rev c) = Ok (True, of_nat (be_nat c))"
    and "token_type_chunk c tt \<longleftrightarrow> tt = of_nat (be_nat c)"
proof -
  show "string_to_number (rev c) = Ok (True, of_nat (be_nat c))"
    using assms by (auto simp: string_to_number_eq be_nat_def)
  have "be_nat c < 65536"
    using assms le_nat_lt [of "rev c"] by (auto simp: be_nat_def)
  then show "token_type_chunk c tt \<longleftrightarrow> tt = of_nat (be_nat c)"
    using assms by (auto simp: token_type_chunk_def word_unat_eq_iff unat_of_nat)
qed

lemma ucast_of_nat_u16: "n < 65536 \<Longrightarrow> (ucast (of_nat n :: u64) :: u16) = of_nat n"
  by (simp add: word_unat_eq_iff unat_of_nat unsigned_ucast_eq take_bit_eq_mod)

lemma parse_head_Ok:
  "parse_head spk = Ok (chunks, cit, tt) \<longleftrightarrow> (\<exists>ps ttc a cs. spk = 0x6A # pushes ps \<and> 10 \<le> length spk
     \<and> pushes_ok ps \<and> last_full ps \<and> map snd ps = lokad_id # ttc # a # cs \<and> chunks = lokad_id # ttc # a # cs
     \<and> cit = a # cs \<and> token_type_chunk ttc tt \<and> known_token_type tt)" (is "?l \<longleftrightarrow> ?r")
proof
  assume l: ?l
  then obtain ttc a cs c0 n where spk: "spk \<noteq> []" "spk ! 0 = 0x6A" "10 \<le> length spk"
    and loop: "chunk_loop (tl spk) [] = Ok (chunks, [])"
    and chunks: "chunks = c0 # ttc # a # cs" "cit = a # cs" "length ttc = 1 \<or> length ttc = 2"
    and tt: "string_to_number (rev ttc) = Ok (True, n)" "tt = ucast n" "known_token_type tt"
    by (fastforce simp: parse_head_def field_Ok known_token_type_def neq_Nil_conv)
  from chunk_loop_sound [OF loop] obtain ps where ps: "tl spk = pushes ps" "pushes_ok ps"
    "chunks = map snd ps" "first_is_lokad (map snd ps)" "last_full ps"
    by auto
  from ps(3,4) chunks(1) have c0: "c0 = lokad_id"
    by (metis first_is_lokad_def list.sel(1) list.distinct(1))
  have "be_nat ttc < 65536"
    using chunks(3) le_nat_lt [of "rev ttc"] by (auto simp: be_nat_def)
  with tt token_type_of_chunk [OF chunks(3)] have "token_type_chunk ttc tt"
    using ucast_of_nat_u16 [of "be_nat ttc"] by auto
  moreover have "spk = 0x6A # pushes ps" using spk ps(1) by (cases spk) auto
  ultimately show ?r using spk ps chunks c0 tt by (intro exI [of _ ps] exI [of _ ttc] exI [of _ a] exI [of _ cs]) simp
next
  assume ?r
  then obtain ps ttc a cs where spk: "spk = 0x6A # pushes ps" "10 \<le> length spk"
    and ps: "pushes_ok ps" "last_full ps" "map snd ps = lokad_id # ttc # a # cs"
    and c: "chunks = lokad_id # ttc # a # cs" "cit = a # cs"
    and tt: "token_type_chunk ttc tt" "known_token_type tt" by metis
  have loop: "chunk_loop (tl spk) [] = Ok (chunks, [])"
    using chunk_loop_complete [OF ps(1,2), of "[]"] spk(1) ps(3) c(1) by (simp add: first_is_lokad_def)
  have l: "length ttc = 1 \<or> length ttc = 2" using tt(1) by (simp add: token_type_chunk_def)
  then have "be_nat ttc < 65536"
    using le_nat_lt [of "rev ttc"] by (auto simp: be_nat_def)
  with tt l token_type_of_chunk [OF l] have "string_to_number (rev ttc) = Ok (True, of_nat (be_nat ttc))"
    "ucast (of_nat (be_nat ttc) :: u64) = tt"
    by (simp_all add: ucast_of_nat_u16)
  with spk loop c tt(2) l show ?l
    by (auto simp: parse_head_def field_Ok known_token_type_def)
qed


section \<open>The parser and the grammar\<close>

definition hydrated :: "slp_transaction \<Rightarrow> u16 \<Rightarrow> bytes \<Rightarrow> slp_tx_variant \<Rightarrow> slp_transaction" where
  "hydrated this tt i v = this\<lparr>slp_token_type := tt, slp_tokenid := (if is_genesis v then slp_tokenid this else i),
     slp_type := variant_type v, slp_tx := v\<rparr>"

lemma msg_chunks_last: "valid_msg tt v \<Longrightarrow> last (msg_chunks ttc i v) \<noteq> []"
proof (cases v)
  case (SlpSend s)
  assume "valid_msg tt v"
  with SlpSend obtain q where "last (map qty_chunk (amounts s)) = qty_chunk q" "amounts s \<noteq> []"
    by (cases "amounts s" rule: rev_cases) auto
  with SlpSend show ?thesis using length_qty_chunk [of q] by (auto simp del: length_qty_chunk)
next
  case (SlpGenesis g)
  show ?thesis using length_qty_chunk [of "genesis_qty g"] SlpGenesis by (auto simp del: length_qty_chunk)
next
  case (SlpMint m)
  show ?thesis using length_qty_chunk [of "mint_qty m"] SlpMint by (auto simp del: length_qty_chunk)
qed simp

lemma msg_chunks_shape:
  "valid_msg tt v \<Longrightarrow> \<exists>a cs. msg_chunks ttc i v = lokad_id # ttc # a # cs \<and> 4 \<le> length a"
  by (cases v) auto

lemma pushes_length: "pushes_ok ps \<Longrightarrow> length (pushes ps) \<ge> (\<Sum>c\<leftarrow>map snd ps. Suc (length c))"
proof (induction ps)
  case (Cons p ps)
  have "length (push_bytes p) \<ge> Suc (length (snd p))"
    by (cases "fst p") (simp_all add: push_bytes_def)
  with Cons show ?case by simp
qed simp

lemma slp_script_long:
  assumes "pushes_ok ps" and "map snd ps = lokad_id # ttc # a # cs" and "4 \<le> length a" and "ttc \<noteq> []"
  shows "10 \<le> Suc (length (pushes ps))"
proof -
  have "1 \<le> length ttc" using assms(4) by (cases ttc) auto
  then show ?thesis
    using pushes_length [OF assms(1)] assms(3) unfolding assms(2) by (simp add: lokad_id_eq)
qed

lemma slp_hydrate_Some_iff:
  "slp_hydrate this spk = Some (True, t) \<longleftrightarrow>
     (\<exists>tt i v. slp_script tt i v spk \<and> t = hydrated this tt i v)" (is "?l \<longleftrightarrow> ?r")
proof
  assume ?l
  then obtain chunks cit tt o' v where h: "parse_head spk = Ok (chunks, cit, tt)"
    and b: "parse_action tt chunks cit = Ok (o', v)"
    and t: "t = this\<lparr>slp_token_type := tt,
        slp_tokenid := (case o' of None \<Rightarrow> slp_tokenid (this\<lparr>slp_token_type := tt\<rparr>) | Some i \<Rightarrow> i),
        slp_type := variant_type v, slp_tx := v\<rparr>"
    by (auto simp: slp_hydrate_def Let_def split: res.splits)
  from h obtain ps ttc a cs where ps: "spk = 0x6A # pushes ps" "pushes_ok ps"
      "map snd ps = lokad_id # ttc # a # cs" "chunks = lokad_id # ttc # a # cs" "cit = a # cs"
    and tt: "token_type_chunk ttc tt" "known_token_type tt"
    unfolding parse_head_Ok by metis
  from b [unfolded ps(4,5)] obtain i where i: "o' = tid_of i v" "is_genesis v \<or> length i = 32"
      "a # cs = drop 2 (msg_chunks ttc i v)" "valid_msg tt v"
    by (auto simp: parse_action_Ok [OF tt(2)])
  have "map snd ps = msg_chunks ttc i v"
    using ps(3) i(3) msg_chunks_shape [OF i(4), of ttc i] by auto
  with ps tt i have "slp_script tt i v spk" by (auto simp: slp_script_def)
  moreover have "t = hydrated this tt i v" using t i(1) by (simp add: hydrated_def tid_of_def)
  ultimately show ?r by blast
next
  assume ?r
  then obtain tt i v ps ttc where v: "valid_msg tt v" "is_genesis v \<or> length i = 32"
    and ps: "spk = 0x6A # pushes ps" "pushes_ok ps" "map snd ps = msg_chunks ttc i v"
    and tt: "token_type_chunk ttc tt" and t: "t = hydrated this tt i v"
    unfolding slp_script_def by metis
  obtain a cs where m: "msg_chunks ttc i v = lokad_id # ttc # a # cs" "4 \<le> length a"
    using msg_chunks_shape [OF v(1)] by blast
  have "ttc \<noteq> []" using tt by (auto simp: token_type_chunk_def)
  with slp_script_long [OF ps(2), of ttc a cs] m ps(3) have "10 \<le> Suc (length (pushes ps))" by simp
  moreover have "last_full ps"
    using msg_chunks_last [OF v(1), of ttc i] ps(3) by (auto simp: last_full_def last_map [symmetric])
  ultimately have "parse_head spk = Ok (lokad_id # ttc # a # cs, a # cs, tt)"
    using ps m tt valid_msg_known [OF v(1)] by (auto simp: parse_head_Ok)
  moreover have "parse_action tt (lokad_id # ttc # a # cs) (a # cs) = Ok (tid_of i v, v)"
    using v m by (auto simp: parse_action_Ok [OF valid_msg_known [OF v(1)]])
  ultimately show ?l
    using t by (auto simp: slp_hydrate_def hydrated_def tid_of_def)
qed


lemma check_next_Oob: "check_next cit k = Oob \<Longrightarrow> \<exists>c. k c = Oob"
  by (auto simp: check_next_def parse_check_def Let_def split: if_splits)

lemma string_to_number_safe: "string_to_number s \<noteq> Oob"
  by (simp add: string_to_number_eq)

lemma field_safe [inv_intros]:
  "(\<And>x. k x \<noteq> Oob) \<Longrightarrow> check_next cit k \<noteq> Oob"
  "(\<And>x. kt x \<noteq> Oob) \<Longrightarrow> parse_tokenid s kt \<noteq> Oob"
  "(\<And>x. kq x \<noteq> Oob) \<Longrightarrow> parse_qty m1 m2 s kq \<noteq> Oob"
  "(\<And>x. kd x \<noteq> Oob) \<Longrightarrow> parse_decimals s kd \<noteq> Oob"
  "(\<And>a b. kb a b \<noteq> Oob) \<Longrightarrow> parse_baton mint s (\<lambda>(a, b). kb a b) \<noteq> Oob"
  "kc \<noteq> Oob \<Longrightarrow> parse_check c msg kc \<noteq> Oob"
  by (auto simp: check_next_def parse_check_def Let_def parse_tokenid_eq parse_qty_eq parse_decimals_eq
      parse_baton_eq split: list.splits)

lemma res_bind_pair_safe: "m \<noteq> Oob \<Longrightarrow> (\<And>a b. g a b \<noteq> Oob) \<Longrightarrow> res_bind m (\<lambda>(a, b). g a b) \<noteq> Oob"
  by (cases m) auto

lemma res_bind_safe: "m \<noteq> Oob \<Longrightarrow> (\<And>x. f x \<noteq> Oob) \<Longrightarrow> res_bind m f \<noteq> Oob"
  by (cases m) auto

lemma amount_loop_safe: "amount_loop cit acc \<noteq> Oob"
  by (induction cit arbitrary: acc) (auto simp: Let_def string_to_number_eq parse_check_def)

lemma parse_head_safe: "parse_head spk \<noteq> Oob"
  unfolding parse_head_def Let_def
  by (intro field_safe res_bind_pair_safe chunk_loop_safe string_to_number_safe) simp

lemma parse_message_safe:
  "parse_genesis tt chunks cit \<noteq> Oob" "parse_mint tt chunks cit \<noteq> Oob" "parse_send chunks cit \<noteq> Oob"
  unfolding Let_def parse_genesis_def parse_mint_def parse_send_def
  by (intro field_safe res_bind_safe amount_loop_safe, simp)+

lemma parse_action_safe: "parse_action tt chunks cit \<noteq> Oob"
  by (simp add: parse_action_def Let_def parse_message_safe)

lemma slp_hydrate_safe: "slp_hydrate this spk \<noteq> None"
  using parse_head_safe parse_action_safe
  by (auto simp: slp_hydrate_def Let_def split: res.splits)

text \<open>What the rest of the program relies on: the type tells the payload, and a SEND is short.\<close>

definition slp_msg_ok :: "slp_transaction \<Rightarrow> bool" where
  "slp_msg_ok t \<longleftrightarrow> slp_type t = variant_type (slp_tx t) \<and> (\<forall>s. slp_tx t = SlpSend s \<longrightarrow> length (amounts s) \<le> 19)"

lemma slp_hydrate_msg_ok:
  assumes "slp_hydrate this spk = Some (ok, t)"
  shows "slp_msg_ok t"
proof (cases ok)
  case True
  with assms obtain tt i v where "slp_script tt i v spk" "t = hydrated this tt i v"
    by (auto simp: slp_hydrate_Some_iff)
  then show ?thesis by (cases v) (auto simp: hydrated_def slp_script_def slp_msg_ok_def)
next
  case False
  with assms show ?thesis
    by (auto simp: slp_hydrate_def slp_set_invalid_def slp_msg_ok_def Let_def split: res.splits)
qed

text \<open>The SLP parser never reads outside its input, and always reports: for every script, of any
  length and content, it returns success or failure, and after a failure the transaction is marked
  invalid, while a success is of the type of its payload.\<close>

theorem slp_hydrate_total:
  "\<exists>ok t. slp_hydrate this spk = Some (ok, t) \<and> slp_type t = variant_type (slp_tx t) \<and> (ok \<longleftrightarrow> slp_type t \<noteq> TInvalid)"
proof -
  obtain ok t where r: "slp_hydrate this spk = Some (ok, t)"
    using slp_hydrate_safe [of this spk] by (cases "slp_hydrate this spk") auto
  have "slp_type t = variant_type (slp_tx t) \<and> (ok \<longleftrightarrow> slp_type t \<noteq> TInvalid)"
  proof (cases ok)
    case True
    with r obtain tt i v where "slp_script tt i v spk" "t = hydrated this tt i v"
      by (auto simp: slp_hydrate_Some_iff)
    then show ?thesis using True by (cases v) (auto simp: hydrated_def slp_script_def)
  next
    case False
    with r show ?thesis
      by (auto simp: slp_hydrate_def slp_set_invalid_def Let_def split: res.splits)
  qed
  with r show ?thesis by blast
qed

text \<open>C16: The parser accepts exactly the scripts of the grammar: it returns success with a given
  transaction if and only if the script is OP_RETURN followed by push operations, of any of the
  four push forms, whose chunks spell a valid message, and the transaction holds that message.\<close>

theorem slp_hydrate_iff:
  "slp_hydrate this spk = Some (True, t) \<longleftrightarrow>
     (\<exists>tt i v. slp_script tt i v spk \<and> t = hydrated this tt i v)"
  by (rule slp_hydrate_Some_iff)

text \<open>No script has two readings: two messages that spell the same script have the same token
  type and payload, and the same token id where the message carries one.\<close>

theorem slp_script_unambiguous:
  assumes "slp_script tt i v spk" and "slp_script tt' i' v' spk"
  shows "tt = tt' \<and> v = v' \<and> (is_genesis v \<or> i = i')"
proof -
  let ?t = "slp_transaction_new 0"
  have "slp_hydrate ?t spk = Some (True, hydrated ?t tt i v)"
    and "slp_hydrate ?t spk = Some (True, hydrated ?t tt' i' v')"
    using assms by (auto simp: slp_hydrate_Some_iff)
  then have "hydrated ?t tt i v = hydrated ?t tt' i' v'" by simp
  then show ?thesis by (auto simp: hydrated_def slp_transaction_new_def split: if_splits)
qed

definition example_send :: bytes where
  "example_send = 0x6A # 4 # lokad_id @ 1 # 1 # 4 # ascii ''SEND'' @ 32 # replicate 32 7 @ 8 # [0, 0, 0, 0, 0, 0, 1, 0]"

lemma example_send_script: "slp_script 1 (replicate 32 7) (SlpSend \<lparr>amounts = [256]\<rparr>) example_send"
  unfolding slp_script_def
proof (intro conjI exI)
  show "example_send = 0x6A # pushes [(PushDirect, lokad_id), (PushDirect, [1]), (PushDirect, ascii ''SEND''),
      (PushDirect, rev (replicate 32 7)), (PushDirect, qty_chunk 256)]"
    by (simp add: example_send_def push_bytes_def lokad_id_eq qty_chunk_def le_bytes_numeral byte_of_char_def)
qed (simp_all add: token_type_chunk_def be_nat_def lokad_id_eq)

theorem slp_script_unambiguous_witness:
  "\<nexists>i. slp_script 1 i (SlpSend \<lparr>amounts = [255]\<rparr>) example_send"
  using slp_script_unambiguous [OF example_send_script, of 1 _ "SlpSend \<lparr>amounts = [255]\<rparr>"] by auto

end
