(* ===== verification/Transaction.thy ===== *)
theory Transaction
  imports SlpTransaction
begin

text \<open>
  Bitcoin Cash transactions: \<open>include/gs++/output.hpp\<close>, the parser \<open>transaction::hydrate\<close> of
  \<open>include/gs++/transaction.hpp\<close> and the accessors of \<open>src/transaction.cpp\<close>. The hash
  \<open>sha256\<close> is a parameter. The parser keeps the fields it has filled when it fails, so a
  failure carries the object.
\<close>

section \<open>Outputs and transactions\<close>

type_synonym txid = bytes
type_synonym tokenid = bytes
type_synonym scriptpubkey = bytes

record outpoint =
  op_txid :: txid
  op_vout :: u32

record gs_output =
  prev_tx_id :: txid
  prev_out_idx :: u32
  out_value :: u64
  out_script :: scriptpubkey

definition is_op_return :: "gs_output \<Rightarrow> bool" where
  "is_op_return o' \<longleftrightarrow> length (out_script o') > 0 \<and> out_script o' ! 0 = 0x6A"

record transaction =
  txid :: txid
  version :: u32
  lock_time :: u32
  inputs :: "outpoint list"
  outputs :: "gs_output list"
  slp :: slp_transaction
  serialized :: bytes

text \<open>The default constructor, with the two integers it leaves unset as arguments.\<close>

definition transaction_new :: "u32 \<Rightarrow> u32 \<Rightarrow> u16 \<Rightarrow> transaction" where
  "transaction_new v lt tt = \<lparr>txid = replicate 32 0, version = v, lock_time = lt, inputs = [], outputs = [],
     slp = slp_transaction_new tt, serialized = []\<rparr>"

section \<open>Parsing\<close>

type_synonym 'a tx_parse = "(transaction, 'a) res"

definition MAX_TX_SIZE :: nat where
  "MAX_TX_SIZE = 1000000"

text \<open>A read of the integer library, which cannot fail, in the parser of \<open>this\<close>.\<close>

fun reading :: "'o \<Rightarrow> 'a parse \<Rightarrow> ('o, 'a) res" where
  "reading this (Ok x) = Ok x"
| "reading this (Fail e) = Fail this"
| "reading this Oob = Oob"

definition check_end :: "nat \<Rightarrow> 'o \<Rightarrow> bytes \<Rightarrow> ('o, 'a) res \<Rightarrow> ('o, 'a) res" where
  "check_end n this it k = (if length it \<le> n then Fail this else k)"

definition tx_check :: "bool \<Rightarrow> transaction \<Rightarrow> 'a tx_parse \<Rightarrow> 'a tx_parse" where
  "tx_check c this k = (if c then Fail this else k)"

definition copy_bytes :: "nat \<Rightarrow> bytes \<Rightarrow> (bytes \<times> bytes) parse" where
  "copy_bytes n it = (if length it < n then Oob else Ok (take n it, drop n it))"

text \<open>\<open>CHECK_END(1+var_int_additional_size(it))\<close> and the integer after it.\<close>

definition checked_var_int :: "transaction \<Rightarrow> bytes \<Rightarrow> (u64 \<times> bytes) tx_parse" where
  "checked_var_int this it = res_bind (reading this (var_int_additional_size it)) (\<lambda>n.
     check_end (1 + n) this it (reading this (extract_var_int it)))"

definition read_input :: "transaction \<Rightarrow> bytes \<Rightarrow> (transaction \<times> bytes) tx_parse" where
  "read_input this it =
     check_end 32 this it (res_bind (reading this (copy_bytes 32 it)) (\<lambda>(prev_tx_id, it).
     check_end 4 this it (res_bind (reading this (extract_u32 it)) (\<lambda>(prev_out_idx, it).
     res_bind (checked_var_int this it) (\<lambda>(script_len, it).
     tx_check (unat script_len \<ge> MAX_TX_SIZE) this (
     check_end (unat script_len) this it (res_bind (reading this (copy_bytes (unat script_len) it)) (\<lambda>(sigscript, it).
     check_end 4 this it (res_bind (reading this (extract_u32 it)) (\<lambda>(sequence, it).
     Ok (this\<lparr>inputs := inputs this @ [\<lparr>op_txid = prev_tx_id, op_vout = prev_out_idx\<rparr>]\<rparr>, it)))))))))))"

fun read_inputs :: "nat \<Rightarrow> transaction \<Rightarrow> bytes \<Rightarrow> (transaction \<times> bytes) tx_parse" where
  "read_inputs 0 this it = Ok (this, it)"
| "read_inputs (Suc n) this it = res_bind (read_input this it) (\<lambda>(this, it). read_inputs n this it)"

text \<open>\<open>std::abs\<close> of a signed 64-bit integer, with the usual wrap for the least one.\<close>

definition abs_i64 :: "u64 \<Rightarrow> u64" where
  "abs_i64 w = word_of_int \<bar>sint w\<bar>"

definition read_output :: "nat \<Rightarrow> transaction \<Rightarrow> bytes \<Rightarrow> (transaction \<times> bytes) tx_parse" where
  "read_output out_i this it =
     check_end 8 this it (res_bind (reading this (extract_u64 it)) (\<lambda>(value, it).
     res_bind (checked_var_int this it) (\<lambda>(script_len, it).
     tx_check (unat script_len \<ge> MAX_TX_SIZE) this (
     check_end (unat script_len) this it (res_bind (reading this (copy_bytes (unat script_len) it)) (\<lambda>(spk, it).
     Ok (this\<lparr>outputs := outputs this @ [\<lparr>prev_tx_id = replicate 32 0, prev_out_idx = of_nat out_i,
       out_value = abs_i64 value, out_script = spk\<rparr>]\<rparr>, it)))))))"

fun read_outputs :: "nat \<Rightarrow> nat \<Rightarrow> transaction \<Rightarrow> bytes \<Rightarrow> (transaction \<times> bytes) tx_parse" where
  "read_outputs 0 out_i this it = Ok (this, it)"
| "read_outputs (Suc n) out_i this it = res_bind (read_output out_i this it)
     (\<lambda>(this, it). read_outputs n (Suc out_i) this it)"

text \<open>The end: the serialized bytes, the id, the outputs' id, and the SLP message.\<close>

definition set_slp :: "u16 \<Rightarrow> transaction \<Rightarrow> transaction tx_parse" where
  "set_slp tt this =
     (if outputs this \<noteq> [] \<and> is_op_return (outputs this ! 0)
      then (case slp_transaction_of_script tt (out_script (outputs this ! 0)) of
          None \<Rightarrow> Oob
        | Some s \<Rightarrow> Ok (this\<lparr>slp := (if slp_type s = TGenesis then s\<lparr>slp_tokenid := txid this\<rparr> else s)\<rparr>))
      else Ok this)"

definition finish_tx :: "(bytes \<Rightarrow> bytes) \<Rightarrow> u16 \<Rightarrow> bytes \<Rightarrow> transaction \<Rightarrow> bytes \<Rightarrow> transaction tx_parse" where
  "finish_tx sha256 tt begin_it this it = (let
       ser = take (length begin_it - length it) begin_it;
       this = this\<lparr>serialized := ser, txid := sha256 (sha256 ser)\<rparr>;
       this = this\<lparr>outputs := map (\<lambda>m. m\<lparr>prev_tx_id := txid this\<rparr>) (outputs this)\<rparr>
     in set_slp tt this)"

definition tx_hydrate :: "(bytes \<Rightarrow> bytes) \<Rightarrow> u16 \<Rightarrow> transaction \<Rightarrow> bytes \<Rightarrow> transaction tx_parse" where
  "tx_hydrate sha256 tt this begin_it =
     check_end 4 this begin_it (res_bind (reading this (extract_i32 begin_it)) (\<lambda>(v, it).
     let this = this\<lparr>version := v\<rparr> in
     res_bind (checked_var_int this it) (\<lambda>(in_count, it).
     tx_check (unat in_count \<ge> MAX_TX_SIZE) this (
     res_bind (read_inputs (unat in_count) this it) (\<lambda>(this, it).
     res_bind (checked_var_int this it) (\<lambda>(out_count, it).
     tx_check (unat out_count \<ge> MAX_TX_SIZE) this (
     res_bind (read_outputs (unat out_count) 0 this it) (\<lambda>(this, it).
     check_end (4 - 1) this it (res_bind (reading this (extract_u32 it)) (\<lambda>(lt, it).
     finish_tx sha256 tt begin_it (this\<lparr>lock_time := lt\<rparr>) it))))))))))"

section \<open>Accessors\<close>

definition output_slp_amount :: "transaction \<Rightarrow> u64 \<Rightarrow> u64" where
  "output_slp_amount tx vout = (case slp_tx (slp tx) of
       SlpSend s \<Rightarrow> if vout > 0 \<and> unat (vout - 1) < length (amounts s) then amounts s ! unat (vout - 1) else 0
     | SlpMint s \<Rightarrow> if vout = 1 then mint_qty s else 0
     | SlpGenesis s \<Rightarrow> if vout = 1 then genesis_qty s else 0
     | SlpInvalid \<Rightarrow> 0)"

text \<open>An output number of 0 means no mint baton.\<close>

definition mint_baton_outpoint :: "transaction \<Rightarrow> outpoint" where
  "mint_baton_outpoint tx = (case slp_tx (slp tx) of
       SlpMint s \<Rightarrow> if unat (mint_mint_baton_vout s) < length (outputs tx)
         then \<lparr>op_txid = txid tx, op_vout = mint_mint_baton_vout s\<rparr> else \<lparr>op_txid = txid tx, op_vout = 0\<rparr>
     | SlpGenesis s \<Rightarrow> if unat (genesis_mint_baton_vout s) < length (outputs tx)
         then \<lparr>op_txid = txid tx, op_vout = genesis_mint_baton_vout s\<rparr> else \<lparr>op_txid = txid tx, op_vout = 0\<rparr>
     | _ \<Rightarrow> \<lparr>op_txid = txid tx, op_vout = 0\<rparr>)"

text \<open>\<open>outputs[i]\<close>, out of bounds when there is no such output.\<close>

definition output_at :: "transaction \<Rightarrow> nat \<Rightarrow> gs_output parse" where
  "output_at tx i = (if i < length (outputs tx) then Ok (outputs tx ! i) else Oob)"

definition minting_outputs :: "transaction \<Rightarrow> u32 \<Rightarrow> gs_output list parse" where
  "minting_outputs tx baton = res_bind (output_at tx 1) (\<lambda>o1.
     if unat baton \<ge> length (outputs tx) \<or> baton = 0 then Ok [o1]
     else res_bind (output_at tx (unat baton)) (\<lambda>ob. Ok [o1, ob]))"

definition slp_outputs :: "transaction \<Rightarrow> gs_output list parse" where
  "slp_outputs tx = (case slp_tx (slp tx) of
       SlpSend s \<Rightarrow> if outputs tx = [] then Oob
         else if length (amounts s) \<ge> length (outputs tx) - 1 then Ok (drop 1 (outputs tx))
         else Ok (take (length (amounts s)) (drop 1 (outputs tx)))
     | SlpMint s \<Rightarrow> minting_outputs tx (mint_mint_baton_vout s)
     | SlpGenesis s \<Rightarrow> minting_outputs tx (genesis_mint_baton_vout s)
     | SlpInvalid \<Rightarrow> Ok [])"


section \<open>The parser stays inside its input\<close>

lemma check_end_Ok: "check_end n this it k = Ok y \<longleftrightarrow> n < length it \<and> k = Ok y"
  by (auto simp: check_end_def)

lemma tx_check_Ok: "tx_check c this k = Ok y \<longleftrightarrow> \<not> c \<and> k = Ok y"
  by (auto simp: tx_check_def)

lemma reading_Ok: "reading this m = Ok y \<longleftrightarrow> m = Ok y"
  by (cases m) auto

lemma reading_Oob: "reading this m = Oob \<longleftrightarrow> m = Oob"
  by (cases m) auto

lemma check_end_Oob: "check_end n this it k = Oob \<longleftrightarrow> n < length it \<and> k = Oob"
  by (auto simp: check_end_def)

lemma tx_check_Oob: "tx_check c this k = Oob \<longleftrightarrow> \<not> c \<and> k = Oob"
  by (auto simp: tx_check_def)

lemma copy_bytes_Ok: "copy_bytes n it = Ok (b, it') \<longleftrightarrow> it = b @ it' \<and> length b = n"
  by (auto simp: copy_bytes_def)

lemma extract_sizes:
  "extract_u16 it = Ok (a, r) \<Longrightarrow> length it = 2 + length r"
  "extract_u32 it = Ok (b, r) \<Longrightarrow> length it = 4 + length r"
  "extract_u64 it = Ok (c, r) \<Longrightarrow> length it = 8 + length r"
  "extract_i32 it = Ok (b, r) \<Longrightarrow> length it = 4 + length r"
  by (auto simp: extract_i32_def extract_u32_def [symmetric] dest!: extract_used)

lemma extract_Oob:
  "extract_u16 it = Oob \<longleftrightarrow> length it < 2"
  "extract_u32 it = Oob \<longleftrightarrow> length it < 4"
  "extract_u64 it = Oob \<longleftrightarrow> length it < 8"
  "extract_i32 it = Oob \<longleftrightarrow> length it < 4"
  "copy_bytes n it = Oob \<longleftrightarrow> length it < n"
  by (auto simp: extract_u16_def extract_u32_def extract_u64_def extract_i32_def res_bind_Oob copy_int_Oob
      copy_bytes_def)

lemma var_int_size:
  assumes "it \<noteq> []"
  obtains k where "var_int_additional_size it = Ok k" "extract_var_int it \<noteq> Oob \<longleftrightarrow> k < length it"
    "\<forall>n r. extract_var_int it = Ok (n, r) \<longrightarrow> length it = Suc k + length r"
proof -
  obtain b r where it: "it = b # r" using assms by (cases it) auto
  consider "b < 0xFD" | "b = 0xFD" | "b = 0xFE" | "\<not> b < 0xFD" "b \<noteq> 0xFD" "b \<noteq> 0xFE" by blast
  then show thesis
  proof cases
    case 1
    then show thesis
      by (intro that [of 0]) (auto simp: it var_int_additional_size_def extract_var_int_def)
  next
    case 2
    then show thesis
      by (intro that [of 2])
        (auto simp: it var_int_additional_size_def extract_var_int_def res_bind_Oob res_bind_Ok extract_Oob
          dest!: extract_sizes)
  next
    case 3
    then show thesis
      by (intro that [of 4])
        (auto simp: it var_int_additional_size_def extract_var_int_def res_bind_Oob res_bind_Ok extract_Oob
          dest!: extract_sizes)
  next
    case 4
    then show thesis
      by (intro that [of 8])
        (auto simp: it var_int_additional_size_def extract_var_int_def extract_Oob dest!: extract_sizes)
  qed
qed

lemma checked_var_int_safe: "it \<noteq> [] \<Longrightarrow> checked_var_int this it \<noteq> Oob"
  by (erule var_int_size) (auto simp: checked_var_int_def check_end_Oob reading_Oob)

lemma checked_var_int_left: "checked_var_int this it = Ok (n, r) \<Longrightarrow> r \<noteq> []"
proof -
  assume a: "checked_var_int this it = Ok (n, r)"
  then have "it \<noteq> []" by (auto simp: checked_var_int_def var_int_additional_size_def)
  then obtain k where k: "var_int_additional_size it = Ok k"
    "\<forall>n r. extract_var_int it = Ok (n, r) \<longrightarrow> length it = Suc k + length r"
    by (rule var_int_size)
  with a have "extract_var_int it = Ok (n, r)" and "Suc k < length it"
    by (auto simp: checked_var_int_def check_end_Ok reading_Ok)
  with k(2) show ?thesis by fastforce
qed

lemmas tx_Ok = res_bind_Ok check_end_Ok tx_check_Ok reading_Ok copy_bytes_Ok
lemmas tx_Oob = res_bind_Oob check_end_Oob tx_check_Oob reading_Oob extract_Oob

lemma read_input_left: "read_input this it = Ok (this', r) \<Longrightarrow> r \<noteq> []"
  by (auto simp: read_input_def tx_Ok dest!: extract_sizes)

lemma read_output_left: "read_output i this it = Ok (this', r) \<Longrightarrow> r \<noteq> []"
  by (auto simp: read_output_def tx_Ok)

lemma read_input_safe: "read_input this it \<noteq> Oob"
  by (auto simp: read_input_def tx_Oob reading_Ok copy_bytes_Ok checked_var_int_safe
      dest!: extract_sizes checked_var_int_left)

lemma read_output_safe: "read_output i this it \<noteq> Oob"
  by (auto simp: read_output_def tx_Oob reading_Ok copy_bytes_Ok checked_var_int_safe
      dest!: extract_sizes checked_var_int_left)

lemma read_inputs_left: "read_inputs n this it = Ok (this', r) \<Longrightarrow> it \<noteq> [] \<Longrightarrow> r \<noteq> []"
  by (induction n arbitrary: this it) (auto simp: res_bind_Ok dest: read_input_left)

lemma read_outputs_left: "read_outputs n i this it = Ok (this', r) \<Longrightarrow> it \<noteq> [] \<Longrightarrow> r \<noteq> []"
  by (induction n arbitrary: this it i) (auto simp: res_bind_Ok dest: read_output_left)

lemma read_inputs_safe: "read_inputs n this it \<noteq> Oob"
  by (induction n arbitrary: this it) (auto simp: res_bind_Oob read_input_safe)

lemma read_outputs_safe: "read_outputs n i this it \<noteq> Oob"
  by (induction n arbitrary: this it i) (auto simp: res_bind_Oob read_output_safe)

lemma set_slp_safe: "set_slp tt this \<noteq> Oob"
  by (auto simp: set_slp_def slp_transaction_of_script_def slp_hydrate_safe split: option.splits)


lemma tx_hydrate_not_Oob: "tx_hydrate sha256 tt this it \<noteq> Oob"
  by (auto simp: tx_hydrate_def Let_def tx_Oob finish_tx_def set_slp_safe read_inputs_safe read_outputs_safe
      checked_var_int_safe reading_Ok
      dest!: extract_sizes checked_var_int_left read_inputs_left)

text \<open>C23: Parsing a transaction never reads outside the buffer it is given: on any bytes at all, and
  whatever the object held before, \<open>hydrate\<close> either succeeds or returns false.\<close>

theorem tx_hydrate_safe:
  "(\<exists>t. tx_hydrate sha256 tt this it = Ok t) \<or> (\<exists>t. tx_hydrate sha256 tt this it = Fail t)"
  using tx_hydrate_not_Oob [of sha256 tt this it] by (cases "tx_hydrate sha256 tt this it") auto

section \<open>Serialized transactions\<close>

record tx_input =
  in_outpoint :: outpoint
  in_script :: bytes
  in_sequence :: u32

definition var_int_nat :: "nat \<Rightarrow> bytes" where
  "var_int_nat n = num_to_var_int (of_nat n)"

definition ser_input :: "tx_input \<Rightarrow> bytes" where
  "ser_input i = op_txid (in_outpoint i) @ le_bytes 4 (unat (op_vout (in_outpoint i)))
     @ var_int_nat (length (in_script i)) @ in_script i @ le_bytes 4 (unat (in_sequence i))"

definition ser_output :: "u64 \<times> bytes \<Rightarrow> bytes" where
  "ser_output p = le_bytes 8 (unat (fst p)) @ var_int_nat (length (snd p)) @ snd p"

definition ser_tx :: "u32 \<Rightarrow> tx_input list \<Rightarrow> (u64 \<times> bytes) list \<Rightarrow> u32 \<Rightarrow> bytes" where
  "ser_tx v ins outs lt = le_bytes 4 (unat v) @ var_int_nat (length ins) @ concat (map ser_input ins)
     @ var_int_nat (length outs) @ concat (map ser_output outs) @ le_bytes 4 (unat lt)"

definition input_ok :: "tx_input \<Rightarrow> bool" where
  "input_ok i \<longleftrightarrow> length (op_txid (in_outpoint i)) = 32 \<and> length (in_script i) < MAX_TX_SIZE"

definition output_ok :: "u64 \<times> bytes \<Rightarrow> bool" where
  "output_ok p \<longleftrightarrow> unat (fst p) < 2 ^ 63 \<and> length (snd p) < MAX_TX_SIZE"

lemma reading_u32: "reading this (extract_u32 (le_bytes 4 (unat n) @ it)) = Ok (n, it)"
  by (simp add: extract_u32_le_bytes)

lemma unat_of_nat_u64: "n < MAX_TX_SIZE \<Longrightarrow> unat (of_nat n :: u64) = n"
  by (simp add: unat_of_nat MAX_TX_SIZE_def)

lemma checked_var_int_ser:
  assumes "it \<noteq> []" and "n < MAX_TX_SIZE"
  shows "checked_var_int this (var_int_nat n @ it) = Ok (of_nat n, it)"
proof -
  have "var_int_nat n @ it \<noteq> []" using assms(1) by simp
  then obtain k where k: "var_int_additional_size (var_int_nat n @ it) = Ok k"
    "\<forall>m r. extract_var_int (var_int_nat n @ it) = Ok (m, r) \<longrightarrow> length (var_int_nat n @ it) = Suc k + length r"
    by (rule var_int_size)
  moreover have e: "extract_var_int (var_int_nat n @ it) = Ok (of_nat n, it)"
    by (simp add: var_int_nat_def extract_num_to_var_int)
  ultimately have "length (var_int_nat n @ it) = Suc k + length it" by blast
  with assms(1) have "Suc k < length (var_int_nat n @ it)" by simp
  then show ?thesis using k(1) e by (simp add: checked_var_int_def check_end_def del: length_append)
qed

lemma read_input_ser:
  assumes "input_ok i" and "it \<noteq> []"
  shows "read_input this (ser_input i @ it) = Ok (this\<lparr>inputs := inputs this @ [in_outpoint i]\<rparr>, it)"
proof -
  obtain o' s q where i: "i = \<lparr>in_outpoint = o', in_script = s, in_sequence = q\<rparr>"
    by (rule tx_input.cases)
  obtain h vout where o': "o' = \<lparr>op_txid = h, op_vout = vout\<rparr>"
    by (rule outpoint.cases)
  show ?thesis
    using assms unfolding i o'
    by (simp add: input_ok_def read_input_def ser_input_def check_end_def tx_check_def copy_bytes_def reading_u32
        checked_var_int_ser unat_of_nat_u64)
qed

lemma read_inputs_ser:
  "list_all input_ok ins \<Longrightarrow> it \<noteq> [] \<Longrightarrow> read_inputs (length ins) this (concat (map ser_input ins) @ it)
     = Ok (this\<lparr>inputs := inputs this @ map in_outpoint ins\<rparr>, it)"
  by (induction ins arbitrary: this) (simp_all add: read_input_ser)

definition out_of :: "txid \<Rightarrow> nat \<Rightarrow> (u64 \<times> bytes) list \<Rightarrow> gs_output list" where
  "out_of h i outs = map (\<lambda>(j, p). \<lparr>prev_tx_id = h, prev_out_idx = of_nat j, out_value = fst p, out_script = snd p\<rparr>)
     (enumerate i outs)"

lemma abs_i64_small:
  assumes "unat w < 2 ^ 63"
  shows "abs_i64 w = w"
proof -
  define n where "n = unat w"
  have n: "int n < 2 ^ 63" using assms unfolding n_def by (metis of_nat_less_numeral_power_cancel_iff)
  have u: "uint w = int n" by (simp add: n_def)
  have "signed_take_bit 63 (int n) = int n"
    by (rule signed_take_bit_int_eq_self) (use n in simp_all)
  then have "sint w = int n" unfolding sint_uint u by simp
  then have "abs_i64 w = of_nat n" by (simp add: abs_i64_def)
  then show ?thesis by (simp add: n_def)
qed

lemma read_output_ser:
  assumes "output_ok p" and "it \<noteq> []"
  shows "read_output i this (ser_output p @ it) = Ok (this\<lparr>outputs := outputs this @ out_of (replicate 32 0) i [p]\<rparr>, it)"
  using assms
  by (simp add: read_output_def ser_output_def output_ok_def check_end_def tx_check_def copy_bytes_def
      extract_u64_le_bytes checked_var_int_ser unat_of_nat_u64 out_of_def abs_i64_small)

lemma read_outputs_ser:
  "list_all output_ok outs \<Longrightarrow> it \<noteq> [] \<Longrightarrow> read_outputs (length outs) i this (concat (map ser_output outs) @ it)
     = Ok (this\<lparr>outputs := outputs this @ out_of (replicate 32 0) i outs\<rparr>, it)"
  by (induction outs arbitrary: this i) (simp_all add: read_output_ser out_of_def)


lemma map_out_of: "map (\<lambda>m. m\<lparr>prev_tx_id := h'\<rparr>) (out_of h i outs) = out_of h' i outs"
  by (simp add: out_of_def case_prod_beta)

lemma set_slp_Ok:
  assumes "set_slp tt this = Ok t"
  shows "\<exists>s. t = this\<lparr>slp := s\<rparr> \<and> (slp_type s = TGenesis \<longrightarrow> slp_type (slp this) = TGenesis \<or> slp_tokenid s = txid this)
    \<and> (slp_msg_ok (slp this) \<longrightarrow> slp_msg_ok s)"
proof (cases "outputs this \<noteq> [] \<and> is_op_return (outputs this ! 0)")
  case True
  have "slp_msg_ok s" if "slp_transaction_of_script tt spk = Some s" for s spk
    using that by (auto simp: slp_transaction_of_script_def dest: slp_hydrate_msg_ok)
  with True assms show ?thesis by (auto simp: set_slp_def slp_msg_ok_def split: option.splits if_splits)
next
  case False
  with assms have "t = this\<lparr>slp := slp this\<rparr>" by (auto simp: set_slp_def)
  then show ?thesis by blast
qed

lemma set_slp_total: "\<exists>t. set_slp tt this = Ok t"
proof (cases "set_slp tt this")
  case (Fail e)
  then show ?thesis by (auto simp: set_slp_def split: if_splits option.splits)
qed (use set_slp_safe in auto)

lemma le_bytes_Nil [simp]: "le_bytes k n = [] \<longleftrightarrow> k = 0"
  by (cases k) auto

lemma length_var_int_nat: "var_int_nat n \<noteq> []"
  by (simp add: var_int_nat_def num_to_var_int_eq)

text \<open>The object a serialized transaction fills, before its SLP message is read.\<close>

definition ser_object :: "(bytes \<Rightarrow> bytes) \<Rightarrow> u16 \<Rightarrow> u32 \<Rightarrow> tx_input list \<Rightarrow> (u64 \<times> bytes) list \<Rightarrow> u32 \<Rightarrow> transaction" where
  "ser_object sha256 t0 v ins outs lt = (let ser = ser_tx v ins outs lt; h = sha256 (sha256 ser) in
     \<lparr>txid = h, version = v, lock_time = lt, inputs = map in_outpoint ins, outputs = out_of h 0 outs,
       slp = slp_transaction_new t0, serialized = ser\<rparr>)"

lemma tx_hydrate_ser_eq:
  assumes "list_all input_ok ins" and "list_all output_ok outs"
    and "length ins < MAX_TX_SIZE" and "length outs < MAX_TX_SIZE"
  shows "tx_hydrate sha256 tt (transaction_new v0 l0 t0) (ser_tx v ins outs lt @ rest) = set_slp tt (ser_object sha256 t0 v ins outs lt)"
proof -
  let ?ser = "ser_tx v ins outs lt"
  let ?obj = "(transaction_new v0 l0 t0)\<lparr>version := v, inputs := map in_outpoint ins,
    outputs := out_of (replicate 32 0) 0 outs, lock_time := lt\<rparr>"
  have i: "reading this (extract_i32 (le_bytes 4 (unat v) @ it)) = Ok (v, it)" for this it
    by (simp add: extract_i32_def extract_u32_def [symmetric] extract_u32_le_bytes)
  have "4 < length (?ser @ rest)"
    using length_var_int_nat [of "length ins"] by (simp add: ser_tx_def)
  then have "tx_hydrate sha256 tt (transaction_new v0 l0 t0) (?ser @ rest) = finish_tx sha256 tt (?ser @ rest) ?obj rest"
    using assms length_var_int_nat
    by (simp add: tx_hydrate_def check_end_def tx_check_def Let_def ser_tx_def i checked_var_int_ser unat_of_nat_u64
        read_inputs_ser read_outputs_ser reading_u32 transaction_new_def append_eq_Cons_conv)
  also have "\<dots> = set_slp tt (ser_object sha256 t0 v ins outs lt)"
    by (simp add: finish_tx_def ser_object_def Let_def map_out_of transaction_new_def)
  finally show ?thesis .
qed

lemma tx_hydrate_ser:
  assumes "list_all input_ok ins" and "list_all output_ok outs"
    and "length ins < MAX_TX_SIZE" and "length outs < MAX_TX_SIZE"
  shows "\<exists>t. tx_hydrate sha256 tt (transaction_new v0 l0 t0) (ser_tx v ins outs lt @ rest) = Ok t
     \<and> version t = v \<and> lock_time t = lt \<and> inputs t = map in_outpoint ins
     \<and> serialized t = ser_tx v ins outs lt \<and> txid t = sha256 (sha256 (serialized t))
     \<and> outputs t = out_of (txid t) 0 outs"
proof -
  let ?obj = "ser_object sha256 t0 v ins outs lt"
  obtain t where t: "set_slp tt ?obj = Ok t" using set_slp_total by blast
  with set_slp_Ok obtain s where "t = ?obj\<lparr>slp := s\<rparr>" by blast
  with t show ?thesis by (simp add: tx_hydrate_ser_eq [OF assms] ser_object_def Let_def)
qed


text \<open>C24: A serialized transaction with any bytes after it parses into its own fields: version, lock
  time, the outpoints it spends, its outputs in order and numbered from 0; the parser keeps exactly
  the serialized bytes, and the id is their double hash and the id of every output.\<close>

theorem tx_roundtrip:
  assumes "list_all input_ok ins" and "list_all output_ok outs"
    and "length ins < MAX_TX_SIZE" and "length outs < MAX_TX_SIZE"
  shows "\<exists>t. tx_hydrate sha256 tt (transaction_new v0 l0 t0) (ser_tx v ins outs lt @ rest) = Ok t
     \<and> version t = v \<and> lock_time t = lt \<and> inputs t = map in_outpoint ins
     \<and> serialized t = ser_tx v ins outs lt \<and> txid t = sha256 (sha256 (serialized t))
     \<and> outputs t = out_of (txid t) 0 outs"
  using assms by (rule tx_hydrate_ser)

text \<open>The serialization of a transaction with one input and one output, used as an example.\<close>

definition example_ins :: "tx_input list" where
  "example_ins = [\<lparr>in_outpoint = \<lparr>op_txid = replicate 32 9, op_vout = 1\<rparr>, in_script = [1, 2], in_sequence = 0\<rparr>]"

theorem tx_roundtrip_witness:
  "\<exists>t. tx_hydrate id 0 (transaction_new 0 0 0) (ser_tx 2 example_ins [(546, [0x51])] 7 @ [0xFF]) = Ok t
     \<and> inputs t = [\<lparr>op_txid = replicate 32 9, op_vout = 1\<rparr>] \<and> lock_time t = 7"
  using tx_roundtrip [of example_ins "[(546, [0x51])]" id 0 0 0 0 2 7 "[0xFF]"]
  by (auto simp: example_ins_def input_ok_def output_ok_def MAX_TX_SIZE_def)

section \<open>What a parsed transaction promises\<close>

text \<open>The bytes an operation consumed.\<close>

definition consumes :: "bytes \<Rightarrow> bytes \<Rightarrow> bool" where
  "consumes it r \<longleftrightarrow> (\<exists>used. it = used @ r)"

lemma consumes_refl [simp]: "consumes it it"
  by (simp add: consumes_def)

lemma consumes_trans: "consumes a b \<Longrightarrow> consumes b c \<Longrightarrow> consumes a c"
  by (auto simp: consumes_def)

lemma consumes_append [simp]: "consumes (u @ r) r"
  by (auto simp: consumes_def)

lemma extract_consumes:
  "extract_u32 it = Ok (a, r) \<Longrightarrow> consumes it r" "extract_u64 it = Ok (b, r) \<Longrightarrow> consumes it r"
  "extract_i32 it = Ok (c, r) \<Longrightarrow> consumes it r" "extract_var_int it = Ok (d, r) \<Longrightarrow> consumes it r"
  by (auto simp: extract_i32_def extract_u32_def [symmetric] dest!: extract_used elim!: extract_var_int_cases)
    (auto simp: consumes_def)

lemma checked_var_int_consumes: "checked_var_int obj it = Ok (n, r) \<Longrightarrow> consumes it r"
  by (auto simp: checked_var_int_def tx_Ok dest: extract_consumes)

lemma read_input_Ok:
  "read_input obj it = Ok (obj', r) \<Longrightarrow> consumes it r \<and> (\<exists>i. obj' = obj\<lparr>inputs := inputs obj @ [i]\<rparr> \<and> length (op_txid i) = 32)"
  by (auto simp: read_input_def tx_Ok dest!: extract_consumes checked_var_int_consumes)
    (metis consumes_append consumes_trans)+


lemma read_output_Ok:
  "read_output i obj it = Ok (obj', r) \<Longrightarrow> consumes it r \<and>
     (\<exists>x. obj' = obj\<lparr>outputs := outputs obj @ [x]\<rparr> \<and> prev_out_idx x = of_nat i)"
  by (auto simp: read_output_def tx_Ok dest!: extract_consumes checked_var_int_consumes)
    (metis consumes_append consumes_trans)+

lemma read_inputs_Ok:
  "read_inputs n obj it = Ok (obj', r) \<Longrightarrow> consumes it r \<and>
     (\<exists>xs. obj' = obj\<lparr>inputs := inputs obj @ xs\<rparr> \<and> length xs = n \<and> (\<forall>i \<in> set xs. length (op_txid i) = 32))"
proof (induction n arbitrary: obj it)
  case 0
  then show ?case by (auto intro: exI [of _ "[]"])
next
  case (Suc n)
  then obtain o1 r1 where r1: "read_input obj it = Ok (o1, r1)" "read_inputs n o1 r1 = Ok (obj', r)"
    by (auto simp: res_bind_Ok)
  from read_input_Ok [OF r1(1)] obtain i where i: "consumes it r1" "o1 = obj\<lparr>inputs := inputs obj @ [i]\<rparr>"
    "length (op_txid i) = 32" by blast
  from Suc.IH [OF r1(2)] i obtain xs where "consumes r1 r" "obj' = obj\<lparr>inputs := inputs obj @ i # xs\<rparr>"
    "length xs = n" "\<forall>i \<in> set xs. length (op_txid i) = 32" by auto
  with i show ?case by (intro conjI exI [of _ "i # xs"]) (auto intro: consumes_trans)
qed

lemma read_outputs_Ok:
  "read_outputs n k obj it = Ok (obj', r) \<Longrightarrow> consumes it r \<and>
     (\<exists>os. obj' = obj\<lparr>outputs := outputs obj @ os\<rparr> \<and> map prev_out_idx os = map of_nat [k..<k + n])"
proof (induction n arbitrary: k obj it)
  case 0
  then show ?case by (auto intro: exI [of _ "[]"])
next
  case (Suc n)
  then obtain o1 r1 where r1: "read_output k obj it = Ok (o1, r1)" "read_outputs n (Suc k) o1 r1 = Ok (obj', r)"
    by (auto simp: res_bind_Ok)
  from read_output_Ok [OF r1(1)] obtain x where x: "consumes it r1" "o1 = obj\<lparr>outputs := outputs obj @ [x]\<rparr>"
    "prev_out_idx x = of_nat k" by blast
  from Suc.IH [OF r1(2)] x obtain os where os: "consumes r1 r" "obj' = obj\<lparr>outputs := outputs obj @ x # os\<rparr>"
    "map prev_out_idx os = map of_nat [Suc k..<Suc k + n]" by auto
  have "map prev_out_idx (x # os) = map of_nat [k..<k + Suc n]"
    using os(3) x(3) by (simp add: upt_conv_Cons del: upt_Suc)
  with os x show ?case by (intro conjI exI [of _ "x # os"]) (auto intro: consumes_trans)
qed

lemma tx_hydrate_Ok:
  assumes "tx_hydrate sha256 tt (transaction_new v0 l0 t0) it = Ok t"
  shows "\<exists>rest. it = serialized t @ rest \<and> txid t = sha256 (sha256 (serialized t))
    \<and> (\<forall>i \<in> set (inputs t). length (op_txid i) = 32)
    \<and> map prev_out_idx (outputs t) = map of_nat [0..<length (outputs t)]
    \<and> (\<forall>x \<in> set (outputs t). prev_tx_id x = txid t)
    \<and> (slp_type (slp t) = TGenesis \<longrightarrow> slp_tokenid (slp t) = txid t)
    \<and> slp_msg_ok (slp t) \<and> length (inputs t) < MAX_TX_SIZE"
proof -
  let ?o = "transaction_new v0 l0 t0"
  from assms obtain v r1 n1 r2 o2 r3 n2 r4 o3 r5 lt r6 where
    p: "extract_i32 it = Ok (v, r1)" "checked_var_int (?o\<lparr>version := v\<rparr>) r1 = Ok (n1, r2)"
      "read_inputs (unat n1) (?o\<lparr>version := v\<rparr>) r2 = Ok (o2, r3)" "checked_var_int o2 r3 = Ok (n2, r4)"
      "read_outputs (unat n2) 0 o2 r4 = Ok (o3, r5)" "extract_u32 r5 = Ok (lt, r6)"
    and f: "finish_tx sha256 tt it (o3\<lparr>lock_time := lt\<rparr>) r6 = Ok t" and b: "unat n1 < MAX_TX_SIZE"
    by (auto simp: tx_hydrate_def Let_def tx_Ok)
  have "consumes it r6"
    using extract_consumes(3) [OF p(1)] checked_var_int_consumes [OF p(2)] read_inputs_Ok [OF p(3)]
      checked_var_int_consumes [OF p(4)] read_outputs_Ok [OF p(5)] extract_consumes(1) [OF p(6)]
    by (metis consumes_trans)
  then obtain ser where it: "it = ser @ r6" by (auto simp: consumes_def)
  obtain xs where xs: "o2 = ?o\<lparr>version := v, inputs := xs\<rparr>" "\<forall>i \<in> set xs. length (op_txid i) = 32" "length xs = unat n1"
    using read_inputs_Ok [OF p(3)] by (auto simp: transaction_new_def)
  obtain os where os: "o3 = o2\<lparr>outputs := os\<rparr>" "map prev_out_idx os = map of_nat [0..<unat n2]"
    using read_outputs_Ok [OF p(5)] xs by (auto simp: transaction_new_def)
  let ?h = "sha256 (sha256 ser)"
  let ?t = "o3\<lparr>lock_time := lt, serialized := ser, txid := ?h, outputs := map (\<lambda>m. m\<lparr>prev_tx_id := ?h\<rparr>) os\<rparr>"
  have "set_slp tt ?t = Ok t" using f os by (simp add: finish_tx_def it Let_def)
  from set_slp_Ok [OF this] obtain s where t: "t = ?t\<lparr>slp := s\<rparr>"
    "slp_type s = TGenesis \<longrightarrow> slp_type (slp ?t) = TGenesis \<or> slp_tokenid s = ?h"
    "slp_msg_ok (slp ?t) \<longrightarrow> slp_msg_ok s" by auto
  have "slp_type (slp ?t) \<noteq> TGenesis" and "slp_msg_ok (slp ?t)"
    by (simp_all add: os xs transaction_new_def slp_transaction_new_def slp_msg_ok_def)
  moreover have "length os = unat n2" using os(2) by (metis length_map length_upt diff_zero)
  ultimately show ?thesis
    using t xs os it b by (auto simp: transaction_new_def comp_def)
qed

text \<open>A successfully parsed transaction is anchored in its bytes: the serialized form it keeps is
  a prefix of the input, its id is the double hash of that prefix and of nothing else, its outputs
  carry this id and are numbered from 0, every input names a 32-byte id, and a GENESIS message has
  the transaction's own id as token id.\<close>

theorem tx_hydrate_anchored:
  assumes "tx_hydrate sha256 tt (transaction_new v0 l0 t0) it = Ok t"
  shows "(\<exists>rest. it = serialized t @ rest) \<and> txid t = sha256 (sha256 (serialized t))
    \<and> (\<forall>i \<in> set (inputs t). length (op_txid i) = 32)
    \<and> map prev_out_idx (outputs t) = map of_nat [0..<length (outputs t)]
    \<and> (\<forall>x \<in> set (outputs t). prev_tx_id x = txid t)
    \<and> (slp_type (slp t) = TGenesis \<longrightarrow> slp_tokenid (slp t) = txid t)"
  using tx_hydrate_Ok [OF assms] by blast

lemma example_hydrates:
  "\<exists>t. tx_hydrate id 0 (transaction_new 0 0 0) (ser_tx 2 example_ins [(546, [0x51])] 7 @ [0xFF]) = Ok t"
  using tx_hydrate_ser [of example_ins "[(546, [0x51])]" id 0 0 0 0 2 7 "[0xFF]"]
  by (auto simp: example_ins_def input_ok_def output_ok_def MAX_TX_SIZE_def)

theorem tx_hydrate_anchored_witness:
  "\<exists>t. tx_hydrate id 0 (transaction_new 0 0 0) (ser_tx 2 example_ins [(546, [0x51])] 7 @ [0xFF]) = Ok t
     \<and> txid t = serialized t"
proof -
  obtain t where t: "tx_hydrate id 0 (transaction_new 0 0 0) (ser_tx 2 example_ins [(546, [0x51])] 7 @ [0xFF]) = Ok t"
    using example_hydrates by blast
  with tx_hydrate_anchored [OF t] show ?thesis by simp
qed

end
