(* ===== verification/TxGraph.thy ===== *)
theory TxGraph
  imports GraphSearch Transaction
begin

text \<open>
  The transaction graph of \<open>src/txgraph.cpp\<close>: a graph per token, an index from transaction ids to
  tokens, insertion of a batch of transactions in two passes, the search, and the exclusion set.
  A pointer to a node is the token and the transaction id it stands under, which never change
  once a node exists. Each operation runs under the object's lock, so it is one step here.
\<close>

section \<open>The state\<close>

type_synonym node_ptr = "tokenid \<times> txid"

record graph_node =
  gn_inputs :: "node_ptr list"
  gn_txdata :: bytes

record token_details =
  td_tokenid :: tokenid
  td_graph :: "txid \<rightharpoonup> graph_node"

record txgraph =
  tg_tokens :: "tokenid \<rightharpoonup> token_details"
  tg_txid_to_token :: "txid \<rightharpoonup> tokenid"

definition txgraph_new :: txgraph where
  "txgraph_new = \<lparr>tg_tokens = Map.empty, tg_txid_to_token = Map.empty\<rparr>"

definition txgraph_clear :: "txgraph \<Rightarrow> txgraph" where
  "txgraph_clear g = g\<lparr>tg_tokens := Map.empty, tg_txid_to_token := Map.empty\<rparr>"

text \<open>\<open>tokens[k]\<close>, which makes an empty entry when there is none.\<close>

definition token_at :: "txgraph \<Rightarrow> tokenid \<Rightarrow> token_details" where
  "token_at g k = (case tg_tokens g k of Some td \<Rightarrow> td | None \<Rightarrow> \<lparr>td_tokenid = replicate 32 0, td_graph = Map.empty\<rparr>)"

definition token_graph :: "txgraph \<Rightarrow> tokenid \<Rightarrow> txid \<rightharpoonup> graph_node" where
  "token_graph g k = td_graph (token_at g k)"

definition node_inputs :: "txgraph \<Rightarrow> node_ptr \<Rightarrow> node_ptr list" where
  "node_inputs g p = (case token_graph g (fst p) (snd p) of None \<Rightarrow> [] | Some n \<Rightarrow> gn_inputs n)"

definition node_txdata :: "txgraph \<Rightarrow> node_ptr \<Rightarrow> bytes" where
  "node_txdata g p = (case token_graph g (fst p) (snd p) of None \<Rightarrow> [] | Some n \<Rightarrow> gn_txdata n)"

section \<open>Searching\<close>

text \<open>The set of nodes seen is changed in place: it is part of the result. \<open>None\<close> is a search
  that does not return.\<close>

datatype graph_search_status = GsOK | GsNotFound | GsNotInTokengraph

definition build_exclusion_set :: "txgraph \<Rightarrow> txid \<Rightarrow> node_ptr set \<Rightarrow> (bool \<times> node_ptr set) option" where
  "build_exclusion_set g lookup_txid seen = (case tg_txid_to_token g lookup_txid of
       None \<Rightarrow> Some (False, seen)
     | Some token \<Rightarrow> if token_graph g token lookup_txid = None then Some (False, seen)
         else map_option (\<lambda>(seen, _). (True, seen)) (search_from (node_inputs g) (token, lookup_txid) seen))"

definition graph_search_ptr ::
  "txgraph \<Rightarrow> txid \<Rightarrow> node_ptr set \<Rightarrow> ((graph_search_status \<times> bytes list) \<times> node_ptr set) option" where
  "graph_search_ptr g lookup_txid seen = (case tg_txid_to_token g lookup_txid of
       None \<Rightarrow> Some ((GsNotFound, []), seen)
     | Some token \<Rightarrow> if token_graph g token lookup_txid = None then Some ((GsNotInTokengraph, []), seen)
         else map_option (\<lambda>(seen, ret). ((GsOK, map (node_txdata g) ret), seen))
           (search_from (node_inputs g) (token, lookup_txid) seen))"

section \<open>Inserting a batch\<close>

definition emplace :: "('k \<rightharpoonup> 'v) \<Rightarrow> 'k \<Rightarrow> 'v \<Rightarrow> 'k \<rightharpoonup> 'v" where
  "emplace m k v = (if m k = None then m(k \<mapsto> v) else m)"

definition update_graph :: "tokenid \<Rightarrow> ((txid \<rightharpoonup> graph_node) \<Rightarrow> (txid \<rightharpoonup> graph_node)) \<Rightarrow> txgraph \<Rightarrow> txgraph" where
  "update_graph k f g = g\<lparr>tg_tokens := (tg_tokens g)(k \<mapsto> (token_at g k)\<lparr>td_graph := f (token_graph g k)\<rparr>)\<rparr>"

record insert_state =
  is_graph :: txgraph
  is_input_map :: "bytes \<rightharpoonup> txid list"
  is_latest :: "txid list"
  is_ret :: u32

text \<open>The first pass makes the nodes.\<close>

definition insert_node :: "tokenid \<Rightarrow> transaction \<Rightarrow> insert_state \<Rightarrow> insert_state" where
  "insert_node k tx s = (if tg_txid_to_token (is_graph s) (txid tx) \<noteq> None then s
     else (let g = update_graph k (\<lambda>gr. emplace gr (txid tx) \<lparr>gn_inputs = [], gn_txdata = serialized tx\<rparr>) (is_graph s);
         g = g\<lparr>tg_txid_to_token := emplace (tg_txid_to_token g) (txid tx) k\<rparr>;
         inputs = map op_txid (inputs tx)
       in s\<lparr>is_graph := g, is_input_map := emplace (is_input_map s) (serialized tx) inputs,
            is_latest := is_latest s @ [txid tx], is_ret := is_ret s + 1\<rparr>))"

text \<open>The second adds the pointers to the inputs that are nodes of the token.\<close>

definition push_input :: "tokenid \<Rightarrow> txid \<Rightarrow> txid \<Rightarrow> txgraph \<Rightarrow> txgraph" where
  "push_input k node input_txid g = (if token_graph g k input_txid = None then g
     else update_graph k (\<lambda>gr. case gr node of None \<Rightarrow> gr
       | Some n \<Rightarrow> gr(node \<mapsto> n\<lparr>gn_inputs := gn_inputs n @ [(k, input_txid)]\<rparr>)) g)"

definition link_node :: "tokenid \<Rightarrow> (bytes \<rightharpoonup> txid list) \<Rightarrow> txid \<Rightarrow> txgraph \<Rightarrow> txgraph" where
  "link_node k input_map node g =
     fold (push_input k node) (case input_map (node_txdata g (k, node)) of None \<Rightarrow> [] | Some is' \<Rightarrow> is') g"

definition insert_token_data :: "tokenid \<Rightarrow> transaction list \<Rightarrow> txgraph \<Rightarrow> u32 \<times> txgraph" where
  "insert_token_data k txs g = (let
       g = (if tg_tokens g k = None
         then g\<lparr>tg_tokens := (tg_tokens g)(k \<mapsto> \<lparr>td_tokenid = k, td_graph = Map.empty\<rparr>)\<rparr> else g);
       s = fold (insert_node k) txs \<lparr>is_graph = g, is_input_map = Map.empty, is_latest = [], is_ret = 0\<rparr>
     in (is_ret s, fold (link_node k (is_input_map s)) (is_latest s) (is_graph s)))"

section \<open>The invariant\<close>

definition node_ptrs :: "txgraph \<Rightarrow> node_ptr set" where
  "node_ptrs g = {p. token_graph g (fst p) (snd p) \<noteq> None}"

definition txgraph_inv :: "txgraph \<Rightarrow> bool" where
  "txgraph_inv g \<longleftrightarrow> finite (dom (tg_txid_to_token g))
     \<and> (\<forall>k t. token_graph g k t \<noteq> None \<longleftrightarrow> tg_txid_to_token g t = Some k)
     \<and> (\<forall>p q. q \<in> set (node_inputs g p) \<longrightarrow> fst q = fst p \<and> q \<in> node_ptrs g)"

lemma node_ptrs_inv: "txgraph_inv g \<Longrightarrow> node_ptrs g = {(k, t). tg_txid_to_token g t = Some k}"
  by (auto simp: txgraph_inv_def node_ptrs_def)

interpretation tg: search_space node_inputs node_ptrs txgraph_inv
proof
  fix g
  assume g: "txgraph_inv g"
  have "node_ptrs g \<subseteq> (\<lambda>t. (the (tg_txid_to_token g t), t)) ` dom (tg_txid_to_token g)"
    by (auto simp: node_ptrs_inv [OF g] image_iff dom_def)
  then show "finite (node_ptrs g)"
    using g by (meson finite_imageI finite_subset txgraph_inv_def)
next
  fix g p
  assume "txgraph_inv g" and "p \<in> node_ptrs g"
  then show "set (node_inputs g p) \<subseteq> node_ptrs g" unfolding txgraph_inv_def by blast
qed

lemma txgraph_inv_new [inv_intros]: "txgraph_inv txgraph_new" "txgraph_inv (txgraph_clear g)"
  by (auto simp: txgraph_inv_def txgraph_new_def txgraph_clear_def token_graph_def token_at_def node_inputs_def)


section \<open>What the insertion steps change\<close>

lemma update_graph_simps [state_simps]:
  "token_graph (update_graph k f g) k' = (if k' = k then f (token_graph g k) else token_graph g k')"
  "tg_txid_to_token (update_graph k f g) = tg_txid_to_token g"
  by (simp_all add: update_graph_def token_graph_def token_at_def)

lemma index_update [state_simps]:
  "token_graph (g\<lparr>tg_txid_to_token := m\<rparr>) = token_graph g"
  by (simp add: fun_eq_iff token_graph_def token_at_def)

lemma insert_node_fields:
  assumes "tg_txid_to_token (is_graph s) (txid tx) = None"
    and "token_graph (is_graph s) k (txid tx) = None"
  shows "token_graph (is_graph (insert_node k tx s)) k' t =
      (if k' = k \<and> t = txid tx then Some \<lparr>gn_inputs = [], gn_txdata = serialized tx\<rparr> else token_graph (is_graph s) k' t)"
    and "tg_txid_to_token (is_graph (insert_node k tx s)) = (tg_txid_to_token (is_graph s))(txid tx \<mapsto> k)"
    and "is_latest (insert_node k tx s) = is_latest s @ [txid tx]"
    and "is_ret (insert_node k tx s) = is_ret s + 1"
    and "is_input_map (insert_node k tx s) = emplace (is_input_map s) (serialized tx) (map op_txid (inputs tx))"
  using assms by (simp_all add: insert_node_def Let_def state_simps emplace_def)

lemma insert_node_skip:
  "tg_txid_to_token (is_graph s) (txid tx) \<noteq> None \<Longrightarrow> insert_node k tx s = s"
  by (simp add: insert_node_def)

lemma node_inputs_insert:
  assumes "tg_txid_to_token (is_graph s) (txid tx) = None" and "token_graph (is_graph s) k (txid tx) = None"
  shows "node_inputs (is_graph (insert_node k tx s)) p = node_inputs (is_graph s) p"
  using assms by (cases p) (auto simp: node_inputs_def insert_node_fields)

lemma inv_not_indexed: "txgraph_inv g \<Longrightarrow> tg_txid_to_token g t = None \<Longrightarrow> token_graph g k t = None"
  by (metis option.distinct(1) txgraph_inv_def)

lemma insert_node_inv [inv_intros]:
  assumes "txgraph_inv (is_graph s)"
  shows "txgraph_inv (is_graph (insert_node k tx s))"
proof (cases "tg_txid_to_token (is_graph s) (txid tx)")
  case None
  note n = None inv_not_indexed [OF assms None, of k]
  show ?thesis
    using assms n unfolding txgraph_inv_def
    by (auto simp: insert_node_fields [OF n] node_inputs_insert [OF n] node_ptrs_def split: if_splits)
next
  case (Some k')
  with assms show ?thesis by (simp add: insert_node_skip)
qed

lemma push_input_simps [state_simps]:
  "tg_txid_to_token (push_input k node i g) = tg_txid_to_token g"
  "token_graph (push_input k node i g) k' t = None \<longleftrightarrow> token_graph g k' t = None"
  "node_txdata (push_input k node i g) p = node_txdata g p"
  by (auto simp: push_input_def state_simps node_txdata_def split: option.splits if_splits)

lemma push_input_inputs [state_simps]:
  "node_inputs (push_input k node i g) p =
     (if p = (k, node) \<and> token_graph g k i \<noteq> None \<and> token_graph g k node \<noteq> None
      then node_inputs g p @ [(k, i)] else node_inputs g p)"
  by (cases p) (auto simp: push_input_def state_simps node_inputs_def split: option.splits)

lemma push_input_inv [inv_intros]: "txgraph_inv g \<Longrightarrow> txgraph_inv (push_input k node i g)"
  unfolding txgraph_inv_def node_ptrs_def by (auto simp: state_simps)


lemma fold_push_simps [state_simps]:
  "tg_txid_to_token (fold (push_input k node) ts g) = tg_txid_to_token g"
  "token_graph (fold (push_input k node) ts g) k' t = None \<longleftrightarrow> token_graph g k' t = None"
  "node_txdata (fold (push_input k node) ts g) p = node_txdata g p"
  by (induction ts arbitrary: g) (simp_all add: state_simps)

lemma fold_push_inputs [state_simps]:
  "node_inputs (fold (push_input k node) ts g) p =
     (if p = (k, node) \<and> token_graph g k node \<noteq> None
      then node_inputs g p @ map (Pair k) (filter (\<lambda>i. token_graph g k i \<noteq> None) ts) else node_inputs g p)"
proof (induction ts arbitrary: g)
  case (Cons i ts)
  have "(\<lambda>j. token_graph (push_input k node i g) k j \<noteq> None) = (\<lambda>j. token_graph g k j \<noteq> None)"
    by (simp add: state_simps)
  then show ?case using Cons [of "push_input k node i g"] by (auto simp: state_simps)
qed simp

lemma fold_push_inv [inv_intros]: "txgraph_inv g \<Longrightarrow> txgraph_inv (fold (push_input k node) ts g)"
  by (induction ts arbitrary: g) (simp_all add: push_input_inv)

lemma link_simps [state_simps]:
  "tg_txid_to_token (link_node k m node g) = tg_txid_to_token g"
  "token_graph (link_node k m node g) k' t = None \<longleftrightarrow> token_graph g k' t = None"
  "node_txdata (link_node k m node g) p = node_txdata g p"
  by (simp_all add: link_node_def state_simps)

text \<open>The inputs recorded for the data of a node.\<close>

definition recorded :: "(bytes \<rightharpoonup> txid list) \<Rightarrow> txgraph \<Rightarrow> node_ptr \<Rightarrow> txid list" where
  "recorded m g p = (case m (node_txdata g p) of None \<Rightarrow> [] | Some ts \<Rightarrow> ts)"

lemma link_inputs [state_simps]:
  "node_inputs (link_node k m node g) p =
     (if p = (k, node) \<and> token_graph g k node \<noteq> None
      then node_inputs g p @ map (Pair k) (filter (\<lambda>i. token_graph g k i \<noteq> None) (recorded m g p)) else node_inputs g p)"
  by (auto simp: link_node_def state_simps recorded_def)

lemma fold_link_simps [state_simps]:
  "tg_txid_to_token (fold (link_node k m) ns g) = tg_txid_to_token g"
  "token_graph (fold (link_node k m) ns g) k' t = None \<longleftrightarrow> token_graph g k' t = None"
  "node_txdata (fold (link_node k m) ns g) p = node_txdata g p"
  by (induction ns arbitrary: g) (simp_all add: state_simps)

lemma fold_link_inv [inv_intros]: "txgraph_inv g \<Longrightarrow> txgraph_inv (fold (link_node k m) ns g)"
  by (induction ns arbitrary: g) (simp_all add: link_node_def fold_push_inv)

lemma fold_link_inputs:
  "distinct ns \<Longrightarrow> node_inputs (fold (link_node k m) ns g) p =
     (if fst p = k \<and> snd p \<in> set ns \<and> token_graph g k (snd p) \<noteq> None
      then node_inputs g p @ map (Pair k) (filter (\<lambda>i. token_graph g k i \<noteq> None) (recorded m g p)) else node_inputs g p)"
proof (induction ns arbitrary: g)
  case (Cons n ns)
  have "(\<lambda>j. token_graph (link_node k m n g) k j \<noteq> None) = (\<lambda>j. token_graph g k j \<noteq> None)"
    by (simp add: state_simps)
  moreover have "recorded m (link_node k m n g) p = recorded m g p"
    by (simp add: recorded_def state_simps)
  ultimately show ?case
    using Cons.IH [of "link_node k m n g"] Cons.prems by (cases p) (auto simp: state_simps)
qed simp

lemma first_pass_inv: "txgraph_inv (is_graph s) \<Longrightarrow> txgraph_inv (is_graph (fold (insert_node k) txs s))"
  by (induction txs arbitrary: s) (simp_all add: insert_node_inv)

definition ensure_token :: "tokenid \<Rightarrow> txgraph \<Rightarrow> txgraph" where
  "ensure_token k g = (if tg_tokens g k = None
     then g\<lparr>tg_tokens := (tg_tokens g)(k \<mapsto> \<lparr>td_tokenid = k, td_graph = Map.empty\<rparr>)\<rparr> else g)"

lemma ensure_token_simps [state_simps]:
  "token_graph (ensure_token k g) = token_graph g"
  "tg_txid_to_token (ensure_token k g) = tg_txid_to_token g"
  "node_inputs (ensure_token k g) = node_inputs g"
  "node_txdata (ensure_token k g) = node_txdata g"
proof -
  show t: "token_graph (ensure_token k g) = token_graph g"
    by (auto simp: fun_eq_iff ensure_token_def token_graph_def token_at_def)
  show "tg_txid_to_token (ensure_token k g) = tg_txid_to_token g" by (simp add: ensure_token_def)
  show "node_inputs (ensure_token k g) = node_inputs g" "node_txdata (ensure_token k g) = node_txdata g"
    by (simp_all add: fun_eq_iff node_inputs_def node_txdata_def t)
qed

lemma ensure_token_inv: "txgraph_inv g \<Longrightarrow> txgraph_inv (ensure_token k g)"
  by (unfold txgraph_inv_def node_ptrs_def ensure_token_simps)

definition first_pass :: "tokenid \<Rightarrow> transaction list \<Rightarrow> txgraph \<Rightarrow> insert_state" where
  "first_pass k txs g = fold (insert_node k) txs
     \<lparr>is_graph = ensure_token k g, is_input_map = Map.empty, is_latest = [], is_ret = 0\<rparr>"

lemma insert_token_data_eq:
  "insert_token_data k txs g = (let s = first_pass k txs g in
     (is_ret s, fold (link_node k (is_input_map s)) (is_latest s) (is_graph s)))"
  by (simp add: insert_token_data_def first_pass_def ensure_token_def)

lemma insert_token_data_inv [inv_intros]:
  "txgraph_inv g \<Longrightarrow> txgraph_inv (snd (insert_token_data k txs g))"
  by (simp add: insert_token_data_eq Let_def fold_link_inv first_pass_def first_pass_inv ensure_token_inv)


text \<open>The index after an insertion: an unknown id of the batch now belongs to the token.\<close>

lemma index_insert_node:
  "tg_txid_to_token (is_graph (insert_node k tx s)) t =
     (if tg_txid_to_token (is_graph s) t = None \<and> t = txid tx then Some k else tg_txid_to_token (is_graph s) t)"
  by (auto simp: insert_node_def emplace_def update_graph_def Let_def)

lemma index_insert_nodes:
  "tg_txid_to_token (is_graph (fold (insert_node k) txs s)) t =
     (if tg_txid_to_token (is_graph s) t = None \<and> t \<in> txid ` set txs then Some k else tg_txid_to_token (is_graph s) t)"
  by (induction txs arbitrary: s) (auto simp: index_insert_node)

lemma index_insert:
  "tg_txid_to_token (snd (insert_token_data k txs g)) t =
     (if tg_txid_to_token g t = None \<and> t \<in> txid ` set txs then Some k else tg_txid_to_token g t)"
  by (simp add: insert_token_data_eq first_pass_def index_insert_nodes state_simps Let_def)

section \<open>The first pass\<close>

text \<open>
  A batch is consistent when transactions with the same id or the same serialization are the
  same, as they are when the id is the hash of the serialization they were parsed from.
\<close>

definition batch_ok :: "transaction list \<Rightarrow> bool" where
  "batch_ok txs \<longleftrightarrow> (\<forall>tx \<in> set txs. \<forall>tx' \<in> set txs. txid tx = txid tx' \<or> serialized tx = serialized tx' \<longrightarrow> tx = tx')"

definition new_txs :: "txgraph \<Rightarrow> transaction list \<Rightarrow> transaction list" where
  "new_txs g txs = filter (\<lambda>tx. tg_txid_to_token g (txid tx) = None) (rev (remdups (rev txs)))"

text \<open>What holds after the transactions \<open>ds\<close>, of a consistent batch, went through the first pass.\<close>

definition pass_inv :: "tokenid \<Rightarrow> txgraph \<Rightarrow> transaction list \<Rightarrow> insert_state \<Rightarrow> bool" where
  "pass_inv k g ds s \<longleftrightarrow>
     txgraph_inv (is_graph s)
     \<and> is_latest s = map txid ds \<and> is_ret s = of_nat (length ds) \<and> distinct (map txid ds)
     \<and> (\<forall>t. tg_txid_to_token (is_graph s) t = (if t \<in> txid ` set ds then Some k else tg_txid_to_token g t))
     \<and> (\<forall>p. node_inputs (is_graph s) p = node_inputs g p)
     \<and> (\<forall>tx \<in> set ds. node_txdata (is_graph s) (k, txid tx) = serialized tx
          \<and> is_input_map s (serialized tx) = Some (map op_txid (inputs tx)))
     \<and> (\<forall>p. snd p \<notin> txid ` set ds \<longrightarrow> node_txdata (is_graph s) p = node_txdata g p)
     \<and> (\<forall>d. is_input_map s d \<noteq> None \<longrightarrow> d \<in> serialized ` set ds)"

lemma pass_inv_step_new:
  assumes s: "pass_inv k g ds s" and tx: "tg_txid_to_token (is_graph s) (txid tx) = None"
    and fresh: "serialized tx \<notin> serialized ` set ds"
  shows "pass_inv k g (ds @ [tx]) (insert_node k tx s)"
proof -
  have inv: "txgraph_inv (is_graph s)" using s by (simp add: pass_inv_def)
  note n = tx inv_not_indexed [OF inv tx, of k]
  have d: "node_txdata (is_graph (insert_node k tx s)) p =
      (if p = (k, txid tx) then serialized tx else node_txdata (is_graph s) p)" for p
    by (cases p) (auto simp: node_txdata_def insert_node_fields [OF n])
  have new: "txid tx \<notin> txid ` set ds" "tg_txid_to_token g (txid tx) = None"
    using s tx by (auto simp: pass_inv_def split: if_splits)
  have ne: "txid x \<noteq> txid tx" "serialized x \<noteq> serialized tx" if "x \<in> set ds" for x
    using new(1) fresh that by (metis imageI)+
  have "is_input_map s (serialized tx) = None"
    using s fresh by (auto simp: pass_inv_def)
  with s inv d new fresh ne show ?thesis
    unfolding pass_inv_def
    by (auto simp: insert_node_fields [OF n] node_inputs_insert [OF n] insert_node_inv emplace_def)
qed

lemma first_pass_correct:
  assumes "txgraph_inv g" and "batch_ok txs"
  shows "pass_inv k g (new_txs g txs) (first_pass k txs g)"
  using assms(2)
proof (induction txs rule: rev_induct)
  case Nil
  have "txgraph_inv (ensure_token k g)" using assms(1) by (rule ensure_token_inv)
  then show ?case
    by (simp add: pass_inv_def first_pass_def new_txs_def state_simps)
next
  case (snoc tx txs)
  have s: "pass_inv k g (new_txs g txs) (first_pass k txs g)"
    using snoc by (auto simp: batch_ok_def)
  have f: "first_pass k (txs @ [tx]) g = insert_node k tx (first_pass k txs g)"
    by (simp add: first_pass_def)
  have set: "set (new_txs g txs) = {tx \<in> set txs. tg_txid_to_token g (txid tx) = None}"
    by (auto simp: new_txs_def)
  show ?case
  proof (cases "tx \<in> set txs \<or> tg_txid_to_token g (txid tx) \<noteq> None")
    case True
    then have "new_txs g (txs @ [tx]) = new_txs g txs" by (auto simp: new_txs_def)
    moreover have "tg_txid_to_token (is_graph (first_pass k txs g)) (txid tx) \<noteq> None"
      using True s set by (auto simp: pass_inv_def)
    ultimately show ?thesis using s by (simp add: f insert_node_skip)
  next
    case False
    then have new: "new_txs g (txs @ [tx]) = new_txs g txs @ [tx]" by (auto simp: new_txs_def)
    have "txid tx \<notin> txid ` set txs" "serialized tx \<notin> serialized ` set txs"
      using False snoc.prems by (auto simp: batch_ok_def)
    then show ?thesis
      using False s set unfolding new f
      by (intro pass_inv_step_new [OF s]) (auto simp: pass_inv_def)
  qed
qed


section \<open>What an insertion does, and what a search returns\<close>

text \<open>The operations that change the graph, in any order.\<close>

inductive txgraph_step :: "txgraph \<Rightarrow> txgraph \<Rightarrow> bool" where
  step_insert: "txgraph_step g (snd (insert_token_data k txs g))"
| step_clear: "txgraph_step g (txgraph_clear g)"

interpretation tg: machine "\<lambda>g. g = txgraph_new" txgraph_step txgraph_inv
proof
  fix g h
  show "g = txgraph_new \<Longrightarrow> txgraph_inv g" by (simp add: txgraph_inv_new)
  show "txgraph_inv g \<Longrightarrow> txgraph_step g h \<Longrightarrow> txgraph_inv h"
    by (erule txgraph_step.cases) (simp_all add: insert_token_data_inv txgraph_inv_new)
qed

text \<open>C21: Every operation keeps the graph sound: each node is indexed under the one token whose graph
  holds it, every index entry has its node, and the inputs of a node are nodes of the same token,
  so no pointer dangles and no path leaves a token.\<close>

theorem txgraph_reachable_sound:
  assumes "reach (\<lambda>g. g = txgraph_new) txgraph_step g"
  shows "(token_graph g k t \<noteq> None \<longleftrightarrow> tg_txid_to_token g t = Some k)
    \<and> (q \<in> set (node_inputs g (k, t)) \<longrightarrow> fst q = k \<and> tg_txid_to_token g (snd q) = Some k)"
proof -
  have "txgraph_inv g" by (rule tg.reach_inv [OF assms])
  then show ?thesis unfolding txgraph_inv_def node_ptrs_def by (cases q) auto
qed

text \<open>The graph after the insertion of a consistent batch, for the theorem below and for whole blocks.\<close>

lemma insert_token_data_nodes:
  assumes "txgraph_inv g" and "batch_ok txs" and g': "g' = snd (insert_token_data k txs g)"
  shows "(\<forall>t. tg_txid_to_token g' t = (if t \<in> txid ` set (new_txs g txs) then Some k else tg_txid_to_token g t))
    \<and> (\<forall>tx \<in> set (new_txs g txs). node_txdata g' (k, txid tx) = serialized tx
         \<and> node_inputs g' (k, txid tx) = map (Pair k) (filter (\<lambda>i. tg_txid_to_token g' i = Some k) (map op_txid (inputs tx))))
    \<and> (\<forall>p. snd p \<notin> txid ` set (new_txs g txs) \<longrightarrow> node_txdata g' p = node_txdata g p \<and> node_inputs g' p = node_inputs g p)"
proof -
  let ?s = "first_pass k txs g" and ?ds = "new_txs g txs"
  have s: "pass_inv k g ?ds ?s" by (rule first_pass_correct [OF assms(1,2)])
  then have g': "g' = fold (link_node k (is_input_map ?s)) (map txid ?ds) (is_graph ?s)"
    by (simp add: g' insert_token_data_eq pass_inv_def Let_def)
  have inv: "txgraph_inv (is_graph ?s)" using s by (simp add: pass_inv_def)
  have index: "tg_txid_to_token g' = tg_txid_to_token (is_graph ?s)" by (simp add: g' state_simps)
  have node: "token_graph (is_graph ?s) k t \<noteq> None \<longleftrightarrow> tg_txid_to_token g' t = Some k" for t
    using inv by (simp add: txgraph_inv_def index)
  have dist: "distinct (map txid ?ds)" using s by (simp add: pass_inv_def)
  have ins: "node_inputs g' p = (if fst p = k \<and> snd p \<in> txid ` set ?ds
      then map (Pair k) (filter (\<lambda>i. tg_txid_to_token g' i = Some k) (recorded (is_input_map ?s) (is_graph ?s) p))
      else node_inputs g p)" for p
  proof -
    have "token_graph (is_graph ?s) k (snd p) \<noteq> None \<and> node_inputs g p = []" if "snd p \<in> txid ` set ?ds"
    proof
      have "tg_txid_to_token g' (snd p) = Some k"
        using that s by (simp add: index pass_inv_def)
      then show "token_graph (is_graph ?s) k (snd p) \<noteq> None" using node by blast
      have "tg_txid_to_token g (snd p) = None" using that by (auto simp: new_txs_def)
      then show "node_inputs g p = []"
        using inv_not_indexed [OF assms(1)] by (simp add: node_inputs_def)
    qed
    moreover have "node_inputs (is_graph ?s) p = node_inputs g p" using s unfolding pass_inv_def by blast
    moreover have "(\<lambda>i. token_graph (is_graph ?s) k i \<noteq> None) = (\<lambda>i. tg_txid_to_token g' i = Some k)"
      by (simp only: node)
    ultimately show ?thesis
      using fold_link_inputs [OF dist, of k "is_input_map ?s" "is_graph ?s" p, folded g'] by auto
  qed
  show ?thesis
    using s by (auto simp: ins index pass_inv_def recorded_def) (auto simp: g' state_simps)
qed

text \<open>C20: Inserting a consistent batch adds exactly the transactions whose id no token knew, counts
  them, and gives each new node its serialization and a pointer to each of its inputs, in order,
  that is a node of the token once the whole batch is in, whatever the order of the batch; nodes
  that were there keep their data and inputs.\<close>

theorem insert_token_data_spec:
  assumes "txgraph_inv g" and "batch_ok txs" and "insert_token_data k txs g = (n, g')"
  shows "n = of_nat (length (new_txs g txs))
    \<and> (\<forall>t. tg_txid_to_token g' t = (if t \<in> txid ` set (new_txs g txs) then Some k else tg_txid_to_token g t))
    \<and> (\<forall>tx \<in> set (new_txs g txs). node_txdata g' (k, txid tx) = serialized tx
         \<and> node_inputs g' (k, txid tx) = map (Pair k) (filter (\<lambda>i. tg_txid_to_token g' i = Some k) (map op_txid (inputs tx))))
    \<and> (\<forall>p. snd p \<notin> txid ` set (new_txs g txs) \<longrightarrow> node_txdata g' p = node_txdata g p \<and> node_inputs g' p = node_inputs g p)"
proof -
  have "n = of_nat (length (new_txs g txs))"
    using first_pass_correct [OF assms(1,2), of k] assms(3) by (auto simp: insert_token_data_eq pass_inv_def Let_def)
  with insert_token_data_nodes [OF assms(1,2), of g' k] assms(3) show ?thesis by simp
qed


definition example_tx :: "txid \<Rightarrow> txid list \<Rightarrow> transaction" where
  "example_tx t ins = (transaction_new 1 0 0)\<lparr>txid := t, inputs := map (\<lambda>i. \<lparr>op_txid = i, op_vout = 1\<rparr>) ins,
     serialized := 0 # t\<rparr>"

lemma example_tx_simps [simp]:
  "txid (example_tx t is') = t" "serialized (example_tx t is') = 0 # t"
  "inputs (example_tx t is') = map (\<lambda>i. \<lparr>op_txid = i, op_vout = 1\<rparr>) is'"
  by (simp_all add: example_tx_def)

text \<open>A child before its parent.\<close>

definition example_batch :: "transaction list" where
  "example_batch = [example_tx [2] [[1], [9]], example_tx [1] []]"

lemma example_batch_ok: "batch_ok example_batch" "new_txs txgraph_new example_batch = example_batch"
proof -
  have "txid (example_tx [1] []) \<noteq> txid (example_tx [2] [[1], [9]])" by simp
  then have "example_tx [1] [] \<noteq> example_tx [2] [[1], [9]]" by (rule contrapos_nn) (rule arg_cong)
  then show "batch_ok example_batch" "new_txs txgraph_new example_batch = example_batch"
    by (auto simp: batch_ok_def example_batch_def new_txs_def txgraph_new_def)
qed

theorem insert_token_data_spec_witness:
  "\<exists>g'. insert_token_data [7] example_batch txgraph_new = (2, g') \<and> node_inputs g' ([7], [2]) = [([7], [1])]"
proof -
  obtain n g' where i: "insert_token_data [7] example_batch txgraph_new = (n, g')" by (cases "insert_token_data [7] example_batch txgraph_new")
  from insert_token_data_spec [OF txgraph_inv_new(1) example_batch_ok(1) i]
  show ?thesis by (auto simp: i example_batch_ok(2)) (auto simp: example_batch_def txgraph_new_def)
qed

definition example_graph :: txgraph where
  "example_graph = snd (insert_token_data [7] example_batch txgraph_new)"

lemma example_reach: "reach (\<lambda>g. g = txgraph_new) txgraph_step example_graph"
  unfolding example_graph_def by (rule reach_step, rule reach_init, rule refl, rule step_insert)

lemma example_graph_facts:
  "txgraph_inv example_graph" "tg_txid_to_token example_graph [2] = Some [7]"
  "node_inputs example_graph ([7], [2]) = [([7], [1])]"
  by (rule tg.reach_inv [OF example_reach])
    (simp_all add: example_graph_def example_batch_def insert_token_data_def insert_node_def link_node_def push_input_def
      txgraph_new_def emplace_def update_graph_def token_graph_def token_at_def node_inputs_def node_txdata_def)

theorem txgraph_reachable_sound_witness:
  "tg_txid_to_token example_graph [1] = Some [7] \<and> token_graph example_graph [7] [1] \<noteq> None"
  using txgraph_reachable_sound [OF example_reach, of "[7]" "[1]" "([7], [1])"]
    txgraph_reachable_sound [OF example_reach, of "[7]" "[2]" "([7], [1])"] example_graph_facts(3) by auto

lemma known_node: "txgraph_inv g \<Longrightarrow> tg_txid_to_token g t = Some k \<Longrightarrow> (k, t) \<in> node_ptrs g"
  by (simp add: node_ptrs_inv)

lemma known_graph: "txgraph_inv g \<Longrightarrow> tg_txid_to_token g t = Some k \<Longrightarrow> token_graph g k t \<noteq> None"
  by (simp add: txgraph_inv_def)

abbreviation ancestors :: "txgraph \<Rightarrow> node_ptr \<Rightarrow> node_ptr set" where
  "ancestors g p \<equiv> {q. avoiding (node_inputs g) {} p q}"

lemma graph_search_known:
  assumes "txgraph_inv g" and "tg_txid_to_token g t = Some k"
  shows "\<exists>ns. graph_search_ptr g t X = Some ((GsOK, map (node_txdata g) ns), X \<union> set ns)
    \<and> distinct ns \<and> ns \<noteq> [] \<and> hd ns = (k, t) \<and> set ns = {p. avoiding (node_inputs g) X (k, t) p}"
proof -
  obtain ns where "search_from (node_inputs g) (k, t) X = Some (X \<union> set ns, ns)" "distinct ns" "ns \<noteq> []"
    "hd ns = (k, t)" "set ns = {p. avoiding (node_inputs g) X (k, t) p}"
    using tg.search_from_correct [OF assms(1) known_node [OF assms], of X] by blast
  then show ?thesis
    using known_graph [OF assms] by (auto simp: graph_search_ptr_def assms(2))
qed

lemma build_exclusion_known:
  assumes "txgraph_inv g" and "tg_txid_to_token g t = Some k"
  shows "build_exclusion_set g t X = Some (True, X \<union> {p. avoiding (node_inputs g) X (k, t) p})"
proof -
  obtain ns where "search_from (node_inputs g) (k, t) X = Some (X \<union> set ns, ns)"
    "set ns = {p. avoiding (node_inputs g) X (k, t) p}"
    using tg.search_from_correct [OF assms(1) known_node [OF assms], of X] by blast
  then show ?thesis
    using known_graph [OF assms] by (auto simp: build_exclusion_set_def assms(2))
qed

lemma search_unknown:
  assumes "tg_txid_to_token g t = None"
  shows "graph_search_ptr g t X = Some ((GsNotFound, []), X)" "build_exclusion_set g t X = Some (False, X)"
  using assms by (simp_all add: graph_search_ptr_def build_exclusion_set_def)

text \<open>C19: The graph search always returns. For a transaction the graph knows it answers OK with the
  data of exactly the nodes that can be reached from it through inputs without entering an
  excluded node, each once and the transaction itself first, and adds those nodes to the set;
  for any other it answers "not found" with nothing. It never finds an index entry without node.\<close>

theorem graph_search_correct:
  assumes "txgraph_inv g"
  shows "case tg_txid_to_token g t of
      None \<Rightarrow> graph_search_ptr g t X = Some ((GsNotFound, []), X)
    | Some k \<Rightarrow> (\<exists>ns. graph_search_ptr g t X = Some ((GsOK, map (node_txdata g) ns), X \<union> set ns)
        \<and> distinct ns \<and> ns \<noteq> [] \<and> hd ns = (k, t) \<and> set ns = {p. avoiding (node_inputs g) X (k, t) p})"
  using graph_search_known [OF assms] search_unknown by (auto split: option.splits)

theorem graph_search_correct_witness:
  "\<exists>ns. graph_search_ptr example_graph [2] {} = Some ((GsOK, map (node_txdata example_graph) ns), set ns)
     \<and> hd ns = ([7], [2]) \<and> ([7], [1]) \<in> set ns"
proof -
  have "avoiding (node_inputs example_graph) {} ([7], [2]) ([7], [1])"
    by (rule avoiding.edge [OF avoiding.here]) (simp_all add: example_graph_facts)
  with graph_search_correct [OF example_graph_facts(1), of "[2]" "{}"] show ?thesis
    by (auto simp: example_graph_facts)
qed

section \<open>Exclusion\<close>

definition closed_set :: "txgraph \<Rightarrow> node_ptr set \<Rightarrow> bool" where
  "closed_set g X \<longleftrightarrow> (\<forall>p \<in> X. set (node_inputs g p) \<subseteq> X)"

lemma ancestors_closed: "closed_set g (ancestors g p)"
  by (auto simp: closed_set_def intro: avoiding.edge)

lemma closed_Un: "closed_set g X \<Longrightarrow> closed_set g Y \<Longrightarrow> closed_set g (X \<union> Y)"
  by (auto simp: closed_set_def)

lemma avoiding_outside:
  assumes "closed_set g X"
  shows "X \<union> {q. avoiding (node_inputs g) X p q} = X \<union> ancestors g p"
    and "{q. avoiding (node_inputs g) X p q} = (ancestors g p - X) \<union> {p}"
proof -
  have eq: "q \<notin> X \<Longrightarrow> avoiding (node_inputs g) X p q \<longleftrightarrow> avoiding (node_inputs g) {} p q" for q
    using tg.avoiding_closed [of X g q p] assms by (simp add: closed_set_def)
  then show "X \<union> {q. avoiding (node_inputs g) X p q} = X \<union> ancestors g p" by blast
  have "q = p" if "avoiding (node_inputs g) X p q" "q \<in> X" for q
    using that by (cases rule: avoiding.cases) auto
  with eq show "{q. avoiding (node_inputs g) X p q} = (ancestors g p - X) \<union> {p}"
    by (auto intro: avoiding.here)
qed

end
