(* ===== verification/SlpValidator.thy ===== *)
theory SlpValidator
  imports Transaction
begin

text \<open>
  The SLP validator of \<open>src/slp_validator.cpp\<close>. An outcome is a value, an exception (the
  \<open>runtime_error\<close> of the mint walk, a variant of the wrong type, a transaction that is not in the
  map) or the end of the fuel given to the recursion; the theorems show how much fuel is enough.
  The function parameters of \<open>check_send\<close> and \<open>check_genesis\<close> are the recursive calls.
\<close>

section \<open>The state\<close>

record slp_validator =
  transaction_map :: "txid \<rightharpoonup> transaction"
  valid_txids :: "txid set"

datatype 'a vres = VOk 'a | VThrow | VFuel

fun vbind :: "'a vres \<Rightarrow> ('a \<Rightarrow> 'b vres) \<Rightarrow> 'b vres" where
  "vbind (VOk x) f = f x"
| "vbind VThrow f = VThrow"
| "vbind VFuel f = VFuel"

definition validator_has :: "slp_validator \<Rightarrow> txid \<Rightarrow> bool" where
  "validator_has V t \<longleftrightarrow> transaction_map V t \<noteq> None"

definition has_valid :: "slp_validator \<Rightarrow> txid \<Rightarrow> bool" where
  "has_valid V t \<longleftrightarrow> t \<in> valid_txids V"

definition validator_get :: "slp_validator \<Rightarrow> txid \<Rightarrow> transaction vres" where
  "validator_get V t = (case transaction_map V t of None \<Rightarrow> VThrow | Some tx \<Rightarrow> VOk tx)"

definition add_valid_txid :: "txid \<Rightarrow> slp_validator \<Rightarrow> bool \<times> slp_validator" where
  "add_valid_txid t V = (t \<notin> valid_txids V, V\<lparr>valid_txids := insert t (valid_txids V)\<rparr>)"

definition remove_tx :: "txid \<Rightarrow> slp_validator \<Rightarrow> bool \<times> slp_validator" where
  "remove_tx t V = (transaction_map V t \<noteq> None, V\<lparr>transaction_map := (transaction_map V)(t := None)\<rparr>)"

section \<open>SEND\<close>

definition sum_u128 :: "u64 list \<Rightarrow> u128" where
  "sum_u128 ns = fold (\<lambda>n acc. acc + ucast n) ns 0"

text \<open>The loop over the inputs; \<open>check_outputs\<close> is \<open>check_outputs_valid\<close>, which changes \<open>seen\<close>.\<close>

fun send_inputs :: "(txid set \<Rightarrow> transaction \<Rightarrow> (bool \<times> txid set) vres) \<Rightarrow> slp_validator \<Rightarrow> transaction
    \<Rightarrow> outpoint list \<Rightarrow> u128 \<Rightarrow> txid set \<Rightarrow> (u128 \<times> txid set) vres" where
  "send_inputs check_outputs V tx [] input_amount seen = VOk (input_amount, seen)"
| "send_inputs check_outputs V tx (i # is') input_amount seen =
     (if \<not> has_valid V (op_txid i) then send_inputs check_outputs V tx is' input_amount seen
      else (case transaction_map V (op_txid i) of
          None \<Rightarrow> send_inputs check_outputs V tx is' input_amount seen
        | Some txi \<Rightarrow>
            if slp_token_type (slp tx) \<noteq> slp_token_type (slp txi) then send_inputs check_outputs V tx is' input_amount seen
            else if slp_tokenid (slp tx) \<noteq> slp_tokenid (slp txi) then send_inputs check_outputs V tx is' input_amount seen
            else vbind (check_outputs seen txi) (\<lambda>(ok, seen).
              if \<not> ok then send_inputs check_outputs V tx is' input_amount seen
              else send_inputs check_outputs V tx is'
                (input_amount + ucast (output_slp_amount txi (ucast (op_vout i)))) seen)))"

definition check_send :: "(txid set \<Rightarrow> transaction \<Rightarrow> (bool \<times> txid set) vres) \<Rightarrow> slp_validator
    \<Rightarrow> txid set \<Rightarrow> transaction \<Rightarrow> (bool \<times> txid set) vres" where
  "check_send check_outputs V seen tx = (case slp_tx (slp tx) of
       SlpSend s \<Rightarrow> (let output_amount = sum_u128 (amounts s) in
         vbind (send_inputs check_outputs V tx (inputs tx) 0 seen) (\<lambda>(input_amount, seen).
           if output_amount > input_amount then VOk (False, seen) else VOk (True, seen)))
     | _ \<Rightarrow> VThrow)"

section \<open>MINT\<close>

definition same_token :: "transaction \<Rightarrow> transaction \<Rightarrow> bool" where
  "same_token a b \<longleftrightarrow> slp_tokenid (slp a) = slp_tokenid (slp b) \<and> slp_token_type (slp a) = slp_token_type (slp b)"

text \<open>The transaction an input takes the mint baton from, if the walk keeps it.\<close>

definition baton_source :: "slp_validator \<Rightarrow> transaction \<Rightarrow> outpoint \<Rightarrow> transaction option" where
  "baton_source V front i =
     (if \<not> has_valid V (op_txid i) then None
      else (case transaction_map V (op_txid i) of
          None \<Rightarrow> None
        | Some txi \<Rightarrow>
            if slp_tokenid (slp front) \<noteq> slp_tokenid (slp txi) then None
            else if slp_token_type (slp front) \<noteq> slp_token_type (slp txi) then None
            else if i \<noteq> mint_baton_outpoint txi then None
            else if slp_type (slp txi) = TMint then Some txi
            else if slp_type (slp txi) = TGenesis then Some txi
            else None))"

definition walk_mints_home :: "slp_validator \<Rightarrow> transaction \<Rightarrow> transaction \<Rightarrow> transaction list" where
  "walk_mints_home V front back =
     (if slp_tokenid (slp front) \<noteq> slp_tokenid (slp back) then []
      else if slp_token_type (slp front) \<noteq> slp_token_type (slp back) then []
      else List.map_filter (baton_source V front) (inputs back))"

text \<open>One turn of the loop: \<open>None\<close> when a genesis was met, else the next transactions.\<close>

fun mint_fronts :: "slp_validator \<Rightarrow> transaction \<Rightarrow> transaction list \<Rightarrow> transaction list \<Rightarrow> transaction list option" where
  "mint_fronts V back [] ins = Some ins"
| "mint_fronts V back (front # fs) ins = (if slp_type (slp front) = TGenesis then None
     else mint_fronts V back fs (ins @ walk_mints_home V back front))"

fun mint_loop :: "nat \<Rightarrow> slp_validator \<Rightarrow> transaction \<Rightarrow> transaction list \<Rightarrow> bool vres" where
  "mint_loop 0 V back input_txs = VFuel"
| "mint_loop (Suc n) V back input_txs = (case mint_fronts V back input_txs [] of
       None \<Rightarrow> VOk True
     | Some ins \<Rightarrow>
         if length ins < 1 then VOk False
         else if length ins > 1 \<and> (\<exists>txi \<in> set ins. txid (ins ! 0) \<noteq> txid txi) then VThrow
         else if has_valid V (txid (ins ! 0)) then VOk True
         else mint_loop n V (ins ! 0) ins)"

definition check_mint :: "nat \<Rightarrow> slp_validator \<Rightarrow> transaction \<Rightarrow> bool vres" where
  "check_mint n V tx = mint_loop n V tx (walk_mints_home V tx tx)"

section \<open>GENESIS, and the recursion\<close>

definition check_genesis :: "(transaction \<Rightarrow> bool vres) \<Rightarrow> slp_validator \<Rightarrow> transaction \<Rightarrow> bool vres" where
  "check_genesis validate V tx =
     (if slp_token_type (slp tx) = 0x41 then
        (case inputs tx of
            [] \<Rightarrow> VOk False
          | i # _ \<Rightarrow>
              if \<not> has_valid V (op_txid i) then VOk False
              else (case transaction_map V (op_txid i) of
                  None \<Rightarrow> VOk False
                | Some txi \<Rightarrow>
                    if slp_token_type (slp txi) \<noteq> 0x81 then VOk False
                    else if output_slp_amount txi (ucast (op_vout i)) < 1 then VOk False
                    else validate txi))
      else VOk True)"

fun check_outputs_valid :: "nat \<Rightarrow> slp_validator \<Rightarrow> txid set \<Rightarrow> transaction \<Rightarrow> (bool \<times> txid set) vres"
  and validate_tx :: "nat \<Rightarrow> slp_validator \<Rightarrow> transaction \<Rightarrow> bool vres" where
  "check_outputs_valid 0 V seen tx = VFuel"
| "check_outputs_valid (Suc n) V seen tx =
     (if \<not> validator_has V (txid tx) then VOk (False, seen)
      else if txid tx \<in> seen then VOk (True, seen)
      else (let seen = insert (txid tx) seen in
        if txid tx \<in> valid_txids V then VOk (True, seen)
        else (case slp_type (slp tx) of
            TSend \<Rightarrow> check_send (check_outputs_valid n V) V seen tx
          | TMint \<Rightarrow> vbind (check_mint n V tx) (\<lambda>b. VOk (b, seen))
          | TGenesis \<Rightarrow> vbind (check_genesis (validate_tx n V) V tx) (\<lambda>b. VOk (b, seen))
          | TInvalid \<Rightarrow> VOk (False, seen))))"
| "validate_tx 0 V tx = VFuel"
| "validate_tx (Suc n) V tx =
     (if slp_type (slp tx) = TInvalid then VOk False
      else if has_valid V (txid tx) then VOk True
      else (case slp_type (slp tx) of
          TSend \<Rightarrow> vbind (check_send (check_outputs_valid n V) V {} tx) (\<lambda>(b, _). VOk b)
        | TMint \<Rightarrow> check_mint n V tx
        | TGenesis \<Rightarrow> check_genesis (validate_tx n V) V tx
        | TInvalid \<Rightarrow> VOk False))"

definition validate_txid :: "nat \<Rightarrow> txid \<Rightarrow> slp_validator \<Rightarrow> (bool \<times> slp_validator) vres" where
  "validate_txid n t V = (case transaction_map V t of
       None \<Rightarrow> VOk (False, V)
     | Some tx \<Rightarrow> vbind (validate_tx n V tx) (\<lambda>is_valid.
         VOk (is_valid, if is_valid then snd (add_valid_txid t V) else V)))"

definition add_tx :: "nat \<Rightarrow> transaction \<Rightarrow> bool \<Rightarrow> slp_validator \<Rightarrow> (bool \<times> slp_validator) vres" where
  "add_tx n tx trusted V =
     (if slp_type (slp tx) \<noteq> TInvalid then
        (let inserted = (transaction_map V (txid tx) = None);
             V = (if inserted then V\<lparr>transaction_map := (transaction_map V)(txid tx \<mapsto> tx)\<rparr> else V) in
         if trusted then VOk (inserted, snd (add_valid_txid (txid tx) V))
         else vbind (validate_txid n (txid tx) V) (\<lambda>(ok, V). VOk (ok \<and> inserted, V)))
      else VOk (False, V))"


section \<open>What validation computes\<close>

text \<open>
  A transaction as the parser makes it: the type is that of the payload, a token is named by its
  GENESIS, and the numbers of inputs and of amounts are bounded, so that sums of 64-bit amounts
  fit 128 bits.
\<close>

definition slp_wf :: "transaction \<Rightarrow> bool" where
  "slp_wf tx \<longleftrightarrow> slp_type (slp tx) = variant_type (slp_tx (slp tx)) \<and> length (inputs tx) < MAX_TX_SIZE
     \<and> (case slp_tx (slp tx) of
          SlpSend s \<Rightarrow> length (amounts s) \<le> 19
        | SlpGenesis g \<Rightarrow> slp_tokenid (slp tx) = txid tx
        | _ \<Rightarrow> True)"

definition validator_inv :: "slp_validator \<Rightarrow> bool" where
  "validator_inv V \<longleftrightarrow> (\<forall>t tx. transaction_map V t = Some tx \<longrightarrow>
     txid tx = t \<and> slp_wf tx \<and> slp_type (slp tx) \<noteq> TInvalid)"

text \<open>What an input brings: the amount of an output of a valid transaction of the same token.\<close>

definition spendable :: "slp_validator \<Rightarrow> transaction \<Rightarrow> outpoint \<Rightarrow> nat" where
  "spendable V tx i = (case transaction_map V (op_txid i) of
       None \<Rightarrow> 0
     | Some txi \<Rightarrow> if has_valid V (op_txid i) \<and> same_token tx txi
         then unat (output_slp_amount txi (ucast (op_vout i))) else 0)"

definition send_total :: "slp_validator \<Rightarrow> transaction \<Rightarrow> nat" where
  "send_total V tx = (\<Sum>i \<leftarrow> inputs tx. spendable V tx i)"

definition sent :: "u64 list \<Rightarrow> nat" where
  "sent ns = (\<Sum>n \<leftarrow> ns. unat n)"

lemma spendable_lt: "spendable V tx i < 2 ^ 64"
  using unsigned_less [of "output_slp_amount txi v" for txi v, where ?'a = nat]
  by (auto simp: spendable_def split: option.splits)

lemma sum_list_lt:
  fixes f :: "'a \<Rightarrow> nat"
  assumes "\<And>x. f x < b"
  shows "(\<Sum>x \<leftarrow> xs. f x) \<le> length xs * b"
proof (induction xs)
  case (Cons x xs)
  then show ?case using assms [of x] by simp
qed simp

lemma ucast_u128: "(ucast (n :: u64) :: u128) = of_nat (unat n)"
  by (simp only: of_nat_unat)

lemma sum_u128_eq: "sum_u128 ns = of_nat (sent ns)"
proof -
  have "fold (\<lambda>n acc. acc + ucast n) ns a = a + (of_nat (sent ns) :: u128)" for a
    by (induction ns arbitrary: a) (simp_all add: sent_def ucast_u128 del: of_nat_unat)
  then show ?thesis by (simp add: sum_u128_def)
qed

lemma unat_sum_u128:
  assumes "length ns \<le> 19"
  shows "unat (of_nat (sent ns) :: u128) = sent ns"
proof -
  have "sent ns \<le> length ns * 2 ^ 64"
    unfolding sent_def using unat_u64_lt by (intro sum_list_lt) simp
  also have "\<dots> < 2 ^ 128" using assms by simp
  finally show ?thesis by (simp add: unat_of_nat)
qed

lemma unat_send_total:
  assumes "length (inputs tx) < MAX_TX_SIZE"
  shows "unat (of_nat (send_total V tx) :: u128) = send_total V tx"
proof -
  have "send_total V tx \<le> length (inputs tx) * 2 ^ 64"
    unfolding send_total_def by (rule sum_list_lt) (rule spendable_lt)
  also have "\<dots> < 2 ^ 128" using assms by (simp add: MAX_TX_SIZE_def)
  finally show ?thesis by (simp add: unat_of_nat)
qed

text \<open>An input whose transaction is valid needs no further validation: the recursion ends there.\<close>

lemma check_outputs_known:
  assumes "validator_inv V" and "transaction_map V t = Some txi" and "has_valid V t"
  shows "\<exists>seen'. check_outputs_valid (Suc n) V seen txi = VOk (True, seen')"
proof -
  have "txid txi = t" using assms(1,2) by (simp add: validator_inv_def)
  then show ?thesis using assms(2,3) by (simp add: validator_has_def has_valid_def Let_def)
qed

lemma send_inputs_eq:
  assumes "validator_inv V"
  shows "\<exists>seen'. send_inputs (check_outputs_valid (Suc n) V) V tx is' acc seen
    = VOk (acc + of_nat (\<Sum>i \<leftarrow> is'. spendable V tx i), seen')"
proof (induction is' arbitrary: acc seen)
  case (Cons i is')
  show ?case
  proof (cases "transaction_map V (op_txid i)")
    case None
    then show ?thesis using Cons.IH by (simp add: spendable_def)
  next
    case (Some txi)
    show ?thesis
    proof (cases "has_valid V (op_txid i) \<and> same_token tx txi")
      case True
      obtain seen' where c: "check_outputs_valid (Suc n) V seen txi = VOk (True, seen')"
        using check_outputs_known [OF assms Some] True by blast
      have e: "(ucast a :: u128) = of_nat (unat a)" for a :: u64 by (rule ucast_u128)
      show ?thesis
        using True Some c Cons.IH [of "acc + of_nat (spendable V tx i)" seen']
        by (simp add: spendable_def same_token_def e add.assoc del: of_nat_unat check_outputs_valid.simps)
    next
      case False
      with Some Cons.IH show ?thesis by (auto simp: spendable_def same_token_def simp del: check_outputs_valid.simps)
    qed
  qed
qed simp

lemma check_send_eq:
  assumes "validator_inv V" and "slp_wf tx" and "slp_tx (slp tx) = SlpSend s"
  shows "\<exists>seen'. check_send (check_outputs_valid (Suc n) V) V seen tx = VOk (sent (amounts s) \<le> send_total V tx, seen')"
proof -
  obtain seen' where i: "send_inputs (check_outputs_valid (Suc n) V) V tx (inputs tx) 0 seen
    = VOk (of_nat (send_total V tx), seen')"
    using send_inputs_eq [OF assms(1), of n tx "inputs tx" 0 seen] by (auto simp: send_total_def)
  have "unat (of_nat (sent (amounts s)) :: u128) = sent (amounts s)"
    and "unat (of_nat (send_total V tx) :: u128) = send_total V tx"
    using assms(2,3) by (simp_all add: slp_wf_def unat_sum_u128 unat_send_total)
  then show ?thesis
    by (auto simp: check_send_def assms(3) i sum_u128_eq word_less_nat_alt Let_def simp del: check_outputs_valid.simps)
qed


section \<open>The judgement\<close>

text \<open>
  Validation without recursion. A MINT is accepted when one of the transactions it takes the
  baton from is a GENESIS, or else when those have a baton source themselves; different
  grandparents make the walk throw.
\<close>

definition baton_sources :: "slp_validator \<Rightarrow> transaction \<Rightarrow> transaction list" where
  "baton_sources V tx = List.map_filter (baton_source V tx) (inputs tx)"

definition mint_judgement :: "slp_validator \<Rightarrow> transaction \<Rightarrow> bool vres" where
  "mint_judgement V tx = (let srcs = baton_sources V tx;
       grand = concat (map (walk_mints_home V tx) srcs) in
     if \<exists>g \<in> set srcs. slp_type (slp g) = TGenesis then VOk True
     else if grand = [] then VOk False
     else if \<forall>g \<in> set grand. txid g = txid (hd grand) then VOk True else VThrow)"

definition genesis_judgement :: "slp_validator \<Rightarrow> transaction \<Rightarrow> bool" where
  "genesis_judgement V tx \<longleftrightarrow> (slp_token_type (slp tx) = 0x41 \<longrightarrow>
     (\<exists>i is' txi. inputs tx = i # is' \<and> has_valid V (op_txid i) \<and> transaction_map V (op_txid i) = Some txi
       \<and> slp_token_type (slp txi) = 0x81 \<and> 0 < output_slp_amount txi (ucast (op_vout i))))"

definition judgement :: "slp_validator \<Rightarrow> transaction \<Rightarrow> bool vres" where
  "judgement V tx =
     (if slp_type (slp tx) \<noteq> TInvalid \<and> has_valid V (txid tx) then VOk True
      else (case slp_tx (slp tx) of
          SlpSend s \<Rightarrow> VOk (sent (amounts s) \<le> send_total V tx)
        | SlpMint m \<Rightarrow> mint_judgement V tx
        | SlpGenesis g \<Rightarrow> VOk (genesis_judgement V tx)
        | SlpInvalid \<Rightarrow> VOk False))"

lemma walk_mints_home_sources: "walk_mints_home V tx tx = baton_sources V tx"
  by (simp add: walk_mints_home_def baton_sources_def)

lemma mint_fronts_eq:
  "mint_fronts V back fs ins = (if \<exists>f \<in> set fs. slp_type (slp f) = TGenesis then None
     else Some (ins @ concat (map (walk_mints_home V back) fs)))"
  by (induction fs arbitrary: ins) auto

lemma baton_source_Some:
  "baton_source V front i = Some txi \<longleftrightarrow> has_valid V (op_txid i) \<and> transaction_map V (op_txid i) = Some txi
     \<and> same_token front txi \<and> i = mint_baton_outpoint txi \<and> slp_type (slp txi) \<in> {TMint, TGenesis}"
  by (auto simp: baton_source_def same_token_def split: option.splits)

lemma mint_baton_txid [simp]: "op_txid (mint_baton_outpoint tx) = txid tx"
  by (simp add: mint_baton_outpoint_def split: slp_tx_variant.split)

lemma set_map_filter_iff: "y \<in> set (List.map_filter f xs) \<longleftrightarrow> (\<exists>x \<in> set xs. f x = Some y)"
  by (induction xs) (auto simp: List.map_filter_simps split: option.splits)

lemma walk_valid: "g \<in> set (walk_mints_home V front back) \<Longrightarrow> has_valid V (txid g)"
  by (auto simp: walk_mints_home_def set_map_filter_iff baton_source_Some split: if_splits)

lemma check_mint_eq: "check_mint (Suc n) V tx = mint_judgement V tx"
proof -
  let ?srcs = "baton_sources V tx"
  let ?grand = "concat (map (walk_mints_home V tx) ?srcs)"
  show ?thesis
  proof (cases "\<exists>g \<in> set ?srcs. slp_type (slp g) = TGenesis")
    case True
    then show ?thesis
      by (simp add: check_mint_def walk_mints_home_sources mint_fronts_eq mint_judgement_def Let_def)
  next
    case False
    show ?thesis
    proof (cases ?grand)
      case Nil
      then show ?thesis using False
        by (simp add: check_mint_def walk_mints_home_sources mint_fronts_eq mint_judgement_def Let_def)
    next
      case (Cons g gs)
      have "g \<in> set ?grand" using Cons by simp
      then have "has_valid V (txid g)" by (auto dest: walk_valid)
      then show ?thesis using False Cons
        by (auto simp: check_mint_def walk_mints_home_sources mint_fronts_eq mint_judgement_def Let_def)
    qed
  qed
qed

lemma check_genesis_eq:
  assumes "validator_inv V"
  shows "check_genesis (validate_tx (Suc n) V) V tx = VOk (genesis_judgement V tx)"
proof -
  have "validate_tx (Suc n) V txi = VOk True" if "transaction_map V t = Some txi" "has_valid V t" for t txi
    using that assms by (auto simp: validator_inv_def)
  then show ?thesis
    by (auto simp: check_genesis_def genesis_judgement_def word_less_nat_alt unat_gt_0 unat_eq_zero not_less
        simp del: validate_tx.simps split: list.split option.split)
qed

lemma validate_tx_eq:
  assumes "validator_inv V" and "slp_wf tx"
  shows "validate_tx (Suc (Suc n)) V tx = judgement V tx"
proof -
  have t: "slp_type (slp tx) = variant_type (slp_tx (slp tx))" using assms(2) by (simp add: slp_wf_def)
  show ?thesis
  proof (cases "slp_tx (slp tx)")
    case (SlpSend s)
    obtain seen' where "check_send (check_outputs_valid (Suc n) V) V {} tx
      = VOk (sent (amounts s) \<le> send_total V tx, seen')"
      using check_send_eq [OF assms SlpSend] by blast
    then show ?thesis
      by (simp add: validate_tx.simps(2) [of "Suc n"] judgement_def t SlpSend
          del: validate_tx.simps check_outputs_valid.simps)
  next
    case (SlpMint m)
    then show ?thesis
      by (simp add: validate_tx.simps(2) [of "Suc n"] judgement_def t check_mint_eq
          del: validate_tx.simps check_outputs_valid.simps)
  next
    case (SlpGenesis g)
    then show ?thesis
      by (simp add: validate_tx.simps(2) [of "Suc n"] judgement_def t check_genesis_eq [OF assms(1)]
          del: validate_tx.simps check_outputs_valid.simps)
  next
    case SlpInvalid
    then show ?thesis by (simp add: judgement_def t)
  qed
qed

lemma validate_tx_fuel:
  assumes "validator_inv V" and "slp_wf tx" and "2 \<le> n"
  shows "validate_tx n V tx = judgement V tx"
proof -
  obtain k where "n = Suc (Suc k)" using assms(3) by (metis add_2_eq_Suc le_Suc_ex)
  then show ?thesis using validate_tx_eq [OF assms(1,2)] by simp
qed

lemma judgement_throws:
  assumes "slp_wf tx"
  shows "judgement V tx \<noteq> VFuel \<and> (judgement V tx = VThrow \<longrightarrow> slp_type (slp tx) = TMint)"
  using assms
  by (auto simp: judgement_def mint_judgement_def slp_wf_def Let_def split: slp_tx_variant.splits if_splits)

text \<open>C18: on a state that holds parsed transactions, validation needs two levels of recursion,
  however long the history is: it answers the judgement that reads only the parents' recorded
  validity - a SEND's amounts covered by the valid parents of the same token, a MINT's baton, the
  group token burnt by an NFT child GENESIS. It throws only for a MINT with different
  grandparents.\<close>

theorem validate_tx_judgement:
  assumes "validator_inv V" and "slp_wf tx" and "2 \<le> n"
  shows "validate_tx n V tx = judgement V tx \<and> judgement V tx \<noteq> VFuel
    \<and> (judgement V tx = VThrow \<longrightarrow> slp_type (slp tx) = TMint)"
  using validate_tx_fuel [OF assms] judgement_throws [OF assms(2)] by blast


section \<open>Validity is earned\<close>

text \<open>
  The rule of the token protocol, with the transactions of \<open>M\<close> and the ids \<open>T\<close> taken on trust:
  a SEND is covered by legitimate parents, a MINT takes the baton from one, a GENESIS stands
  alone unless it makes an NFT child, which burns a legitimate group token.
\<close>

definition carried :: "(txid \<rightharpoonup> transaction) \<Rightarrow> transaction \<Rightarrow> outpoint \<Rightarrow> nat" where
  "carried M tx i = (case M (op_txid i) of None \<Rightarrow> 0
     | Some txi \<Rightarrow> if same_token tx txi then unat (output_slp_amount txi (ucast (op_vout i))) else 0)"

inductive legit :: "(txid \<rightharpoonup> transaction) \<Rightarrow> txid set \<Rightarrow> txid \<Rightarrow> bool" for M T where
  legit_trusted: "t \<in> T \<Longrightarrow> legit M T t"
| legit_send: "M t = Some tx \<Longrightarrow> slp_tx (slp tx) = SlpSend s \<Longrightarrow> (\<And>p. p \<in> S \<Longrightarrow> legit M T p) \<Longrightarrow>
     sent (amounts s) \<le> (\<Sum>i \<leftarrow> filter (\<lambda>i. op_txid i \<in> S) (inputs tx). carried M tx i) \<Longrightarrow> legit M T t"
| legit_mint: "M t = Some tx \<Longrightarrow> slp_tx (slp tx) = SlpMint m \<Longrightarrow> i \<in> set (inputs tx) \<Longrightarrow> legit M T (op_txid i) \<Longrightarrow>
     M (op_txid i) = Some txi \<Longrightarrow> same_token tx txi \<Longrightarrow> i = mint_baton_outpoint txi \<Longrightarrow>
     slp_type (slp txi) \<in> {TMint, TGenesis} \<Longrightarrow> legit M T t"
| legit_genesis: "M t = Some tx \<Longrightarrow> slp_tx (slp tx) = SlpGenesis g \<Longrightarrow> slp_token_type (slp tx) \<noteq> 0x41 \<Longrightarrow> legit M T t"
| legit_child: "M t = Some tx \<Longrightarrow> slp_tx (slp tx) = SlpGenesis g \<Longrightarrow> inputs tx = i # is' \<Longrightarrow> legit M T (op_txid i) \<Longrightarrow>
     M (op_txid i) = Some txi \<Longrightarrow> slp_token_type (slp txi) = 0x81 \<Longrightarrow>
     0 < output_slp_amount txi (ucast (op_vout i)) \<Longrightarrow> legit M T t"

lemma carried_mono: "M \<subseteq>\<^sub>m M' \<Longrightarrow> carried M tx i \<le> carried M' tx i"
proof (cases "M (op_txid i)")
  case (Some txi)
  moreover assume "M \<subseteq>\<^sub>m M'"
  ultimately have "M' (op_txid i) = Some txi" by (metis domI map_le_def)
  with Some show ?thesis by (simp add: carried_def)
qed (simp add: carried_def)

lemma legit_mono:
  assumes "legit M T t" and "M \<subseteq>\<^sub>m M'" and "T \<subseteq> T'"
  shows "legit M' T' t"
  using assms(1)
proof (induction rule: legit.induct)
  have M': "M x = Some y \<Longrightarrow> M' x = Some y" for x y using assms(2) by (metis domI map_le_def)
  {
    case (legit_trusted t)
    then show ?case using assms(3) by (blast intro: legit.legit_trusted)
  next
    case (legit_send t tx s S)
    have "(\<Sum>i \<leftarrow> filter (\<lambda>i. op_txid i \<in> S) (inputs tx). carried M tx i)
      \<le> (\<Sum>i \<leftarrow> filter (\<lambda>i. op_txid i \<in> S) (inputs tx). carried M' tx i)"
      by (intro sum_list_mono carried_mono assms(2))
    with legit_send show ?case by (intro legit.legit_send [of M' t tx s S]) (auto intro: M')
  next
    case (legit_mint t tx m i txi)
    then show ?case by (intro legit.legit_mint [of M' t tx m i T' txi]) (auto intro: M')
  next
    case (legit_genesis t tx g)
    then show ?case by (intro legit.legit_genesis [of M' t tx g]) (auto intro: M')
  next
    case (legit_child t tx g i is' txi)
    then show ?case by (intro legit.legit_child [of M' t tx g i is' T' txi]) (auto intro: M')
  }
qed

text \<open>The judgement respects the rule.\<close>

lemma send_total_carried:
  "send_total V tx = (\<Sum>i \<leftarrow> filter (\<lambda>i. op_txid i \<in> valid_txids V) (inputs tx). carried (transaction_map V) tx i)"
proof -
  have "(\<Sum>i \<leftarrow> is'. spendable V tx i)
    = (\<Sum>i \<leftarrow> filter (\<lambda>i. op_txid i \<in> valid_txids V) is'. carried (transaction_map V) tx i)" for is'
    by (induction is') (simp_all add: spendable_def carried_def has_valid_def split: option.split)
  then show ?thesis by (simp add: send_total_def)
qed

lemma mint_judgement_source:
  assumes "mint_judgement V tx = VOk True"
  obtains i txi where "i \<in> set (inputs tx)" "baton_source V tx i = Some txi"
proof -
  have "baton_sources V tx \<noteq> []" using assms by (auto simp: mint_judgement_def split: if_splits)
  then obtain txi where "txi \<in> set (baton_sources V tx)" by (cases "baton_sources V tx") auto
  then show thesis using that by (auto simp: baton_sources_def set_map_filter_iff)
qed

lemma judgement_legit:
  assumes "judgement V tx = VOk True" and "transaction_map V t = Some tx" and "txid tx = t"
    and "\<And>p. p \<in> valid_txids V \<Longrightarrow> legit (transaction_map V) T p"
  shows "legit (transaction_map V) T t"
proof (cases "has_valid V t")
  case True
  then show ?thesis using assms(4) by (simp add: has_valid_def)
next
  case False
  show ?thesis
  proof (cases "slp_tx (slp tx)")
    case SlpInvalid
    then show ?thesis using False assms(1,3) by (simp add: judgement_def split: if_splits)
  next
    case (SlpGenesis g)
    then have j: "genesis_judgement V tx" using False assms(1,3) by (simp add: judgement_def split: if_splits)
    show ?thesis
    proof (cases "slp_token_type (slp tx) = 0x41")
      case True
      with j obtain i is' txi where "inputs tx = i # is'" "op_txid i \<in> valid_txids V"
        "transaction_map V (op_txid i) = Some txi" "slp_token_type (slp txi) = 0x81"
        "0 < output_slp_amount txi (ucast (op_vout i))"
        by (auto simp: genesis_judgement_def has_valid_def)
      then show ?thesis
        by (intro legit.legit_child [of "transaction_map V" t, OF assms(2) SlpGenesis]) (auto intro: assms(4))
    qed (rule legit.legit_genesis [of "transaction_map V" t, OF assms(2) SlpGenesis])
  next
    case (SlpMint m)
    then have "mint_judgement V tx = VOk True" using False assms(1,3) by (simp add: judgement_def split: if_splits)
    then obtain i txi where "i \<in> set (inputs tx)" "baton_source V tx i = Some txi"
      by (rule mint_judgement_source)
    then show ?thesis
      by (intro legit.legit_mint [of "transaction_map V" t, OF assms(2) SlpMint, of i]) (auto simp: baton_source_Some has_valid_def intro: assms(4))
  next
    case (SlpSend s)
    then have "sent (amounts s) \<le> send_total V tx" using False assms(1,3) by (simp add: judgement_def split: if_splits)
    then show ?thesis using assms(4)
      by (intro legit.legit_send [of "transaction_map V" t, OF assms(2) SlpSend, of "valid_txids V"]) (auto simp: send_total_carried)
  qed
qed


section \<open>The validator as a state machine\<close>

text \<open>
  The state is the validator with the ids taken on trust. The server adds transactions while
  it reads blocks and the mempool, trusted or not; the command line tool validates by id.
\<close>

inductive validator_step :: "slp_validator \<times> txid set \<Rightarrow> slp_validator \<times> txid set \<Rightarrow> bool" where
  step_add: "slp_wf tx \<Longrightarrow> add_tx 2 tx trusted V = VOk (b, V') \<Longrightarrow>
     validator_step (V, T) (V', if trusted then insert (txid tx) T else T)"
| step_validate: "validate_txid 2 t V = VOk (b, V') \<Longrightarrow> validator_step (V, T) (V', T)"
| step_mark: "add_valid_txid t V = (b, V') \<Longrightarrow> validator_step (V, T) (V', insert t T)"

definition validator_new :: slp_validator where
  "validator_new = \<lparr>transaction_map = Map.empty, valid_txids = {}\<rparr>"

fun validator_sound :: "slp_validator \<times> txid set \<Rightarrow> bool" where
  "validator_sound (V, T) \<longleftrightarrow> validator_inv V \<and> (\<forall>t \<in> valid_txids V. legit (transaction_map V) T t)"

declare validator_sound.simps [simp del]

definition with_tx :: "transaction \<Rightarrow> slp_validator \<Rightarrow> slp_validator" where
  "with_tx tx V = (if transaction_map V (txid tx) = None
     then V\<lparr>transaction_map := (transaction_map V)(txid tx \<mapsto> tx)\<rparr> else V)"

lemma with_tx_fields [state_simps]:
  "valid_txids (with_tx tx V) = valid_txids V"
  "transaction_map V \<subseteq>\<^sub>m transaction_map (with_tx tx V)"
  by (auto simp: with_tx_def map_le_def)

lemma with_tx_sound:
  assumes "validator_sound (V, T)" and "slp_wf tx" and "slp_type (slp tx) \<noteq> TInvalid"
  shows "validator_sound (with_tx tx V, T)"
  using assms legit_mono [OF _ with_tx_fields(2) subset_refl, of V T _ tx]
  by (auto simp: validator_sound.simps validator_inv_def state_simps) (auto simp: with_tx_def split: if_splits)

lemma mark_sound:
  assumes "validator_sound (V, T)" and "T \<subseteq> T'" and "legit (transaction_map V) T' t"
  shows "validator_sound (snd (add_valid_txid t V), T')"
  using assms legit_mono [OF _ map_le_refl assms(2)]
  by (auto simp: validator_sound.simps add_valid_txid_def validator_inv_def)

lemma validate_txid_sound:
  assumes "validator_sound (V, T)" and "validate_txid 2 t V = VOk (b, V')"
  shows "validator_sound (V', T)"
proof (cases "transaction_map V t")
  case None
  then show ?thesis using assms by (auto simp: validate_txid_def)
next
  case (Some tx)
  have wf: "validator_inv V" "slp_wf tx" "txid tx = t" using assms(1) Some by (auto simp: validator_sound.simps validator_inv_def)
  have j: "validate_tx 2 V tx = judgement V tx" using validate_tx_fuel [OF wf(1,2)] by simp
  from assms(2) Some j have "judgement V tx = VOk b" and V': "V' = (if b then snd (add_valid_txid t V) else V)"
    by (cases "judgement V tx"; simp add: validate_txid_def)+
  then show ?thesis
    using assms(1) judgement_legit [of V tx t T] Some wf(3)
    by (cases b) (auto intro!: mark_sound simp: validator_sound.simps [of V])
qed

lemma add_tx_unfold:
  "add_tx n tx trusted V = (if slp_type (slp tx) = TInvalid then VOk (False, V)
     else if trusted then VOk (transaction_map V (txid tx) = None, snd (add_valid_txid (txid tx) (with_tx tx V)))
     else vbind (validate_txid n (txid tx) (with_tx tx V)) (\<lambda>(ok, V'). VOk (ok \<and> transaction_map V (txid tx) = None, V')))"
  by (simp add: add_tx_def with_tx_def Let_def)

lemma validator_step_sound:
  assumes "validator_sound s" and "validator_step s s'"
  shows "validator_sound s'"
  using assms(2,1)
proof (cases rule: validator_step.cases)
  case (step_add tx trusted V b V' T)
  show ?thesis
  proof (cases "slp_type (slp tx) = TInvalid")
    case True
    then show ?thesis using step_add assms(1)
      by (auto simp: add_tx_unfold validator_sound.simps intro: legit_mono [OF _ map_le_refl])
  next
    case False
    have w: "validator_sound (with_tx tx V, T)"
      using step_add assms(1) by (intro with_tx_sound [OF _ _ False]) simp_all
    show ?thesis
    proof (cases trusted)
      case True
      then have "V' = snd (add_valid_txid (txid tx) (with_tx tx V))" using step_add False by (simp add: add_tx_unfold)
      then show ?thesis
        using step_add True mark_sound [OF w, of "insert (txid tx) T" "txid tx"] by (auto intro: legit_trusted)
    next
      case False
      then obtain ok where "validate_txid 2 (txid tx) (with_tx tx V) = VOk (ok, V')"
        using step_add \<open>slp_type (slp tx) \<noteq> TInvalid\<close>
        by (cases "validate_txid 2 (txid tx) (with_tx tx V)") (auto simp: add_tx_unfold)
      then show ?thesis using validate_txid_sound [OF w] step_add False by simp
    qed
  qed
next
  case (step_validate t V b V' T)
  then show ?thesis using validate_txid_sound assms(1) by simp
next
  case (step_mark t V b V' T)
  then have V': "V' = snd (add_valid_txid t V)" by simp
  have "validator_sound (V, T)" using assms(1) step_mark(1) by simp
  from mark_sound [OF this subset_insertI legit_trusted [OF insertI1]] show ?thesis
    unfolding step_mark(2) V' .
qed

interpretation vm: machine "\<lambda>s. s = (validator_new, {})" validator_step validator_sound
  by unfold_locales (auto simp: validator_sound.simps validator_new_def validator_inv_def intro: validator_step_sound)

text \<open>C17: in every reachable state of the validator each id it holds valid is legitimate by the
  protocol's rule, over the transactions it holds and the ids it was told to trust.\<close>

theorem validator_accepts_legit:
  assumes "reach (\<lambda>s. s = (validator_new, {})) validator_step (V, T)" and "has_valid V t"
  shows "legit (transaction_map V) T t"
  using vm.reach_inv [OF assms(1)] assms(2) by (auto simp: validator_sound.simps has_valid_def)


text \<open>A transaction that moves tokens: a SEND of a positive amount, a MINT or a GENESIS.\<close>

definition moves :: "transaction \<Rightarrow> bool" where
  "moves tx \<longleftrightarrow> (case slp_tx (slp tx) of SlpSend s \<Rightarrow> 0 < sent (amounts s) | SlpInvalid \<Rightarrow> False | _ \<Rightarrow> True)"

lemma amount_moves: "0 < output_slp_amount tx v \<Longrightarrow> moves tx"
proof -
  have "0 < sent ns" if "k < length ns" and "0 < ns ! k" for ns k
    using that elem_le_sum_list [of k "map unat ns"] by (simp add: sent_def word_less_nat_alt)
  then show "0 < output_slp_amount tx v \<Longrightarrow> moves tx"
    by (auto simp: output_slp_amount_def moves_def split: slp_tx_variant.splits if_splits)
qed

lemma carried_source:
  assumes "0 < (\<Sum>i \<leftarrow> is'. carried M tx i)"
  obtains i txi where "i \<in> set is'" "M (op_txid i) = Some txi" "same_token tx txi" "moves txi"
proof -
  have "\<not> (\<forall>n \<in> set (map (carried M tx) is'). n = 0)"
    using assms sum_list_eq_0_iff [of "map (carried M tx) is'"] by (metis less_irrefl)
  then obtain i where i: "i \<in> set is'" "carried M tx i \<noteq> 0" by auto
  then show thesis
    using that amount_moves by (auto simp: carried_def word_less_nat_alt split: option.splits if_splits)
qed

lemma legit_origin:
  assumes "legit M {} t" and "M t = Some tx" and "moves tx"
    and "\<And>t tx. M t = Some tx \<Longrightarrow> slp_type (slp tx) = variant_type (slp_tx (slp tx))"
  shows "\<exists>g gtx. M g = Some gtx \<and> slp_type (slp gtx) = TGenesis \<and> same_token tx gtx"
  using assms(1-3)
proof (induction arbitrary: tx rule: legit.induct)
  case (legit_send t tx' s S)
  then have "0 < (\<Sum>i \<leftarrow> filter (\<lambda>i. op_txid i \<in> S) (inputs tx). carried M tx i)"
    by (auto simp: moves_def)
  then obtain i txi where i: "i \<in> set (filter (\<lambda>i. op_txid i \<in> S) (inputs tx))"
    "M (op_txid i) = Some txi" "same_token tx txi" "moves txi" by (rule carried_source)
  moreover from i have "op_txid i \<in> S" by simp
  with i legit_send.IH obtain g gtx
    where "M g = Some gtx" "slp_type (slp gtx) = TGenesis" "same_token txi gtx" by blast
  ultimately show ?case unfolding same_token_def by metis
next
  case (legit_mint t tx' m i txi)
  then have "moves txi" using assms(4) [of "op_txid i" txi]
    by (auto simp: moves_def split: slp_tx_variant.split)
  with legit_mint obtain g gtx
    where "M g = Some gtx" "slp_type (slp gtx) = TGenesis" "same_token txi gtx" by blast
  then show ?case using legit_mint.hyps legit_mint.prems unfolding same_token_def by (metis option.inject)
next
  case (legit_genesis t tx' g)
  then show ?case using assms(4) [of t tx] by (auto simp: same_token_def intro!: exI [of _ t])
next
  case (legit_child t tx' g i is' txi)
  then show ?case using assms(4) [of t tx] by (auto simp: same_token_def intro!: exI [of _ t])
qed simp

text \<open>a validator that trusts nothing knows where its tokens come from: for each valid
  transaction that moves tokens, the token id names a GENESIS it holds, of the same type.\<close>

theorem token_origin:
  assumes "reach (\<lambda>s. s = (validator_new, {})) validator_step (V, {})" and "has_valid V t"
    and "transaction_map V t = Some tx" and "moves tx"
  shows "\<exists>gtx. transaction_map V (slp_tokenid (slp tx)) = Some gtx \<and> slp_type (slp gtx) = TGenesis
    \<and> txid gtx = slp_tokenid (slp tx) \<and> slp_token_type (slp gtx) = slp_token_type (slp tx)"
proof -
  have i: "validator_inv V" and l: "legit (transaction_map V) {} t"
    using vm.reach_inv [OF assms(1)] assms(2) by (auto simp: validator_sound.simps has_valid_def)
  have "slp_wf y" if "transaction_map V x = Some y" for x y using i that by (simp add: validator_inv_def)
  then have ty: "transaction_map V x = Some y \<Longrightarrow> slp_type (slp y) = variant_type (slp_tx (slp y))" for x y
    by (simp add: slp_wf_def)
  have "\<exists>g gtx. transaction_map V g = Some gtx \<and> slp_type (slp gtx) = TGenesis \<and> same_token tx gtx"
    using legit_origin [OF l assms(3,4)] ty by blast
  then obtain g gtx where
    g: "transaction_map V g = Some gtx" "slp_type (slp gtx) = TGenesis" "same_token tx gtx" by blast
  then have "txid gtx = g" and "slp_wf gtx" using i by (auto simp: validator_inv_def)
  with g have "slp_tokenid (slp gtx) = g"
    by (cases "slp_tx (slp gtx)") (auto simp: slp_wf_def)
  then show ?thesis using g \<open>txid gtx = g\<close> by (auto simp: same_token_def)
qed

lemma send_judged:
  assumes "validator_inv V" and "slp_wf tx" and "slp_tx (slp tx) = SlpSend s" and "2 \<le> n"
    and "transaction_map V (txid tx) = None" and "\<not> has_valid V (txid tx)"
  shows "validate_tx n (with_tx tx V) tx = VOk (sent (amounts s) \<le> send_total V tx)"
proof -
  let ?V = "with_tx tx V"
  have ty: "slp_type (slp tx) = TSend" using assms(2,3) by (simp add: slp_wf_def)
  have "validator_inv ?V" using assms(1,2) ty by (auto simp: validator_inv_def with_tx_def)
  then have j: "validate_tx n ?V tx = judgement ?V tx" by (rule validate_tx_fuel [OF _ assms(2,4)])
  have "spendable ?V tx i = spendable V tx i" for i
    using assms(5,6) by (auto simp: spendable_def with_tx_def has_valid_def split: option.split)
  then have "send_total ?V tx = send_total V tx" by (simp add: send_total_def)
  then show ?thesis using assms(3,6) by (simp add: j judgement_def has_valid_def state_simps)
qed

text \<open>adding an unknown SEND without trust marks it valid exactly when its amounts are covered by
  the amounts its inputs carry from valid transactions of the same token; it is stored in any case,
  and nothing else changes.\<close>

theorem add_send_conserves:
  assumes "validator_inv V" and "slp_wf tx" and "slp_tx (slp tx) = SlpSend s" and "2 \<le> n"
    and "transaction_map V (txid tx) = None" and "\<not> has_valid V (txid tx)"
  shows "\<exists>V'. add_tx n tx False V = VOk (sent (amounts s) \<le> send_total V tx, V')
    \<and> transaction_map V' = (transaction_map V)(txid tx \<mapsto> tx)
    \<and> valid_txids V' = (if sent (amounts s) \<le> send_total V tx then insert (txid tx) (valid_txids V) else valid_txids V)"
proof -
  have "slp_type (slp tx) = TSend" using assms(2,3) by (simp add: slp_wf_def)
  then show ?thesis
    using assms(5) send_judged [OF assms] by (simp add: add_tx_unfold validate_txid_def) (simp add: with_tx_def add_valid_txid_def)
qed


text \<open>What the transaction parser delivers is what the validator expects: the type matches the
  payload, the amounts and inputs are few enough for 128-bit sums, and a GENESIS is named by its id.\<close>

theorem parsed_slp_wf:
  assumes "tx_hydrate sha256 tt (transaction_new v0 l0 t0) it = Ok tx"
  shows "slp_wf tx"
  using tx_hydrate_Ok [OF assms]
  by (auto simp: slp_wf_def slp_msg_ok_def split: slp_tx_variant.split)

theorem parsed_slp_wf_witness:
  "\<exists>t. tx_hydrate id 0 (transaction_new 0 0 0) (ser_tx 2 example_ins [(546, [0x51])] 7 @ [0xFF]) = Ok t \<and> slp_wf t"
  using example_hydrates parsed_slp_wf by blast

section \<open>An example: a token is created and sent\<close>

definition example_genesis_tx :: transaction where
  "example_genesis_tx = \<lparr>txid = replicate 32 1, version = 1, lock_time = 0, inputs = [],
     outputs = [\<lparr>prev_tx_id = replicate 32 1, prev_out_idx = 0, out_value = 0, out_script = [0x6A]\<rparr>,
       \<lparr>prev_tx_id = replicate 32 1, prev_out_idx = 1, out_value = 546, out_script = [0x51]\<rparr>],
     slp = \<lparr>slp_tokenid = replicate 32 1, slp_token_type = 1, slp_type = TGenesis,
       slp_tx = SlpGenesis \<lparr>ticker = [], name = [], document_uri = [], document_hash = [], decimals = 0,
         genesis_has_mint_baton = False, genesis_mint_baton_vout = 0, genesis_qty = 100\<rparr>\<rparr>, serialized = [1]\<rparr>"

definition example_send_tx :: transaction where
  "example_send_tx = \<lparr>txid = replicate 32 2, version = 1, lock_time = 0,
     inputs = [\<lparr>op_txid = replicate 32 1, op_vout = 1\<rparr>],
     outputs = [\<lparr>prev_tx_id = replicate 32 2, prev_out_idx = 0, out_value = 0, out_script = [0x6A]\<rparr>,
       \<lparr>prev_tx_id = replicate 32 2, prev_out_idx = 1, out_value = 546, out_script = [0x52]\<rparr>],
     slp = \<lparr>slp_tokenid = replicate 32 1, slp_token_type = 1, slp_type = TSend,
       slp_tx = SlpSend \<lparr>amounts = [60, 40]\<rparr>\<rparr>, serialized = [2]\<rparr>"

definition example_state :: slp_validator where
  "example_state = \<lparr>transaction_map = [replicate 32 1 \<mapsto> example_genesis_tx], valid_txids = {replicate 32 1}\<rparr>"

definition example_sent_state :: slp_validator where
  "example_sent_state = \<lparr>transaction_map = [replicate 32 1 \<mapsto> example_genesis_tx, replicate 32 2 \<mapsto> example_send_tx],
     valid_txids = {replicate 32 1, replicate 32 2}\<rparr>"

lemmas example_defs = example_genesis_tx_def example_send_tx_def example_state_def example_sent_state_def
  slp_wf_def MAX_TX_SIZE_def

lemma replicate_neq: "(replicate 32 (1 :: byte) = replicate 32 2) = False"
  by (simp add: list_eq_iff_nth_eq exI [of _ 0])

lemma example_inv: "validator_inv example_state" and example_wf: "slp_wf example_genesis_tx" "slp_wf example_send_tx"
  by (simp_all add: validator_inv_def example_defs)

lemma example_covered:
  "sent [60, 40] = 100" "send_total example_state example_send_tx = 100"
  by (simp_all add: sent_def send_total_def spendable_def same_token_def has_valid_def output_slp_amount_def example_defs)

lemma example_facts:
  "slp_tx (slp example_send_tx) = SlpSend \<lparr>amounts = [60, 40]\<rparr>" "txid example_send_tx = replicate 32 2"
  "slp_type (slp example_send_tx) = TSend"
  "transaction_map example_state (replicate 32 2) = None" "\<not> has_valid example_state (replicate 32 2)"
  by (simp_all add: example_defs has_valid_def replicate_neq)

lemma example_judged: "judgement example_state example_send_tx = VOk True"
  by (simp add: judgement_def example_facts example_covered)

lemma example_steps:
  "add_tx 2 example_genesis_tx False validator_new = VOk (True, example_state)"
  "add_tx 2 example_send_tx False example_state = VOk (True, example_sent_state)"
proof -
  have "validate_txid (Suc (Suc 0)) (replicate 32 1) (with_tx example_genesis_tx validator_new) = VOk (True, example_state)"
    by (simp add: validate_txid_def check_genesis_def has_valid_def add_valid_txid_def with_tx_def
        validator_new_def example_defs)
  then show "add_tx 2 example_genesis_tx False validator_new = VOk (True, example_state)"
    by (simp add: add_tx_unfold validator_new_def example_genesis_tx_def numeral_2_eq_2)
  let ?V = "with_tx example_send_tx example_state"
  have "validator_inv ?V" using example_inv example_wf(2) by (auto simp: validator_inv_def with_tx_def example_facts)
  then have "validate_tx 2 ?V example_send_tx = judgement ?V example_send_tx"
    by (rule validate_tx_fuel [OF _ example_wf(2)]) simp
  also have "\<dots> = VOk True"
    by (simp add: judgement_def sent_def send_total_def spendable_def same_token_def has_valid_def output_slp_amount_def
        with_tx_def example_defs replicate_neq)
  finally have "validate_txid 2 (replicate 32 2) ?V = VOk (True, example_sent_state)"
    by (simp add: validate_txid_def with_tx_def add_valid_txid_def example_facts)
      (simp add: example_defs insert_commute replicate_neq)
  then show "add_tx 2 example_send_tx False example_state = VOk (True, example_sent_state)"
    by (simp add: add_tx_unfold example_facts)
qed

lemma example_trail: "reach (\<lambda>s. s = (validator_new, {})) validator_step (example_sent_state, {})"
proof -
  have s: "validator_step (validator_new, {}) (example_state, {})"
    "validator_step (example_state, {}) (example_sent_state, {})"
    using step_add [OF example_wf(1) example_steps(1), of "{}"] step_add [OF example_wf(2) example_steps(2), of "{}"]
    by simp_all
  have "reach (\<lambda>s. s = (validator_new, {})) validator_step (validator_new, {})" by (rule reach_init) simp
  then show ?thesis using s by (blast intro: reach_step)
qed

theorem add_send_conserves_witness:
  "\<exists>V'. add_tx 2 example_send_tx False example_state = VOk (True, V') \<and> has_valid V' (replicate 32 2)"
  using add_send_conserves [OF example_inv example_wf(2) example_facts(1), of 2]
  using example_facts(5) by (auto simp: example_facts(2,4) example_covered has_valid_def)

theorem validate_tx_judgement_witness: "validate_tx 5 example_state example_send_tx = VOk True"
  using validate_tx_judgement [OF example_inv example_wf(2), of 5] by (simp add: example_judged)

lemma example_sent_facts:
  "has_valid example_sent_state (replicate 32 2)" "moves example_send_tx"
  "transaction_map example_sent_state (replicate 32 2) = Some example_send_tx"
  by (simp_all add: example_sent_state_def has_valid_def moves_def example_facts example_covered)

theorem validator_accepts_legit_witness: "legit (transaction_map example_sent_state) {} (replicate 32 2)"
  by (rule validator_accepts_legit [OF example_trail example_sent_facts(1)])

theorem token_origin_witness:
  "\<exists>gtx. transaction_map example_sent_state (slp_tokenid (slp example_send_tx)) = Some gtx \<and> slp_type (slp gtx) = TGenesis"
  using token_origin [OF example_trail example_sent_facts(1,3,2)] by blast

end
