(* ===== verification/GraphService.thy ===== *)
theory GraphService
  imports TxGraph SlpValidator
begin

text \<open>
  The request handlers of \<open>GraphSearchServiceImpl\<close> in \<open>server/gs++.cpp\<close> over the transaction
  graph and the validator: \<open>GraphSearch\<close>, \<open>TrustedValidation\<close>, \<open>TrustedValidationBulk\<close> and
  \<open>OutputOracle\<close>. What they take from outside the repository is a record of parameters. A result
  \<open>None\<close> is a handler that does not return or reads outside its data; the theorems exclude it.
\<close>

section \<open>Requests\<close>

record graph_env =
  env_sha256 :: "bytes \<Rightarrow> bytes"
  env_sign :: "bytes \<Rightarrow> bytes"
  env_set_order :: "node_ptr set \<Rightarrow> node_ptr list"
  env_max_exclusion :: nat
  env_unset :: "u32 \<times> u32 \<times> u16"

datatype grpc_status = StatusOK | InvalidArgument string | NotFound string | Internal string

record graph_search_request =
  gsr_txid :: bytes
  gsr_exclude_txids :: "bytes list"

text \<open>The regular expression \<open>^[0-9a-fA-F]{64}$\<close>.\<close>

definition hex_byte :: "byte \<Rightarrow> bool" where
  "hex_byte c \<longleftrightarrow> 48 \<le> c \<and> c \<le> 57 \<or> 97 \<le> c \<and> c \<le> 102 \<or> 65 \<le> c \<and> c \<le> 70"

definition txid_regex :: "bytes \<Rightarrow> bool" where
  "txid_regex s \<longleftrightarrow> length s = 64 \<and> list_all hex_byte s"

definition read_txid :: "bytes \<Rightarrow> txid option" where
  "read_txid s = (case bhash s of Ok h \<Rightarrow> Some h | _ \<Rightarrow> None)"

section \<open>GraphSearch\<close>

text \<open>The loop over the exclusion ids, \<open>n\<close> of them; it stops after the first if there are too many.\<close>

fun exclusion_loop :: "nat \<Rightarrow> nat \<Rightarrow> txgraph \<Rightarrow> txid list \<Rightarrow> node_ptr set \<Rightarrow> node_ptr set option" where
  "exclusion_loop mx n g [] X = Some X"
| "exclusion_loop mx n g (t # ts) X = Option.bind (build_exclusion_set g t X) (\<lambda>(_, X).
     if n \<ge> mx then Some X else exclusion_loop mx n g ts X)"

text \<open>Each node of the mempool result: all data is added to the reply, and the node is parsed.\<close>

definition rehydrate :: "graph_env \<Rightarrow> bytes \<Rightarrow> transaction option" where
  "rehydrate E txdata = (case env_unset E of (v, lt, tt) \<Rightarrow>
     (case tx_hydrate (env_sha256 E) tt (transaction_new v lt tt) txdata of
        Ok mtx \<Rightarrow> Some mtx | Fail mtx \<Rightarrow> Some mtx | Oob \<Rightarrow> None))"

fun mempool_nodes :: "graph_env \<Rightarrow> bytes list \<Rightarrow> bytes list \<Rightarrow> bytes list \<Rightarrow> transaction list \<Rightarrow>
    (bytes list \<times> transaction list) option" where
  "mempool_nodes E result [] reply mempool_transactions = Some (reply, mempool_transactions)"
| "mempool_nodes E result (n # ns) reply mempool_transactions = Option.bind (rehydrate E n) (\<lambda>mtx.
     mempool_nodes E result ns (reply @ result) (mempool_transactions @ [mtx]))"

definition unaccounted_mempool_txids :: "transaction list \<Rightarrow> txid list" where
  "unaccounted_mempool_txids mtxs =
     concat (map (\<lambda>mtx. filter (\<lambda>t. t \<notin> txid ` set mtxs) (map op_txid (inputs mtx))) mtxs)"

fun overlap_loop :: "txgraph \<Rightarrow> txid \<Rightarrow> txid list \<Rightarrow> node_ptr set \<Rightarrow> node_ptr set \<Rightarrow> node_ptr set option" where
  "overlap_loop g lookup_txid [] exclusion_set mempool_overlap_set = Some mempool_overlap_set"
| "overlap_loop g lookup_txid (t # ts) exclusion_set mempool_overlap_set =
     Option.bind (graph_search_ptr g lookup_txid exclusion_set) (\<lambda>(_, exclusion_set).
     Option.bind (build_exclusion_set g t mempool_overlap_set) (\<lambda>(_, mempool_overlap_set).
     overlap_loop g lookup_txid ts exclusion_set mempool_overlap_set))"

fun search_reply_status :: "graph_search_status \<Rightarrow> grpc_status" where
  "search_reply_status GsOK = StatusOK"
| "search_reply_status GsNotFound = NotFound ''txid not found''"
| "search_reply_status GsNotInTokengraph = Internal ''txid found but not in tokengraph''"

text \<open>
  The handler, over the graph \<open>g\<close> of confirmed transactions and the graph \<open>mg\<close> of the mempool.
  The exclusion set holds addresses of nodes; those of \<open>g\<close> and of \<open>mg\<close> are never equal, so the
  part of each graph is a set of its own, and that of \<open>mg\<close> is empty when it is searched.
\<close>

definition graph_search :: "graph_env \<Rightarrow> txgraph \<Rightarrow> txgraph \<Rightarrow> graph_search_request \<Rightarrow> (grpc_status \<times> bytes list) option" where
  "graph_search E g mg request =
     (if \<not> txid_regex (gsr_txid request) then Some (InvalidArgument ''txid did not match regex'', [])
      else Option.bind (read_txid (gsr_txid request)) (\<lambda>lookup_txid.
        Option.bind (those (map read_txid (filter txid_regex (gsr_exclude_txids request)))) (\<lambda>exclude_txids.
        Option.bind (exclusion_loop (env_max_exclusion E) (length exclude_txids) g exclude_txids {}) (\<lambda>exclusion_set.
        Option.bind (graph_search_ptr mg lookup_txid {}) (\<lambda>((status, result), _).
          if status = GsOK then
            Option.bind (mempool_nodes E result result [] []) (\<lambda>(reply, mempool_transactions).
            Option.bind (overlap_loop g lookup_txid (unaccounted_mempool_txids mempool_transactions) exclusion_set {})
              (\<lambda>mempool_overlap_set. Some (search_reply_status status,
                reply @ map (node_txdata g) (env_set_order E mempool_overlap_set))))
          else Option.bind (graph_search_ptr g lookup_txid exclusion_set) (\<lambda>((status, result), _).
            Some (search_reply_status status, if status = GsOK then result else [])))))))"


section \<open>Reading ids\<close>

lemma bhash_hex_total: "2 * n \<le> length v \<Longrightarrow> \<exists>h. bhash_hex n v = Ok h"
proof (induction n v rule: bhash_hex.induct)
  case (2 n p1 p2 v)
  then show ?case by (auto simp: res_bind_Ok)
qed auto

lemma read_txid_total: "txid_regex s \<Longrightarrow> \<exists>h. read_txid s = Some h \<and> length h = 32"
proof -
  assume "txid_regex s"
  then have "\<exists>h. bhash s = Ok h" using bhash_hex_total [of 32 s] by (simp add: txid_regex_def bhash_def)
  then show ?thesis by (auto simp: read_txid_def dest: bhash_length)
qed

lemma those_read_txids: "list_all txid_regex ss \<Longrightarrow> \<exists>ts. those (map read_txid ss) = Some ts \<and> length ts = length ss"
  by (induction ss) (auto dest!: read_txid_total)

section \<open>Exclusion\<close>

definition known_ancestors :: "txgraph \<Rightarrow> txid list \<Rightarrow> node_ptr set" where
  "known_ancestors g ts = (\<Union>t \<in> set ts. case tg_txid_to_token g t of None \<Rightarrow> {} | Some k \<Rightarrow> ancestors g (k, t))"

lemma known_ancestors_simps [simp]:
  "known_ancestors g [] = {}"
  "known_ancestors g (t # ts) = (case tg_txid_to_token g t of None \<Rightarrow> {} | Some k \<Rightarrow> ancestors g (k, t)) \<union> known_ancestors g ts"
  by (simp_all add: known_ancestors_def)

lemma closed_empty [simp]: "closed_set g {}"
  by (simp add: closed_set_def)

lemma known_ancestors_closed: "closed_set g (known_ancestors g ts)"
  by (induction ts) (auto intro!: closed_Un ancestors_closed split: option.split)

lemma build_exclusion_closed:
  assumes "txgraph_inv g" and "closed_set g X"
  shows "\<exists>b. build_exclusion_set g t X = Some (b, X \<union> known_ancestors g [t])"
  using build_exclusion_known [OF assms(1)] avoiding_outside(1) [OF assms(2)] search_unknown(2)
  by (cases "tg_txid_to_token g t") auto

lemma exclusion_loop_spec:
  assumes "txgraph_inv g" and "closed_set g X"
  shows "exclusion_loop mx n g ts X = Some (X \<union> known_ancestors g (if n < mx then ts else take 1 ts))"
  using assms(2)
proof (induction ts arbitrary: X)
  case (Cons t ts)
  obtain b where b: "build_exclusion_set g t X = Some (b, X \<union> known_ancestors g [t])"
    using build_exclusion_closed [OF assms(1) Cons.prems] by blast
  have "closed_set g (X \<union> known_ancestors g [t])" by (intro closed_Un Cons.prems known_ancestors_closed)
  from Cons.IH [OF this] b show ?case by (simp add: Un_assoc)
qed simp

lemma overlap_loop_spec:
  assumes "txgraph_inv g" and "closed_set g Ov"
  shows "overlap_loop g t ts X Ov = Some (Ov \<union> known_ancestors g ts)"
  using assms(2)
proof (induction ts arbitrary: X Ov)
  case (Cons u us)
  obtain st X' where s: "graph_search_ptr g t X = Some (st, X')"
    using graph_search_known [OF assms(1)] search_unknown(1) by (cases "tg_txid_to_token g t") blast+
  obtain b where b: "build_exclusion_set g u Ov = Some (b, Ov \<union> known_ancestors g [u])"
    using build_exclusion_closed [OF assms(1) Cons.prems] by blast
  have "closed_set g (Ov \<union> known_ancestors g [u])" by (intro closed_Un Cons.prems known_ancestors_closed)
  from Cons.IH [OF this] s b show ?case by (simp add: Un_assoc)
qed simp

section \<open>The mempool\<close>

lemma rehydrate_total: "\<exists>t. rehydrate E d = Some t"
  using tx_hydrate_not_Oob
  by (auto simp: rehydrate_def split: prod.split res.split)

definition rehydrated :: "graph_env \<Rightarrow> bytes \<Rightarrow> transaction" where
  "rehydrated E d = the (rehydrate E d)"

lemma mempool_nodes_spec:
  "mempool_nodes E result ns reply txs = Some (reply @ concat (replicate (length ns) result), txs @ map (rehydrated E) ns)"
proof (induction ns arbitrary: reply txs)
  case (Cons n ns)
  obtain t where "rehydrate E n = Some t" using rehydrate_total by blast
  with Cons show ?case by (simp add: rehydrated_def)
qed simp


section \<open>What a search answers\<close>

definition requested :: "graph_search_request \<Rightarrow> txid" where
  "requested r = the (read_txid (gsr_txid r))"

text \<open>The exclusions the handler uses: all of them below the limit, else only the first.\<close>

definition used_exclusions :: "graph_env \<Rightarrow> graph_search_request \<Rightarrow> txid list" where
  "used_exclusions E r = (let ts = map (the \<circ> read_txid) (filter txid_regex (gsr_exclude_txids r)) in
     if length ts < env_max_exclusion E then ts else take 1 ts)"

lemma read_requested: "txid_regex (gsr_txid r) \<Longrightarrow> read_txid (gsr_txid r) = Some (requested r)"
  by (drule read_txid_total) (auto simp: requested_def)

lemma those_filter: "those (map read_txid (filter txid_regex ss)) = Some (map (the \<circ> read_txid) (filter txid_regex ss))"
  by (induction ss) (auto dest!: read_txid_total)

lemma graph_search_eq:
  assumes "txgraph_inv g" and "txid_regex (gsr_txid r)"
  shows "graph_search E g mg r = Option.bind (graph_search_ptr mg (requested r) {}) (\<lambda>((status, result), _).
     if status = GsOK then Some (StatusOK, concat (replicate (length result) result)
       @ map (node_txdata g) (env_set_order E (known_ancestors g (unaccounted_mempool_txids (map (rehydrated E) result)))))
     else Option.bind (graph_search_ptr g (requested r) (known_ancestors g (used_exclusions E r))) (\<lambda>((status, result), _).
       Some (search_reply_status status, if status = GsOK then result else [])))"
  using assms
  by (cases "graph_search_ptr mg (requested r) {}")
    (auto simp: graph_search_def read_requested those_filter exclusion_loop_spec mempool_nodes_spec overlap_loop_spec
      used_exclusions_def Let_def)

lemma search_confirmed:
  assumes "txgraph_inv g" and "txid_regex (gsr_txid r)" and "tg_txid_to_token mg (requested r) = None"
    and "tg_txid_to_token g (requested r) = Some k"
  shows "\<exists>ns. graph_search E g mg r = Some (StatusOK, map (node_txdata g) ns) \<and> distinct ns \<and> ns \<noteq> []
    \<and> hd ns = (k, requested r)
    \<and> set ns = insert (k, requested r) (ancestors g (k, requested r) - known_ancestors g (used_exclusions E r))"
proof -
  let ?X = "known_ancestors g (used_exclusions E r)"
  obtain ns where ns: "graph_search_ptr g (requested r) ?X = Some ((GsOK, map (node_txdata g) ns), ?X \<union> set ns)"
    "distinct ns" "ns \<noteq> []" "hd ns = (k, requested r)" "set ns = {p. avoiding (node_inputs g) ?X (k, requested r) p}"
    using graph_search_known [OF assms(1,4), of ?X] by blast
  have "set ns = insert (k, requested r) (ancestors g (k, requested r) - ?X)"
    using ns(5) avoiding_outside(2) [OF known_ancestors_closed] by simp
  moreover have "graph_search E g mg r = Some (StatusOK, map (node_txdata g) ns)"
    by (simp add: graph_search_eq [OF assms(1,2)] search_unknown(1) [OF assms(3)] ns(1))
  ultimately show ?thesis using ns by blast
qed

lemma search_mempool:
  assumes "txgraph_inv g" and "txgraph_inv mg" and "txid_regex (gsr_txid r)"
    and "tg_txid_to_token mg (requested r) = Some k"
  shows "\<exists>ns. set ns = ancestors mg (k, requested r) \<and> distinct ns \<and> hd ns = (k, requested r)
    \<and> graph_search E g mg r = Some (StatusOK, concat (replicate (length ns) (map (node_txdata mg) ns))
       @ map (node_txdata g) (env_set_order E (known_ancestors g
           (unaccounted_mempool_txids (map (rehydrated E \<circ> node_txdata mg) ns)))))"
proof -
  obtain ns where "graph_search_ptr mg (requested r) {} = Some ((GsOK, map (node_txdata mg) ns), set ns)"
    "distinct ns" "hd ns = (k, requested r)" "set ns = ancestors mg (k, requested r)"
    using graph_search_known [OF assms(2,4), of "{}"] by auto
  then show ?thesis by (intro exI [of _ ns]) (simp add: graph_search_eq [OF assms(1,3)])
qed

text \<open>C33: a search for a confirmed transaction answers with the transaction itself, first, and with
  exactly those of its ancestors that are not ancestors of an excluded transaction, each once -
  with the exclusions the client sent as long as they are fewer than the limit, otherwise with
  the first one alone.\<close>

theorem search_excludes:
  assumes "txgraph_inv g" and "txid_regex (gsr_txid r)" and "tg_txid_to_token mg (requested r) = None"
    and "tg_txid_to_token g (requested r) = Some k"
  shows "\<exists>ns. graph_search E g mg r = Some (StatusOK, map (node_txdata g) ns) \<and> distinct ns \<and> hd ns = (k, requested r)
    \<and> set ns = insert (k, requested r) (ancestors g (k, requested r) - known_ancestors g (used_exclusions E r))"
  using search_confirmed [OF assms] by blast

text \<open>C34: a search for a mempool transaction answers with the data of its mempool ancestors repeated
  as many times as there are of them, so quadratically many entries, and then with all confirmed
  ancestors of what they spend; the exclusions of the request change nothing.\<close>

theorem mempool_search_quadratic:
  assumes "txgraph_inv g" and "txgraph_inv mg" and "txid_regex (gsr_txid r)"
    and "tg_txid_to_token mg (requested r) = Some k"
  shows "\<exists>ns. set ns = ancestors mg (k, requested r) \<and> distinct ns
    \<and> graph_search E g mg (r\<lparr>gsr_exclude_txids := xs\<rparr>) = Some (StatusOK,
        concat (replicate (length ns) (map (node_txdata mg) ns))
        @ map (node_txdata g) (env_set_order E (known_ancestors g
            (unaccounted_mempool_txids (map (rehydrated E \<circ> node_txdata mg) ns)))))"
proof -
  have "graph_search E g mg (r\<lparr>gsr_exclude_txids := xs\<rparr>) = graph_search E g mg r"
    using graph_search_known [OF assms(2,4), of "{}"] assms(3)
    by (auto simp: graph_search_eq [OF assms(1)] requested_def)
  then show ?thesis using search_mempool [OF assms, of E] by auto
qed

lemma graph_search_answers:
  assumes "txgraph_inv g" and "txgraph_inv mg"
  shows "\<exists>st reply. graph_search E g mg r = Some (st, reply)
    \<and> (st = StatusOK \<longleftrightarrow> txid_regex (gsr_txid r)
         \<and> (tg_txid_to_token mg (requested r) \<noteq> None \<or> tg_txid_to_token g (requested r) \<noteq> None))
    \<and> (st \<noteq> StatusOK \<longrightarrow> reply = []) \<and> st \<notin> range Internal"
proof (cases "txid_regex (gsr_txid r)")
  case True
  note eq = graph_search_eq [OF assms(1) True]
  consider k where "tg_txid_to_token mg (requested r) = Some k"
    | k where "tg_txid_to_token mg (requested r) = None" "tg_txid_to_token g (requested r) = Some k"
    | "tg_txid_to_token mg (requested r) = None" "tg_txid_to_token g (requested r) = None" by blast
  then show ?thesis
  proof cases
    case 1
    from search_mempool [OF assms True 1] obtain reply where "graph_search E g mg r = Some (StatusOK, reply)" by blast
    then show ?thesis using True 1 by auto
  next
    case 2
    from search_confirmed [OF assms(1) True 2] obtain reply where "graph_search E g mg r = Some (StatusOK, reply)" by blast
    then show ?thesis using True 2 by auto
  next
    case 3
    then show ?thesis using True by (auto simp: eq search_unknown)
  qed
qed (auto simp: graph_search_def)

text \<open>The handler always returns. It answers OK exactly when the id is 64 hex digits and one of
  the graphs knows the transaction, and otherwise sends no data; it never reports an internal
  error.\<close>

theorem graph_search_total:
  assumes "txgraph_inv g" and "txgraph_inv mg"
  shows "\<exists>st reply. graph_search E g mg r = Some (st, reply)
    \<and> (st = StatusOK \<longleftrightarrow> txid_regex (gsr_txid r)
         \<and> (tg_txid_to_token mg (requested r) \<noteq> None \<or> tg_txid_to_token g (requested r) \<noteq> None))
    \<and> (st \<noteq> StatusOK \<longrightarrow> reply = []) \<and> st \<notin> range Internal"
  using graph_search_answers [OF assms] .


section \<open>Upper case\<close>

text \<open>
  The regular expression allows upper-case digits, which the constructor of ids does not decode:
  such a digit is read 32 too low. In the high half of a byte the error vanishes modulo 256.
\<close>

definition upper_digit :: "byte \<Rightarrow> bool" where
  "upper_digit c \<longleftrightarrow> 65 \<le> c \<and> c \<le> 70"

definition lower_digit :: "byte \<Rightarrow> byte" where
  "lower_digit c = (if upper_digit c then c + 32 else c)"

lemma bhash_digit_lower:
  assumes "hex_byte c"
  shows "bhash_digit (lower_digit c) = bhash_digit c + (if upper_digit c then 32 else 0)"
proof (cases "upper_digit c")
  case True
  then obtain n where n: "n < 6" and c: "c = 65 + of_nat n"
    by (intro that [of "unat c - 65"]) (auto simp: upper_digit_def word_le_nat_alt word_unat_eq_iff unat_word_ariths unat_of_nat)
  have "\<forall>n < 6. bhash_digit (65 + of_nat n + 32) = bhash_digit (65 + of_nat n) + 32"
    by (simp add: bhash_digit_def All_less_Suc numeral_eq_Suc)
  with n c True show ?thesis by (simp add: lower_digit_def)
qed (simp add: lower_digit_def)

lemma word_of_int_shift:
  "(word_of_int (a + 32 * k) :: byte) = word_of_int a \<longleftrightarrow> k mod 8 = 0"
proof -
  have "(word_of_int (a + 32 * k) :: byte) = word_of_int a \<longleftrightarrow> (a + 32 * k) mod 256 = a mod 256"
    unfolding word_of_int_eq_iff take_bit_eq_mod by simp
  also have "\<dots> \<longleftrightarrow> 32 * 8 dvd 32 * k" by (simp add: mod_eq_dvd_iff)
  also have "\<dots> \<longleftrightarrow> k mod 8 = 0" by (subst dvd_times_left_cancel_iff) (simp_all add: dvd_eq_mod_eq_0)
  finally show ?thesis .
qed

lemma bhash_hex_lower:
  "length v = 2 * n \<Longrightarrow> list_all hex_byte v \<Longrightarrow>
     bhash_hex n (map lower_digit v) = bhash_hex n v \<longleftrightarrow> (\<forall>i < n. \<not> upper_digit (v ! (2 * i + 1)))"
proof (induction n v rule: bhash_hex.induct)
  case (2 n p1 p2 v)
  let ?k1 = "if upper_digit p1 then 1 else 0 :: int" and ?k2 = "if upper_digit p2 then 1 else 0 :: int"
  let ?b = "word_of_int (bhash_digit p1 * 16 + bhash_digit p2) :: byte"
  let ?b' = "word_of_int (bhash_digit (lower_digit p1) * 16 + bhash_digit (lower_digit p2)) :: byte"
  have "bhash_digit (lower_digit p1) * 16 + bhash_digit (lower_digit p2)
    = bhash_digit p1 * 16 + bhash_digit p2 + 32 * (16 * ?k1 + ?k2)"
    using 2(3) by (simp add: bhash_digit_lower)
  then have "?b' = ?b \<longleftrightarrow> (16 * ?k1 + ?k2) mod 8 = 0" by (simp only: word_of_int_shift)
  then have byte: "?b' = ?b \<longleftrightarrow> \<not> upper_digit p2" by (simp split: if_splits)
  obtain h h' where h: "bhash_hex n v = Ok h" "bhash_hex n (map lower_digit v) = Ok h'"
    using bhash_hex_total [of n v] bhash_hex_total [of n "map lower_digit v"] 2(2) by auto
  have "(\<forall>i < Suc n. \<not> upper_digit ((p1 # p2 # v) ! (2 * i + 1)))
    \<longleftrightarrow> \<not> upper_digit p2 \<and> (\<forall>i < n. \<not> upper_digit (v ! (2 * i + 1)))"
    by (auto simp: All_less_Suc2)
  with 2 h byte show ?case by (auto simp: res_bind_Ok)
qed auto

text \<open>An id of 64 hex digits is read as the same id as its lower-case form exactly when no byte
  has an upper-case letter as its second digit; with one it names a different transaction.\<close>

theorem upper_case_txid:
  assumes "txid_regex s"
  shows "read_txid (map lower_digit s) = read_txid s \<longleftrightarrow> (\<forall>i < 32. \<not> upper_digit (s ! (2 * i + 1)))"
proof -
  have l: "length s = 64" "list_all hex_byte s" using assms by (simp_all add: txid_regex_def)
  obtain h h' where "bhash s = Ok h" "bhash (map lower_digit s) = Ok h'"
    using bhash_hex_total [of 32 s] bhash_hex_total [of 32 "map lower_digit s"] l by (auto simp: bhash_def)
  then show ?thesis using bhash_hex_lower [of s 32] l by (simp add: read_txid_def bhash_def)
qed


section \<open>Validation requests\<close>

definition bad_txid :: grpc_status where
  "bad_txid = InvalidArgument ''txid did not match regex''"

definition trusted_validation :: "slp_validator \<Rightarrow> bytes \<Rightarrow> (grpc_status \<times> bool) option" where
  "trusted_validation V s = (if \<not> txid_regex s then Some (bad_txid, False)
     else Option.bind (read_txid s) (\<lambda>t. Some (StatusOK, has_valid V t)))"

text \<open>The bulk request reads ids up to the first that does not match.\<close>

fun bulk_ids :: "bytes list \<Rightarrow> txid list \<Rightarrow> (bool \<times> txid list) option" where
  "bulk_ids [] lookup_txids = Some (True, lookup_txids)"
| "bulk_ids (s # ss) lookup_txids = (if \<not> txid_regex s then Some (False, lookup_txids)
     else Option.bind (read_txid s) (\<lambda>t. bulk_ids ss (lookup_txids @ [t])))"

definition trusted_validation_bulk :: "slp_validator \<Rightarrow> bytes list \<Rightarrow> (grpc_status \<times> bool list) option" where
  "trusted_validation_bulk V ss = Option.bind (bulk_ids ss []) (\<lambda>(rmatch, lookup_txids).
     Some (if rmatch then (StatusOK, map (has_valid V) lookup_txids) else (bad_txid, [])))"

lemma bulk_ids_eq:
  "\<exists>ts. bulk_ids ss acc = Some (list_all txid_regex ss, ts) \<and> (list_all txid_regex ss \<longrightarrow> ts = acc @ map (the \<circ> read_txid) ss)"
proof (induction ss arbitrary: acc)
  case (Cons s ss)
  show ?case
  proof (cases "txid_regex s")
    case True
    with read_txid_total obtain t where "read_txid s = Some t" by blast
    with Cons [of "acc @ [t]"] True show ?thesis by auto
  qed simp
qed simp

text \<open>A bulk validation answers what the single requests answer, one by one and in order, unless an
  id is malformed: then it answers nothing at all.\<close>

theorem bulk_agrees_with_single:
  "trusted_validation_bulk V ss =
     (if \<forall>s \<in> set ss. trusted_validation V s \<noteq> Some (bad_txid, False)
      then Some (StatusOK, map (\<lambda>s. snd (the (trusted_validation V s))) ss) else Some (bad_txid, []))"
proof -
  have single: "trusted_validation V s = Some (if txid_regex s then (StatusOK, has_valid V (the (read_txid s))) else (bad_txid, False))" for s
    using read_txid_total [of s] by (auto simp: trusted_validation_def)
  obtain ts where ts: "bulk_ids ss [] = Some (list_all txid_regex ss, ts)"
    "list_all txid_regex ss \<longrightarrow> ts = map (the \<circ> read_txid) ss" using bulk_ids_eq [of ss "[]"] by auto
  have "(\<forall>s \<in> set ss. trusted_validation V s \<noteq> Some (bad_txid, False)) \<longleftrightarrow> list_all txid_regex ss"
    by (auto simp: single list_all_iff bad_txid_def)
  then show ?thesis using ts by (auto simp: trusted_validation_bulk_def single list_all_iff)
qed


section \<open>OutputOracle\<close>

record oracle_reply =
  or_tx :: bytes
  or_vout :: u32
  or_tokenid :: bytes
  or_tokentype :: u16
  or_value :: u64
  or_is_baton :: bool
  or_groupid :: bytes
  or_msg :: bytes
  or_sig :: bytes

text \<open>An empty message: each field has the default of its type.\<close>

definition oracle_reply_new :: oracle_reply where
  "oracle_reply_new = \<lparr>or_tx = [], or_vout = 0, or_tokenid = [], or_tokentype = 0, or_value = 0, or_is_baton = False,
     or_groupid = [], or_msg = [], or_sig = []\<rparr>"

text \<open>The preimages; integers are stored in the machine's little-endian order.\<close>

definition value_preimage :: "txid \<Rightarrow> u32 \<Rightarrow> tokenid \<Rightarrow> u16 \<Rightarrow> u64 \<Rightarrow> bool \<Rightarrow> bytes" where
  "value_preimage t vout k tokentype value is_baton = t @ le_bytes 4 (unat vout) @ k @ le_bytes 2 (unat tokentype)
     @ le_bytes 8 (unat value) @ [if is_baton then 1 else 0]"

definition child_preimage :: "txid \<Rightarrow> u32 \<Rightarrow> tokenid \<Rightarrow> u16 \<Rightarrow> tokenid \<Rightarrow> bytes" where
  "child_preimage t vout k tokentype group_id = t @ le_bytes 4 (unat vout) @ k @ le_bytes 2 (unat tokentype) @ group_id"

definition oracle_fields :: "slp_validator \<Rightarrow> txid \<Rightarrow> transaction \<Rightarrow> u32 \<Rightarrow> (bytes \<times> oracle_reply) parse" where
  "oracle_fields V t tx vout = (let
       tokenid = slp_tokenid (slp tx); tokentype = slp_token_type (slp tx);
       value = output_slp_amount tx (ucast vout);
       reply = oracle_reply_new\<lparr>or_tx := serialized tx, or_vout := vout, or_tokenid := tokenid, or_tokentype := tokentype\<rparr>
     in if tokentype = 0x01 \<or> tokentype = 0x81 then
          (let is_baton = (op_vout (mint_baton_outpoint tx) = vout) in
           Ok (value_preimage t vout tokenid tokentype value is_baton, reply\<lparr>or_value := value, or_is_baton := is_baton\<rparr>))
        else if tokentype = 0x41 then
          (case transaction_map V tokenid of
             None \<Rightarrow> Fail ''out_of_range''
           | Some gen_tx \<Rightarrow> (case inputs tx of
                 [] \<Rightarrow> Oob
               | i_outpoint # _ \<Rightarrow> (case transaction_map V (op_txid i_outpoint) of
                     None \<Rightarrow> Fail ''out_of_range''
                   | Some txi \<Rightarrow> (let group_id = slp_tokenid (slp txi) in
                       Ok (child_preimage t vout tokenid tokentype group_id, reply\<lparr>or_groupid := group_id\<rparr>)))))
        else Ok ([], oracle_reply_new))"

definition output_oracle :: "graph_env \<Rightarrow> slp_validator \<Rightarrow> bytes \<Rightarrow> u32 \<Rightarrow> (grpc_status \<times> oracle_reply) parse" where
  "output_oracle E V s vout =
     (if \<not> txid_regex s then Ok (bad_txid, oracle_reply_new)
      else res_bind (bhash s) (\<lambda>lookup_txid.
        if \<not> has_valid V lookup_txid then Ok (NotFound ''transaction not found'', oracle_reply_new)
        else (case transaction_map V lookup_txid of
            None \<Rightarrow> Fail ''out_of_range''
          | Some tx \<Rightarrow> res_bind (oracle_fields V lookup_txid tx vout) (\<lambda>(preimage, reply).
              let msg = env_sha256 E preimage in
              Ok (StatusOK, reply\<lparr>or_msg := msg, or_sig := env_sign E msg\<rparr>)))))"

text \<open>What the signed bytes determine.\<close>

lemma le_bytes_inj: "n < 256 ^ k \<Longrightarrow> m < 256 ^ k \<Longrightarrow> le_bytes k n = le_bytes k m \<longleftrightarrow> n = m"
  using le_nat_le_bytes [of k n] le_nat_le_bytes [of k m] by (metis mod_less)

lemma unat_bounds: "unat (h :: u16) < 256 ^ 2" "unat (w :: u32) < 256 ^ 4" "unat (d :: u64) < 256 ^ 8"
  using unsigned_less [of h, where ?'a = nat] unsigned_less [of w, where ?'a = nat] unsigned_less [of d, where ?'a = nat]
  by simp_all

lemma le_bytes_word:
  "le_bytes 2 (unat h) = le_bytes 2 (unat (h' :: u16)) \<longleftrightarrow> h = h'"
  "le_bytes 4 (unat w) = le_bytes 4 (unat (w' :: u32)) \<longleftrightarrow> w = w'"
  "le_bytes 8 (unat d) = le_bytes 8 (unat (d' :: u64)) \<longleftrightarrow> d = d'"
  by (simp_all only: le_bytes_inj [OF unat_bounds(1) unat_bounds(1)] le_bytes_inj [OF unat_bounds(2) unat_bounds(2)]
      le_bytes_inj [OF unat_bounds(3) unat_bounds(3)] word_unat_eq_iff)

lemma value_preimage_inj:
  assumes "length t = 32" "length t' = 32" "length k = 32" "length k' = 32"
  shows "value_preimage t v k tt n b = value_preimage t' v' k' tt' n' b' \<longleftrightarrow> t = t' \<and> v = v' \<and> k = k' \<and> tt = tt' \<and> n = n' \<and> b = b'"
  using assms by (auto simp: value_preimage_def le_bytes_word)

lemma child_preimage_inj:
  assumes "length t = 32" "length t' = 32" "length k = 32" "length k' = 32"
  shows "child_preimage t v k tt g = child_preimage t' v' k' tt' g' \<longleftrightarrow> t = t' \<and> v = v' \<and> k = k' \<and> tt = tt' \<and> g = g'"
  using assms by (auto simp: child_preimage_def le_bytes_word)

lemma oracle_fields_cases:
  assumes "oracle_fields V t tx v = Ok (p, rep)" and "p \<noteq> []"
  obtains (amount) "p = value_preimage t v (or_tokenid rep) (or_tokentype rep) (or_value rep) (or_is_baton rep)"
      "or_groupid rep = []" "or_vout rep = v" "or_tokentype rep \<noteq> 0x41" "or_tokenid rep = slp_tokenid (slp tx)"
      "or_is_baton rep \<longleftrightarrow> op_vout (mint_baton_outpoint tx) = v"
  | (child) i is' txi where "p = child_preimage t v (or_tokenid rep) 0x41 (or_groupid rep)"
      "or_tokentype rep = 0x41" "or_value rep = 0" "\<not> or_is_baton rep" "or_vout rep = v" "or_tokenid rep = slp_tokenid (slp tx)"
      "inputs tx = i # is'" "transaction_map V (op_txid i) = Some txi" "or_groupid rep = slp_tokenid (slp txi)"
  using assms
  by (auto simp: oracle_fields_def Let_def oracle_reply_new_def split: if_splits option.splits list.splits)

lemma preimages_differ:
  assumes "length t = 32" "length t' = 32" "length k = 32" "length k' = 32" "length g = 32"
  shows "value_preimage t v k tt n b \<noteq> child_preimage t' v' k' tt' g"
    and "child_preimage t' v' k' tt' g \<noteq> value_preimage t v k tt n b"
  using assms by (auto simp: value_preimage_def child_preimage_def dest!: arg_cong [of _ _ length])

text \<open>A signature of the oracle speaks of one output only: when two answers have the same signed
  bytes they are about the same transaction and output and agree on the token, its type, the
  amount, the baton and the group, whatever validators gave them.\<close>

theorem oracle_binds_claim:
  assumes "oracle_fields V t tx v = Ok (p, rep)" and "oracle_fields V' t' tx' v' = Ok (p, rep')" and "p \<noteq> []"
    and "length t = 32" "length t' = 32" "length (or_tokenid rep) = 32" "length (or_tokenid rep') = 32"
    and "or_tokentype rep = 0x41 \<longrightarrow> length (or_groupid rep) = 32" "or_tokentype rep' = 0x41 \<longrightarrow> length (or_groupid rep') = 32"
  shows "t = t' \<and> v = v' \<and> or_tokenid rep = or_tokenid rep' \<and> or_tokentype rep = or_tokentype rep'
    \<and> or_value rep = or_value rep' \<and> or_is_baton rep = or_is_baton rep' \<and> or_groupid rep = or_groupid rep'"
  using assms(1,3)
proof (cases rule: oracle_fields_cases)
  case amount
  note p = amount
  from assms(2,3) show ?thesis
  proof (cases rule: oracle_fields_cases)
    case amount
    with p assms(4-7) show ?thesis by (auto simp: value_preimage_inj)
  next
    case (child i is' txi)
    with p assms(4-9) show ?thesis by (simp add: preimages_differ)
  qed
next
  case (child i is' txi)
  note p = child
  from assms(2,3) show ?thesis
  proof (cases rule: oracle_fields_cases)
    case amount
    with p assms(4-9) show ?thesis by (simp add: preimages_differ)
  next
    case (child j js txj)
    with p assms(4-7) show ?thesis by (simp add: child_preimage_inj)
  qed
qed


text \<open>C35: the oracle signs wrong statements. It calls an output a mint baton when its number equals that
  of the transaction's baton outpoint, and that is 0 when there is no baton: for a SEND it reports
  that output 0, the OP_RETURN, is a baton, and the message it signs is the hash of exactly this
  claim. And for an NFT child it takes the group from the first input of the transaction that was
  asked for, not of the child's GENESIS: when that input spends the same child token, as in an
  ordinary transfer, it reports the token's own id as its group and signs that.\<close>

theorem oracle_misreports:
  assumes "output_oracle E V s v = Ok (StatusOK, rep)" and "read_txid s = Some t" and "transaction_map V t = Some tx"
  shows "(slp_token_type (slp tx) \<in> {1, 0x81} \<and> slp_tx (slp tx) = SlpSend m \<longrightarrow>
        (or_is_baton rep \<longleftrightarrow> v = 0) \<and> or_sig rep = env_sign E (or_msg rep)
        \<and> or_msg rep = env_sha256 E (value_preimage t v (slp_tokenid (slp tx)) (slp_token_type (slp tx))
            (output_slp_amount tx (ucast v)) (v = 0)))
    \<and> (slp_token_type (slp tx) = 0x41 \<and> inputs tx = i # is' \<and> transaction_map V (op_txid i) = Some txi \<and> same_token tx txi \<longrightarrow>
        or_tokenid rep = slp_tokenid (slp tx) \<and> or_groupid rep = slp_tokenid (slp tx) \<and> or_sig rep = env_sign E (or_msg rep)
        \<and> or_msg rep = env_sha256 E (child_preimage t v (slp_tokenid (slp tx)) 0x41 (slp_tokenid (slp tx))))"
proof -
  have "bhash s = Ok t" using assms(2) by (auto simp: read_txid_def split: res.splits)
  then obtain p r where f: "oracle_fields V t tx v = Ok (p, r)"
    and rep: "rep = r\<lparr>or_msg := env_sha256 E p, or_sig := env_sign E (env_sha256 E p)\<rparr>"
    using assms(1,3) by (auto simp: output_oracle_def bad_txid_def res_bind_Ok Let_def split: if_splits)
  show ?thesis using f
    by (auto simp: rep oracle_fields_def Let_def mint_baton_outpoint_def same_token_def split: if_splits option.splits)
qed

section \<open>Examples\<close>

text \<open>The graph of the insertion example has ids of one byte; a request names ids of 32.\<close>

definition example_request :: graph_search_request where
  "example_request = \<lparr>gsr_txid = gs_hex (replicate 32 2), gsr_exclude_txids = [gs_hex (replicate 32 1)]\<rparr>"

definition example_env :: graph_env where
  "example_env = \<lparr>env_sha256 = id, env_sign = id, env_set_order = (\<lambda>_. []), env_max_exclusion = 5, env_unset = (0, 0, 0)\<rparr>"

definition example_chain :: txgraph where
  "example_chain = snd (insert_token_data (replicate 32 1) [example_genesis_tx, example_send_tx] txgraph_new)"

lemma hex_byte_char: "n < 16 \<Longrightarrow> hex_byte (hex_char n)"
  by (simp add: hex_byte_def word_le_nat_alt unat_hex_char)

lemma printed_txid:
  assumes "length h = 32"
  shows "txid_regex (gs_hex h)" "read_txid (gs_hex h) = Some h"
proof -
  have "list_all hex_byte (gs_hex h)" by (induction h) (simp_all add: hex_of_eq hex_byte_char digits_lt)
  then show "txid_regex (gs_hex h)" using assms by (simp add: txid_regex_def length_gs_hex)
  show "read_txid (gs_hex h) = Some h"
    using assms bhash_hex_gs_hex [of h] by (simp add: read_txid_def bhash_def length_gs_hex)
qed

lemma example_request_facts:
  "txid_regex (gsr_txid example_request)" "requested example_request = replicate 32 2"
  "used_exclusions example_env example_request = [replicate 32 1]"
  by (simp_all add: example_request_def requested_def printed_txid used_exclusions_def example_env_def)

lemma replicate_neq_sym: "replicate 32 (2 :: byte) \<noteq> replicate 32 1"
  using replicate_neq by metis

lemma example_chain_facts:
  "txgraph_inv example_chain" "tg_txid_to_token example_chain (replicate 32 2) = Some (replicate 32 1)"
  "tg_txid_to_token example_chain (replicate 32 1) = Some (replicate 32 1)"
  "node_inputs example_chain (replicate 32 1, replicate 32 2) = [(replicate 32 1, replicate 32 1)]"
proof -
  have "txgraph_step txgraph_new example_chain" unfolding example_chain_def by (rule step_insert)
  then show "txgraph_inv example_chain" using tg.inv_step [of txgraph_new] txgraph_inv_new(1) by blast
qed (simp_all add: example_chain_def insert_token_data_def insert_node_def link_node_def push_input_def
      txgraph_new_def emplace_def update_graph_def token_graph_def token_at_def node_inputs_def node_txdata_def
      example_genesis_tx_def example_send_tx_def replicate_neq replicate_neq_sym)


lemma read_example: "read_txid (gs_hex (replicate 32 2)) = Some (replicate 32 2)" "txid_regex (gs_hex (replicate 32 2))"
  by (simp_all add: printed_txid)

theorem search_excludes_witness:
  "\<exists>ns. graph_search example_env example_chain txgraph_new example_request
      = Some (StatusOK, map (node_txdata example_chain) ns) \<and> set ns = {(replicate 32 1, replicate 32 2)}"
proof -
  let ?k = "replicate 32 1 :: tokenid" and ?t = "replicate 32 2 :: txid"
  have none: "node_inputs example_chain (?k, ?k) = []"
    by (simp add: example_chain_def insert_token_data_def insert_node_def link_node_def push_input_def
      txgraph_new_def emplace_def update_graph_def token_graph_def token_at_def node_inputs_def node_txdata_def
      example_genesis_tx_def example_send_tx_def replicate_neq replicate_neq_sym)
  have "q \<in> {(?k, ?t), (?k, ?k)}" if "avoiding (node_inputs example_chain) {} (?k, ?t) q" for q
    using that by induction (auto simp: example_chain_facts none)
  moreover have "(?k, ?k) \<in> known_ancestors example_chain [?k]"
    by (simp add: example_chain_facts avoiding.here)
  ultimately have "insert (?k, ?t) (ancestors example_chain (?k, ?t) - known_ancestors example_chain [?k]) = {(?k, ?t)}"
    by blast
  then show ?thesis
    using search_excludes [of example_chain example_request txgraph_new ?k example_env]
    by (auto simp: example_chain_facts example_request_facts txgraph_new_def)
qed

theorem mempool_search_quadratic_witness:
  "\<exists>ns os. graph_search example_env txgraph_new example_chain (example_request\<lparr>gsr_exclude_txids := [[]]\<rparr>)
      = Some (StatusOK, concat (replicate (length ns) (map (node_txdata example_chain) ns)) @ os)
    \<and> set ns = ancestors example_chain (replicate 32 1, replicate 32 2)"
  using mempool_search_quadratic [of txgraph_new example_chain example_request "replicate 32 1" example_env "[[]]"]
  by (auto simp: example_chain_facts example_request_facts txgraph_inv_new)

theorem graph_search_total_witness:
  "\<exists>reply. graph_search example_env example_chain txgraph_new example_request = Some (StatusOK, reply)"
  using graph_search_total [of example_chain txgraph_new example_env example_request]
  by (auto simp: example_chain_facts example_request_facts txgraph_inv_new)

theorem upper_case_txid_witness:
  "read_txid (map lower_digit (replicate 63 48 @ [65])) \<noteq> read_txid (replicate 63 48 @ [65])"
proof -
  have "txid_regex (replicate 63 48 @ [65])" by (simp add: txid_regex_def hex_byte_def list_all_iff)
  moreover have "\<exists>i<32. upper_digit ((replicate 63 48 @ [65]) ! (2 * i + 1))"
    by (rule exI [of _ 31]) (simp add: upper_digit_def nth_append)
  ultimately show ?thesis using upper_case_txid [of "replicate 63 48 @ [65]"] by blast
qed

theorem bulk_agrees_with_single_witness:
  "trusted_validation_bulk example_state [gs_hex (replicate 32 2)] = Some (StatusOK, [False])"
  using bulk_agrees_with_single [of example_state "[gs_hex (replicate 32 2)]"]
  by (simp add: trusted_validation_def read_example bad_txid_def example_facts)

lemma example_oracle:
  "\<exists>p rep. oracle_fields example_sent_state (replicate 32 2) example_send_tx v = Ok (p, rep) \<and> p \<noteq> []
     \<and> or_tokenid rep = replicate 32 1 \<and> or_tokentype rep = 1 \<and> or_vout rep = v"
  by (simp add: oracle_fields_def Let_def example_send_tx_def oracle_reply_new_def value_preimage_def)

theorem oracle_binds_claim_witness:
  "\<exists>p rep p' rep'. oracle_fields example_sent_state (replicate 32 2) example_send_tx 1 = Ok (p, rep)
     \<and> oracle_fields example_sent_state (replicate 32 2) example_send_tx 2 = Ok (p', rep') \<and> p \<noteq> p'"
proof -
  obtain p rep where a: "oracle_fields example_sent_state (replicate 32 2) example_send_tx 1 = Ok (p, rep)" "p \<noteq> []"
    "or_tokenid rep = replicate 32 1" "or_tokentype rep = 1" using example_oracle [of 1] by (elim exE conjE) (rule that)
  obtain p' rep' where b: "oracle_fields example_sent_state (replicate 32 2) example_send_tx 2 = Ok (p', rep')"
    "or_tokenid rep' = replicate 32 1" "or_tokentype rep' = 1" using example_oracle [of 2] by (elim exE conjE) (rule that)
  have "p \<noteq> p'"
  proof
    assume "p = p'"
    then have "oracle_fields example_sent_state (replicate 32 2) example_send_tx 2 = Ok (p, rep')" using b(1) by simp
    from oracle_binds_claim [OF a(1) this a(2)] a(3,4) b(2,3) show False by simp
  qed
  with a(1) b(1) show ?thesis by blast
qed

text \<open>The same two transactions as an NFT child and its transfer.\<close>

definition as_child :: "transaction \<Rightarrow> transaction" where
  "as_child tx = tx\<lparr>slp := (slp tx)\<lparr>slp_token_type := 0x41\<rparr>\<rparr>"

definition example_child_state :: slp_validator where
  "example_child_state = example_sent_state\<lparr>transaction_map := map_option as_child \<circ> transaction_map example_sent_state\<rparr>"

lemma example_child:
  "transaction_map example_child_state (replicate 32 2) = Some (as_child example_send_tx)"
  "transaction_map example_child_state (replicate 32 1) = Some (as_child example_genesis_tx)"
  "has_valid example_child_state (replicate 32 2)" "inputs (as_child example_send_tx) = [\<lparr>op_txid = replicate 32 1, op_vout = 1\<rparr>]"
  "slp_tokenid (slp (as_child tx)) = slp_tokenid (slp tx)" "slp_token_type (slp (as_child tx)) = 0x41" "serialized (as_child tx) = serialized tx"
  by (simp_all add: example_child_state_def example_sent_state_def has_valid_def as_child_def replicate_neq) (simp add: example_send_tx_def)

lemma example_send_tokenid: "slp_tokenid (slp example_send_tx) = replicate 32 1"
  by (simp add: example_send_tx_def)

lemma example_child_fields:
  "\<exists>p rep. oracle_fields example_child_state (replicate 32 2) (as_child example_send_tx) 1 = Ok (p, rep)"
  by (simp add: oracle_fields_def Let_def example_child example_send_tokenid)

theorem oracle_misreports_witness:
  "\<exists>rep rep'. output_oracle example_env example_sent_state (gs_hex (replicate 32 2)) 0 = Ok (StatusOK, rep) \<and> or_is_baton rep
     \<and> or_sig rep = value_preimage (replicate 32 2) 0 (replicate 32 1) 1 0 True
     \<and> output_oracle example_env example_child_state (gs_hex (replicate 32 2)) 1 = Ok (StatusOK, rep')
     \<and> or_groupid rep' = replicate 32 1 \<and> or_sig rep' = child_preimage (replicate 32 2) 1 (replicate 32 1) 0x41 (replicate 32 1)"
proof -
  let ?t = "replicate 32 2 :: txid" and ?k = "replicate 32 1 :: tokenid"
  have m: "transaction_map example_sent_state ?t = Some example_send_tx" "has_valid example_sent_state ?t"
    by (simp_all add: example_sent_state_def has_valid_def)
  have e: "env_sha256 example_env = id" "env_sign example_env = id" by (simp_all add: example_env_def)
  have tx: "slp_token_type (slp example_send_tx) = 1" "slp_tokenid (slp example_send_tx) = ?k" "output_slp_amount example_send_tx 0 = 0"
    "slp_tokenid (slp example_genesis_tx) = ?k"
    by (simp_all add: example_send_tx_def example_genesis_tx_def output_slp_amount_def)
  have "bhash (gs_hex ?t) = Ok ?t" using read_example(1) by (simp add: read_txid_def split: res.splits)
  then obtain rep rep' where o: "output_oracle example_env example_sent_state (gs_hex ?t) 0 = Ok (StatusOK, rep)"
    "output_oracle example_env example_child_state (gs_hex ?t) 1 = Ok (StatusOK, rep')"
    using example_oracle [of 0] example_child_fields m example_child(1,3)
    by (auto simp: output_oracle_def read_example Let_def)
  have "or_is_baton rep \<and> or_sig rep = value_preimage ?t 0 ?k 1 0 True"
    using oracle_misreports [OF o(1) read_example(1) m(1), of "\<lparr>amounts = [60, 40]\<rparr>" undefined "[]" undefined]
    by (simp add: example_facts tx e)
  moreover have "or_groupid rep' = ?k \<and> or_sig rep' = child_preimage ?t 1 ?k 0x41 ?k"
    using oracle_misreports [OF o(2) read_example(1) example_child(1), of undefined "\<lparr>op_txid = ?k, op_vout = 1\<rparr>" "[]"
      "as_child example_genesis_tx"]
    by (simp add: example_child tx e same_token_def)
  ultimately show ?thesis using o by blast
qed

end
