(* ===== verification/SyncServer.thy ===== *)
theory SyncServer
  imports GraphService "HOL-Library.List_Lexorder"
begin

text \<open>
  How the server of \<open>server/gs++.cpp\<close> follows the chain: \<open>slpsync_bitcoind_process_block\<close>,
  \<open>slpsync_bitcoind_process_mempool\<close> and \<open>slpsync_bitcoind_process_tx\<close> over the validator, the
  graph \<open>g\<close> of confirmed transactions and the graph \<open>mg\<close> of the mempool, with the switch
  \<open>utxosync\<close> off. Each runs under the processing lock, so it is one step. The abstract server
  \<open>ledger\<close> below keeps only sets of ids; the theorems carry its properties over.
\<close>

section \<open>The handlers\<close>

record sync_state =
  sy_validator :: slp_validator
  sy_g :: txgraph
  sy_mg :: txgraph

definition sync_new :: sync_state where
  "sync_new = \<lparr>sy_validator = validator_new, sy_g = txgraph_new, sy_mg = txgraph_new\<rparr>"

text \<open>The map \<open>valid_txs\<close> from tokens to their new transactions.\<close>

definition push_valid :: "transaction \<Rightarrow> (tokenid \<rightharpoonup> transaction list) \<Rightarrow> (tokenid \<rightharpoonup> transaction list)" where
  "push_valid tx m = (case m (slp_tokenid (slp tx)) of
       None \<Rightarrow> m(slp_tokenid (slp tx) \<mapsto> [tx])
     | Some txs \<Rightarrow> m(slp_tokenid (slp tx) \<mapsto> txs @ [tx]))"

text \<open>The loop over the transactions, which both the block and the mempool handler have.\<close>

fun accept_txs :: "bool \<Rightarrow> transaction list \<Rightarrow> slp_validator \<Rightarrow> (tokenid \<rightharpoonup> transaction list) \<Rightarrow> transaction list \<Rightarrow>
    (slp_validator \<times> (tokenid \<rightharpoonup> transaction list) \<times> transaction list) vres" where
  "accept_txs trusted [] V valid_txs valid_txs_list = VOk (V, valid_txs, valid_txs_list)"
| "accept_txs trusted (tx # txs) V valid_txs valid_txs_list =
     (if validator_has V (txid tx) then accept_txs trusted txs V valid_txs valid_txs_list
      else vbind (add_tx 2 tx trusted V) (\<lambda>(ok, V).
        if \<not> ok then accept_txs trusted txs V valid_txs valid_txs_list
        else accept_txs trusted txs V (push_valid tx valid_txs) (valid_txs_list @ [tx])))"

text \<open>The insertions, in the order the hash map yields the tokens.\<close>

definition insert_valid :: "(tokenid set \<Rightarrow> tokenid list) \<Rightarrow> (tokenid \<rightharpoonup> transaction list) \<Rightarrow> txgraph \<Rightarrow> txgraph" where
  "insert_valid ord valid_txs g =
     fold (\<lambda>k g. snd (insert_token_data k (the (valid_txs k)) g)) (ord (dom valid_txs)) g"

definition process_block :: "(tokenid set \<Rightarrow> tokenid list) \<Rightarrow> bool \<Rightarrow> transaction list \<Rightarrow> sync_state \<Rightarrow>
    (transaction list \<times> sync_state) vres" where
  "process_block ord trusted txs s =
     vbind (accept_txs trusted txs (sy_validator s) Map.empty []) (\<lambda>(V, valid_txs, valid_txs_list).
       VOk (valid_txs_list, s\<lparr>sy_validator := V, sy_g := insert_valid ord valid_txs (sy_g s)\<rparr>))"

definition process_mempool :: "(tokenid set \<Rightarrow> tokenid list) \<Rightarrow> transaction list \<Rightarrow> sync_state \<Rightarrow> sync_state vres" where
  "process_mempool ord txs s = (let mg = txgraph_clear (sy_mg s) in
     vbind (accept_txs False txs (sy_validator s) Map.empty []) (\<lambda>(V, valid_txs, _).
       VOk (s\<lparr>sy_validator := V, sy_mg := insert_valid ord valid_txs mg\<rparr>)))"

definition process_tx :: "transaction \<Rightarrow> sync_state \<Rightarrow> (bool \<times> sync_state) vres" where
  "process_tx tx s =
     (if slp_type (slp tx) = TInvalid then VOk (False, s)
      else if validator_has (sy_validator s) (txid tx) then VOk (False, s)
      else vbind (add_tx 2 tx False (sy_validator s)) (\<lambda>(ok, V). let s = s\<lparr>sy_validator := V\<rparr> in
        if \<not> ok then VOk (False, s)
        else VOk (True, s\<lparr>sy_mg := snd (insert_token_data (slp_tokenid (slp tx)) [tx] (sy_mg s))\<rparr>)))"

section \<open>What the loop accepts\<close>

text \<open>The order of a hash map is some enumeration of its keys.\<close>

definition enumerates :: "(tokenid set \<Rightarrow> tokenid list) \<Rightarrow> bool" where
  "enumerates ord \<longleftrightarrow> (\<forall>K. finite K \<longrightarrow> set (ord K) = K)"

lemma add_tx_new:
  assumes "add_tx n tx trusted V = VOk (ok, V')" and "\<not> validator_has V (txid tx)"
  shows "valid_txids V' = (if ok then insert (txid tx) (valid_txids V) else valid_txids V)"
    and "transaction_map V' = (if slp_type (slp tx) = TInvalid then transaction_map V
      else (transaction_map V)(txid tx \<mapsto> tx))"
    and "ok \<Longrightarrow> slp_type (slp tx) \<noteq> TInvalid"
proof -
  have n: "transaction_map V (txid tx) = None" using assms(2) by (simp add: validator_has_def)
  have "valid_txids V' = (if ok then insert (txid tx) (valid_txids V) else valid_txids V)
    \<and> transaction_map V' = (if slp_type (slp tx) = TInvalid then transaction_map V else (transaction_map V)(txid tx \<mapsto> tx))
    \<and> (ok \<longrightarrow> slp_type (slp tx) \<noteq> TInvalid)"
  proof (cases "slp_type (slp tx) = TInvalid")
    case True
    with assms(1) show ?thesis by (auto simp: add_tx_unfold)
  next
    case False
    then show ?thesis
      using assms(1) n
      by (cases "validate_tx n (with_tx tx V) tx")
        (auto simp: add_tx_unfold validate_txid_def with_tx_def add_valid_txid_def split: if_splits)
  qed
  then show "valid_txids V' = (if ok then insert (txid tx) (valid_txids V) else valid_txids V)"
    and "transaction_map V' = (if slp_type (slp tx) = TInvalid then transaction_map V else (transaction_map V)(txid tx \<mapsto> tx))"
    and "ok \<Longrightarrow> slp_type (slp tx) \<noteq> TInvalid" by blast+
qed

text \<open>The accepted transactions, grouped by token.\<close>

definition of_token :: "transaction list \<Rightarrow> tokenid \<Rightarrow> transaction list" where
  "of_token txs k = filter (\<lambda>tx. slp_tokenid (slp tx) = k) txs"

definition grouped :: "transaction list \<Rightarrow> (tokenid \<rightharpoonup> transaction list)" where
  "grouped txs k = (if of_token txs k = [] then None else Some (of_token txs k))"

lemma push_valid_grouped: "push_valid tx (grouped txs) = grouped (txs @ [tx])"
  by (auto simp: push_valid_def grouped_def of_token_def fun_eq_iff)

lemma grouped_Nil: "Map.empty = grouped []"
  by (simp add: grouped_def of_token_def fun_eq_iff)

lemma dom_grouped: "dom (grouped txs) = (\<lambda>tx. slp_tokenid (slp tx)) ` set txs"
  by (auto simp: grouped_def of_token_def dom_def filter_empty_conv split: if_splits)


text \<open>A validator that has accepted a list of new transactions.\<close>

definition accepted :: "slp_validator \<Rightarrow> transaction list \<Rightarrow> slp_validator \<Rightarrow> bool" where
  "accepted V A W \<longleftrightarrow> distinct (map txid A) \<and> transaction_map V \<subseteq>\<^sub>m transaction_map W
     \<and> (\<forall>tx \<in> set A. transaction_map V (txid tx) = None \<and> transaction_map W (txid tx) = Some tx)
     \<and> valid_txids W = valid_txids V \<union> txid ` set A"

lemma accepted_refl: "accepted V [] V"
  by (simp add: accepted_def)

lemma accepted_trans:
  assumes "accepted V A W" and "accepted W B U"
  shows "accepted V (A @ B) U"
proof -
  have VW: "transaction_map V x = Some y \<Longrightarrow> transaction_map W x = Some y" for x y
    using assms(1) by (metis accepted_def domI map_le_def)
  have WU: "transaction_map W x = Some y \<Longrightarrow> transaction_map U x = Some y" for x y
    using assms(2) by (metis accepted_def domI map_le_def)
  have "txid a \<noteq> txid b" if "a \<in> set A" "b \<in> set B" for a b
    using assms that by (metis accepted_def option.distinct(1))
  then have "distinct (map txid (A @ B))" using assms by (auto simp: accepted_def)
  moreover have "\<forall>b \<in> set B. transaction_map V (txid b) = None"
    using assms(2) VW by (metis accepted_def not_None_eq)
  moreover have "transaction_map V \<subseteq>\<^sub>m transaction_map U" using assms by (auto simp: accepted_def intro: map_le_trans)
  ultimately show ?thesis using assms WU by (auto simp: accepted_def)
qed

lemma accepted_add_tx:
  assumes "add_tx n tx trusted V = VOk (ok, W)" and "\<not> validator_has V (txid tx)"
  shows "accepted V (if ok then [tx] else []) W"
  using add_tx_new [OF assms] assms(2) by (auto simp: accepted_def validator_has_def map_le_def)

lemma accept_txs_spec:
  assumes "accept_txs trusted txs V (grouped l) l = VOk (V', m', l')"
  shows "m' = grouped l' \<and> (\<exists>A. l' = l @ A \<and> set A \<subseteq> set txs \<and> accepted V A V')"
  using assms
proof (induction txs arbitrary: V l)
  case Nil
  then show ?case by (auto simp: accepted_refl)
next
  case (Cons tx txs)
  show ?case
  proof (cases "validator_has V (txid tx)")
    case True
    with Cons.prems Cons.IH [of V l] show ?thesis by auto
  next
    case False
    then obtain ok W where W: "add_tx 2 tx trusted V = VOk (ok, W)"
      using Cons.prems by (cases "add_tx 2 tx trusted V") auto
    let ?l = "l @ (if ok then [tx] else [])"
    have "accept_txs trusted txs W (grouped ?l) ?l = VOk (V', m', l')"
      using Cons.prems False W by (simp add: push_valid_grouped split: if_splits)
    from Cons.IH [OF this] obtain A where A: "m' = grouped l'" "l' = ?l @ A" "set A \<subseteq> set txs" "accepted W A V'" by blast
    from A(4) accepted_add_tx [OF W False] have "accepted V ((if ok then [tx] else []) @ A) V'" by (rule accepted_trans [rotated])
    with A show ?thesis by (intro conjI exI [of _ "(if ok then [tx] else []) @ A"]) auto
  qed
qed

text \<open>What the loop accepts was earned, or is trusted with the transactions it reads.\<close>

lemma validator_sound_mono: "validator_sound (V, T) \<Longrightarrow> T \<subseteq> T' \<Longrightarrow> validator_sound (V, T')"
  by (auto simp: validator_sound.simps intro: legit_mono)

definition trust :: "bool \<Rightarrow> transaction list \<Rightarrow> txid set \<Rightarrow> txid set" where
  "trust trusted txs T = (if trusted then T \<union> txid ` set txs else T)"

lemma trust_Cons: "trust trusted (tx # txs) T = trust trusted txs (if trusted then insert (txid tx) T else T)"
  by (auto simp: trust_def)

lemma accept_txs_sound:
  assumes "accept_txs trusted txs V m l = VOk (V', m', l')" and "validator_sound (V, T)" and "list_all slp_wf txs"
  shows "validator_sound (V', trust trusted txs T)"
  using assms
proof (induction txs arbitrary: V m l T)
  case (Cons tx txs)
  let ?T = "if trusted then insert (txid tx) T else T"
  show ?case
  proof (cases "validator_has V (txid tx)")
    case True
    moreover have "validator_sound (V, ?T)" using Cons.prems(2) by (auto intro: validator_sound_mono)
    ultimately show ?thesis using Cons by (simp add: trust_Cons)
  next
    case False
    then obtain ok W where W: "add_tx 2 tx trusted V = VOk (ok, W)"
      using Cons.prems(1) by (cases "add_tx 2 tx trusted V") auto
    have "validator_sound (W, ?T)"
      using validator_step_sound [OF Cons.prems(2) step_add [OF _ W]] Cons.prems(3) by simp
    then show ?thesis using Cons False W by (auto simp: trust_Cons split: if_splits)
  qed
qed (simp add: trust_def)

section \<open>What an insertion serves\<close>

definition token_of :: "transaction list \<Rightarrow> txid \<rightharpoonup> tokenid" where
  "token_of txs = map_of (map (\<lambda>tx. (txid tx, slp_tokenid (slp tx))) txs)"

lemma token_of_Some: "distinct (map txid txs) \<Longrightarrow> token_of txs t = Some k \<longleftrightarrow> t \<in> txid ` set (of_token txs k)"
  by (induction txs) (auto simp: token_of_def of_token_def)

lemma token_of_None: "token_of txs t = None \<longleftrightarrow> t \<notin> txid ` set txs"
  by (auto simp: token_of_def map_of_eq_None_iff image_image)

lemma token_of_in: "distinct (map txid txs) \<Longrightarrow> tx \<in> set txs \<Longrightarrow> token_of txs (txid tx) = Some (slp_tokenid (slp tx))"
  by (simp add: token_of_Some of_token_def)

lemma fold_insert_index:
  assumes "distinct (map txid A)" and "set ks \<subseteq> dom (grouped A)"
  shows "tg_txid_to_token (fold (\<lambda>k g. snd (insert_token_data k (the (grouped A k)) g)) ks g) t =
    (case tg_txid_to_token g t of Some k \<Rightarrow> Some k
     | None \<Rightarrow> (case token_of A t of Some k \<Rightarrow> if k \<in> set ks then Some k else None | None \<Rightarrow> None))"
  using assms(2)
proof (induction ks arbitrary: g)
  case (Cons k ks)
  have "the (grouped A k) = of_token A k" using Cons.prems by (auto simp: grouped_def split: if_splits)
  then have "t \<in> txid ` set (the (grouped A k)) \<longleftrightarrow> token_of A t = Some k" by (simp add: token_of_Some assms(1))
  with Cons show ?case by (auto simp: index_insert split: option.split)
qed (simp split: option.split)

definition lists_tokens :: "(tokenid set \<Rightarrow> tokenid list) \<Rightarrow> transaction list \<Rightarrow> bool" where
  "lists_tokens ord A \<longleftrightarrow> set (ord (dom (grouped A))) = dom (grouped A)"

lemma enumerates_lists: "enumerates ord \<Longrightarrow> lists_tokens ord A"
  by (simp add: enumerates_def lists_tokens_def dom_grouped)

lemma index_insert_valid:
  assumes "lists_tokens ord A" and "distinct (map txid A)"
  shows "tg_txid_to_token (insert_valid ord (grouped A) g) t =
    (case tg_txid_to_token g t of Some k \<Rightarrow> Some k | None \<Rightarrow> token_of A t)"
proof -
  have ks: "set (ord (dom (grouped A))) = dom (grouped A)"
    using assms(1) by (simp add: lists_tokens_def)
  have "k \<in> dom (grouped A)" if "token_of A t = Some k" for k
    using that assms(2) by (auto simp: token_of_Some of_token_def dom_grouped)
  then show ?thesis
    using fold_insert_index [OF assms(2), of "ord (dom (grouped A))" g t] ks
    by (auto simp: insert_valid_def split: option.split)
qed

lemma insert_valid_inv: "txgraph_inv g \<Longrightarrow> txgraph_inv (insert_valid ord m g)"
proof -
  have "txgraph_inv g \<Longrightarrow> txgraph_inv (fold (\<lambda>k g. snd (insert_token_data k (the (m k)) g)) ks g)" for ks
    by (induction ks arbitrary: g) (simp_all add: insert_token_data_inv)
  then show "txgraph_inv g \<Longrightarrow> txgraph_inv (insert_valid ord m g)" by (simp add: insert_valid_def)
qed


section \<open>The server as a state machine\<close>

text \<open>
  Blocks, mempool scans and single transactions arrive in any order; cached blocks are trusted.
  The hash maps may enumerate their keys differently each time. The second component of a state
  collects the ids taken on trust.
\<close>

inductive sync_step :: "sync_state \<times> txid set \<Rightarrow> sync_state \<times> txid set \<Rightarrow> bool" where
  sync_block: "enumerates ord \<Longrightarrow> list_all slp_wf txs \<Longrightarrow> process_block ord trusted txs s = VOk (l, s') \<Longrightarrow>
     sync_step (s, T) (s', trust trusted txs T)"
| sync_mempool: "enumerates ord \<Longrightarrow> list_all slp_wf txs \<Longrightarrow> process_mempool ord txs s = VOk s' \<Longrightarrow>
     sync_step (s, T) (s', T)"
| sync_tx: "slp_wf tx \<Longrightarrow> process_tx tx s = VOk (b, s') \<Longrightarrow> sync_step (s, T) (s', T)"

definition indexed_ok :: "slp_validator \<Rightarrow> txgraph \<Rightarrow> bool" where
  "indexed_ok V g \<longleftrightarrow> txgraph_inv g \<and> (\<forall>t k. tg_txid_to_token g t = Some k \<longrightarrow>
     has_valid V t \<and> (\<exists>tx. transaction_map V t = Some tx \<and> slp_tokenid (slp tx) = k))"

definition sync_inv :: "sync_state \<times> txid set \<Rightarrow> bool" where
  "sync_inv st \<longleftrightarrow> (case st of (s, T) \<Rightarrow> indexed_ok (sy_validator s) (sy_g s) \<and> indexed_ok (sy_validator s) (sy_mg s)
     \<and> validator_sound (sy_validator s, T))"

lemma indexed_ok_new: "indexed_ok V txgraph_new" "indexed_ok V (txgraph_clear g)"
  by (simp_all add: indexed_ok_def txgraph_inv_new) (simp_all add: txgraph_new_def txgraph_clear_def)

lemma indexed_ok_mono:
  assumes "indexed_ok V g" and "accepted V A W"
  shows "indexed_ok W g"
  using assms unfolding indexed_ok_def accepted_def has_valid_def by (metis UnCI domI map_le_def)

lemma indexed_ok_insert:
  assumes "indexed_ok V g" and "accepted V A W" and "lists_tokens ord A"
  shows "indexed_ok W (insert_valid ord (grouped A) g)"
proof -
  have d: "distinct (map txid A)" using assms(2) by (simp add: accepted_def)
  have "has_valid W t \<and> (\<exists>tx. transaction_map W t = Some tx \<and> slp_tokenid (slp tx) = k)" if "token_of A t = Some k" for t k
    using that assms(2) by (auto simp: token_of_Some [OF d] of_token_def accepted_def has_valid_def)
  with indexed_ok_mono [OF assms(1,2)] show ?thesis
    by (auto simp: indexed_ok_def insert_valid_inv index_insert_valid [OF assms(3) d] split: option.splits)
qed

text \<open>The effect of each handler, in terms of the accepted transactions.\<close>

lemma process_block_effect:
  assumes "process_block ord trusted txs s = VOk (l, s')"
  shows "accepted (sy_validator s) l (sy_validator s') \<and> set l \<subseteq> set txs
    \<and> sy_g s' = insert_valid ord (grouped l) (sy_g s) \<and> sy_mg s' = sy_mg s
    \<and> (list_all slp_wf txs \<longrightarrow> validator_sound (sy_validator s, T) \<longrightarrow> validator_sound (sy_validator s', trust trusted txs T))"
proof -
  obtain V m where a: "accept_txs trusted txs (sy_validator s) (grouped []) [] = VOk (V, m, l)"
    and s': "s' = s\<lparr>sy_validator := V, sy_g := insert_valid ord m (sy_g s)\<rparr>"
    using assms by (cases "accept_txs trusted txs (sy_validator s) Map.empty []") (auto simp: process_block_def grouped_Nil)
  from accept_txs_spec [OF a] accept_txs_sound [OF a] s' show ?thesis by (auto simp: trust_def)
qed

lemma process_mempool_effect:
  assumes "process_mempool ord txs s = VOk s'"
  shows "\<exists>l. accepted (sy_validator s) l (sy_validator s') \<and> set l \<subseteq> set txs
    \<and> sy_mg s' = insert_valid ord (grouped l) (txgraph_clear (sy_mg s)) \<and> sy_g s' = sy_g s
    \<and> (list_all slp_wf txs \<longrightarrow> validator_sound (sy_validator s, T) \<longrightarrow> validator_sound (sy_validator s', T))"
proof -
  obtain V m l where a: "accept_txs False txs (sy_validator s) (grouped []) [] = VOk (V, m, l)"
    and s': "s' = s\<lparr>sy_validator := V, sy_mg := insert_valid ord m (txgraph_clear (sy_mg s))\<rparr>"
    using assms by (cases "accept_txs False txs (sy_validator s) Map.empty []")
      (auto simp: process_mempool_def Let_def grouped_Nil)
  from accept_txs_spec [OF a] accept_txs_sound [OF a] s' show ?thesis by (auto simp: trust_def)
qed

lemma process_tx_effect:
  assumes "process_tx tx s = VOk (b, s')"
  shows "\<exists>l ord. lists_tokens ord l \<and> accepted (sy_validator s) l (sy_validator s')
    \<and> sy_mg s' = insert_valid ord (grouped l) (sy_mg s) \<and> sy_g s' = sy_g s
    \<and> (slp_wf tx \<longrightarrow> validator_sound (sy_validator s, T) \<longrightarrow> validator_sound (sy_validator s', T))"
proof -
  have "accepted (sy_validator s) (if b then [tx] else []) (sy_validator s') \<and> sy_g s' = sy_g s
    \<and> sy_mg s' = (if b then snd (insert_token_data (slp_tokenid (slp tx)) [tx] (sy_mg s)) else sy_mg s)
    \<and> (slp_wf tx \<longrightarrow> validator_sound (sy_validator s, T) \<longrightarrow> validator_sound (sy_validator s', T))"
  proof (cases "slp_type (slp tx) = TInvalid \<or> validator_has (sy_validator s) (txid tx)")
    case True
    with assms show ?thesis by (auto simp: process_tx_def accepted_refl split: if_splits)
  next
    case False
    then obtain ok V where W: "add_tx 2 tx False (sy_validator s) = VOk (ok, V)"
      using assms by (cases "add_tx 2 tx False (sy_validator s)") (auto simp: process_tx_def)
    have "slp_wf tx \<Longrightarrow> validator_sound (sy_validator s, T) \<Longrightarrow> validator_sound (V, T)"
      using validator_step_sound [OF _ step_add [OF _ W]] by simp
    with W False assms accepted_add_tx [OF W] show ?thesis by (auto simp: process_tx_def Let_def split: if_splits)
  qed
  then show ?thesis
    by (intro exI [of _ "if b then [tx] else []"] exI [of _ "\<lambda>_. if b then [slp_tokenid (slp tx)] else []"])
      (cases b, auto simp: lists_tokens_def dom_grouped insert_valid_def grouped_def of_token_def)
qed

lemma sync_inv_step:
  assumes "sync_inv st" and "sync_step st st'"
  shows "sync_inv st'"
  using assms(2,1)
proof (cases rule: sync_step.cases)
  case (sync_block ord txs trusted s l s' T)
  with process_block_effect [OF sync_block(5), of T] assms(1) show ?thesis
    by (auto simp: sync_inv_def intro: indexed_ok_insert indexed_ok_mono enumerates_lists)
next
  case (sync_mempool ord txs s s' T)
  from process_mempool_effect [OF sync_mempool(5), of T] obtain l where
    e: "accepted (sy_validator s) l (sy_validator s')" "sy_g s' = sy_g s"
      "sy_mg s' = insert_valid ord (grouped l) (txgraph_clear (sy_mg s))"
      "list_all slp_wf txs \<longrightarrow> validator_sound (sy_validator s, T) \<longrightarrow> validator_sound (sy_validator s', T)" by blast
  with indexed_ok_insert [OF indexed_ok_new(2) e(1) enumerates_lists [OF sync_mempool(3)]] assms(1) sync_mempool show ?thesis
    by (auto simp: sync_inv_def intro: indexed_ok_mono)
next
  case (sync_tx tx s b s' T)
  with process_tx_effect [OF sync_tx(4), of T] assms(1) show ?thesis
    by (auto simp: sync_inv_def intro: indexed_ok_insert indexed_ok_mono)
qed

section \<open>The abstract server\<close>

text \<open>
  Sets of ids: the transactions the server holds, those it accepted, those it serves as
  confirmed and those it serves from the mempool. A block adds accepted ids that were not
  known, a mempool scan starts the pool afresh with such ids, a single transaction adds to it.
\<close>

record ledger =
  known :: "txid set"
  valid_ids :: "txid set"
  confirmed :: "txid set"
  pool :: "txid set"

definition learn :: "txid set \<Rightarrow> txid set \<Rightarrow> ledger \<Rightarrow> ledger" where
  "learn N A L = L\<lparr>known := known L \<union> N, valid_ids := valid_ids L \<union> A\<rparr>"

inductive ledger_step :: "ledger \<Rightarrow> ledger \<Rightarrow> bool" where
  ledger_block: "A \<subseteq> N \<Longrightarrow> A \<inter> known L = {} \<Longrightarrow> ledger_step L ((learn N A L)\<lparr>confirmed := confirmed L \<union> A\<rparr>)"
| ledger_mempool: "A \<subseteq> N \<Longrightarrow> A \<inter> known L = {} \<Longrightarrow> ledger_step L ((learn N A L)\<lparr>pool := A\<rparr>)"
| ledger_tx: "A \<subseteq> N \<Longrightarrow> A \<inter> known L = {} \<Longrightarrow> ledger_step L ((learn N A L)\<lparr>pool := pool L \<union> A\<rparr>)"

definition ledger_of :: "sync_state \<Rightarrow> ledger" where
  "ledger_of s = \<lparr>known = dom (transaction_map (sy_validator s)), valid_ids = valid_txids (sy_validator s),
     confirmed = dom (tg_txid_to_token (sy_g s)), pool = dom (tg_txid_to_token (sy_mg s))\<rparr>"

lemma dom_insert_valid:
  assumes "lists_tokens ord A" and "distinct (map txid A)"
  shows "dom (tg_txid_to_token (insert_valid ord (grouped A) g)) = dom (tg_txid_to_token g) \<union> txid ` set A"
proof -
  have "t \<in> dom (tg_txid_to_token (insert_valid ord (grouped A) g)) \<longleftrightarrow> t \<in> dom (tg_txid_to_token g) \<union> txid ` set A" for t
    using token_of_None [of A t]
    by (cases "tg_txid_to_token g t"; cases "token_of A t") (simp_all add: domIff index_insert_valid [OF assms])
  then show ?thesis by blast
qed

lemma accepted_learn:
  assumes "accepted V A W"
  shows "txid ` set A \<subseteq> dom (transaction_map W)" "txid ` set A \<inter> dom (transaction_map V) = {}"
    "dom (transaction_map W) = dom (transaction_map V) \<union> dom (transaction_map W)"
    "valid_txids W = valid_txids V \<union> txid ` set A" "distinct (map txid A)"
  using assms map_le_implies_dom_le by (force simp: accepted_def)+

lemma sync_step_refines:
  assumes "sync_step st st'"
  shows "ledger_step (ledger_of (fst st)) (ledger_of (fst st'))"
  using assms
proof (cases rule: sync_step.cases)
  case (sync_block ord txs trusted s l s' T)
  note e = process_block_effect [OF sync_block(5)]
  note a = accepted_learn [OF conjunct1 [OF e]]
  have "ledger_of s' = (learn (dom (transaction_map (sy_validator s'))) (txid ` set l) (ledger_of s))
    \<lparr>confirmed := confirmed (ledger_of s) \<union> txid ` set l\<rparr>"
    using e a(3,4) by (simp add: ledger_of_def learn_def dom_insert_valid [OF enumerates_lists [OF sync_block(3)] a(5)])
  then show ?thesis using ledger_block [OF a(1), of "ledger_of s"] a(2) sync_block(1,2) by (simp add: ledger_of_def)
next
  case (sync_mempool ord txs s s' T)
  from process_mempool_effect [OF sync_mempool(5)] obtain l where
    e: "accepted (sy_validator s) l (sy_validator s')" "sy_g s' = sy_g s"
      "sy_mg s' = insert_valid ord (grouped l) (txgraph_clear (sy_mg s))" by blast
  note a = accepted_learn [OF e(1)]
  have "ledger_of s' = (learn (dom (transaction_map (sy_validator s'))) (txid ` set l) (ledger_of s))\<lparr>pool := txid ` set l\<rparr>"
    using e a(3,4) by (simp add: ledger_of_def learn_def dom_insert_valid [OF enumerates_lists [OF sync_mempool(3)] a(5)] txgraph_clear_def)
  then show ?thesis using ledger_mempool [OF a(1), of "ledger_of s"] a(2) sync_mempool(1,2) by (simp add: ledger_of_def)
next
  case (sync_tx tx s b s' T)
  from process_tx_effect [OF sync_tx(4)] obtain l ord where
    e: "lists_tokens ord l" "accepted (sy_validator s) l (sy_validator s')" "sy_g s' = sy_g s"
      "sy_mg s' = insert_valid ord (grouped l) (sy_mg s)" by blast
  note a = accepted_learn [OF e(2)]
  have "ledger_of s' = (learn (dom (transaction_map (sy_validator s'))) (txid ` set l) (ledger_of s))
    \<lparr>pool := pool (ledger_of s) \<union> txid ` set l\<rparr>"
    using e a(3,4) by (simp add: ledger_of_def learn_def dom_insert_valid [OF e(1) a(5)])
  then show ?thesis using ledger_tx [OF a(1), of "ledger_of s"] a(2) sync_tx(1,2) by (simp add: ledger_of_def)
qed

interpretation sv: refinement "\<lambda>st. st = (sync_new, {})" sync_step sync_inv "ledger_of \<circ> fst" ledger_step
proof
  show "sync_inv st" if "st = (sync_new, {})" for st
    using that by (simp add: sync_new_def sync_inv_def indexed_ok_new validator_sound.simps validator_new_def validator_inv_def)
  show "sync_inv st'" if "sync_inv st" and "sync_step st st'" for st st'
    using that by (rule sync_inv_step)
  show "ledger_step ((ledger_of \<circ> fst) st) ((ledger_of \<circ> fst) st')" if "sync_inv st" and "sync_step st st'" for st st'
    using sync_step_refines [OF that(2)] by simp
qed


abbreviation sync_reach :: "sync_state \<times> txid set \<Rightarrow> bool" where
  "sync_reach \<equiv> reach (\<lambda>st. st = (sync_new, {})) sync_step"

definition ledger_new :: ledger where
  "ledger_new = \<lparr>known = {}, valid_ids = {}, confirmed = {}, pool = {}\<rparr>"

definition ledger_ok :: "ledger \<Rightarrow> bool" where
  "ledger_ok L \<longleftrightarrow> confirmed L \<union> pool L \<subseteq> valid_ids L \<and> valid_ids L \<subseteq> known L"

interpretation lm: machine "\<lambda>L. L = ledger_new" ledger_step ledger_ok
proof
  show "ledger_ok L" if "L = ledger_new" for L
    using that by (simp add: ledger_new_def ledger_ok_def)
  show "ledger_ok L'" if "ledger_ok L" and "ledger_step L L'" for L L'
    using that(2,1) by cases (auto simp: ledger_ok_def learn_def)
qed

lemma ledger_of_new: "ledger_of sync_new = ledger_new"
  by (simp add: ledger_of_def sync_new_def ledger_new_def validator_new_def txgraph_new_def)

lemma sync_reach_inv:
  assumes "sync_reach (s, T)"
  shows "txgraph_inv (sy_g s)" "txgraph_inv (sy_mg s)" "validator_sound (sy_validator s, T)"
    "indexed_ok (sy_validator s) (sy_g s)" "indexed_ok (sy_validator s) (sy_mg s)"
  using sv.reach_inv [OF assms] by (auto simp: sync_inv_def indexed_ok_def)

text \<open>What the ledger says of an answer.\<close>

definition served :: "ledger \<Rightarrow> txid \<Rightarrow> bool" where
  "served L t \<longleftrightarrow> t \<in> confirmed L \<union> pool L"

lemma search_served:
  assumes "sync_reach (s, T)" and "txid_regex (gsr_txid r)"
  shows "\<exists>reply. graph_search E (sy_g s) (sy_mg s) r =
    Some (if served (ledger_of s) (requested r) then (StatusOK, reply) else (NotFound ''txid not found'', []))"
proof -
  obtain st reply where g: "graph_search E (sy_g s) (sy_mg s) r = Some (st, reply)"
    "st = StatusOK \<longleftrightarrow> served (ledger_of s) (requested r)"
    using graph_search_answers [OF sync_reach_inv(1,2) [OF assms(1)], of E r] assms(2)
    by (auto simp: served_def ledger_of_def domIff)
  show ?thesis
  proof (cases "served (ledger_of s) (requested r)")
    case False
    then have "tg_txid_to_token (sy_g s) (requested r) = None" "tg_txid_to_token (sy_mg s) (requested r) = None"
      by (auto simp: served_def ledger_of_def)
    then show ?thesis using False
      by (simp add: graph_search_eq [OF sync_reach_inv(1) [OF assms(1)] assms(2)] search_unknown)
  qed (use g in simp)
qed

text \<open>An id that is known and valid, but neither confirmed nor, after a scan, in the mempool.\<close>

definition missed :: "txid \<Rightarrow> ledger \<Rightarrow> bool" where
  "missed t L \<longleftrightarrow> t \<in> known L \<and> t \<in> valid_ids L \<and> t \<notin> confirmed L"

definition lost :: "txid \<Rightarrow> ledger \<Rightarrow> bool" where
  "lost t L \<longleftrightarrow> missed t L \<and> t \<notin> pool L"

lemma missed_step: "ledger_step L L' \<Longrightarrow> missed t L \<Longrightarrow> missed t L'"
  by (cases rule: ledger_step.cases) (auto simp: missed_def learn_def)

lemma lost_step: "ledger_step L L' \<Longrightarrow> lost t L \<Longrightarrow> lost t L'"
  by (cases rule: ledger_step.cases) (auto simp: lost_def missed_def learn_def)

lemma lost_run: "lost t L \<Longrightarrow> ledger_step\<^sup>*\<^sup>* L L' \<Longrightarrow> lost t L'"
  by (rotate_tac, induction rule: rtranclp_induct) (auto intro: lost_step)

lemma process_mempool_lost:
  assumes "enumerates ord" and "process_mempool ord txs s = VOk s'" and "missed t (ledger_of s)"
  shows "lost t (ledger_of s')"
proof -
  from process_mempool_effect [OF assms(2)] obtain l where
    e: "accepted (sy_validator s) l (sy_validator s')" "sy_g s' = sy_g s"
      "sy_mg s' = insert_valid ord (grouped l) (txgraph_clear (sy_mg s))" by blast
  note a = accepted_learn [OF e(1)]
  have "pool (ledger_of s') = txid ` set l"
    using e by (simp add: ledger_of_def dom_insert_valid [OF enumerates_lists [OF assms(1)] a(5)] txgraph_clear_def)
  then show ?thesis using assms(3) e a(2-4) by (auto simp: lost_def missed_def ledger_of_def)
qed

text \<open>Valid ids name transactions the validator holds.\<close>

lemma sync_reach_ledger: "sync_reach st \<Longrightarrow> ledger_ok (ledger_of (fst st))"
  using sv.reach_refines lm.rtranclp_inv [OF lm.inv_init [OF refl]] by (auto simp: ledger_of_new)

lemma sync_reach_known:
  assumes "sync_reach (s, T)"
  shows "valid_txids (sy_validator s) \<subseteq> dom (transaction_map (sy_validator s))"
  using sync_reach_ledger [OF assms] by (simp add: ledger_ok_def ledger_of_def)

section \<open>What the server promises\<close>

text \<open>C26: whatever blocks, mempool scans and transactions arrive, and however the hash maps order their
  keys, the server's run is a run of the abstract ledger, in which every id that is served,
  confirmed or from the mempool, has been accepted as valid.\<close>

theorem server_refines_ledger:
  assumes "sync_step\<^sup>*\<^sup>* (sync_new, {}) (s, T)"
  shows "ledger_step\<^sup>*\<^sup>* ledger_new (ledger_of s)
    \<and> (\<forall>t. served (ledger_of s) t \<longrightarrow> t \<in> valid_ids (ledger_of s))"
proof -
  have r: "ledger_step\<^sup>*\<^sup>* ledger_new (ledger_of s)"
    using sv.run_refines [OF sv.inv_init [OF refl] assms] by (simp add: ledger_of_new)
  have "ledger_ok (ledger_of s)" using lm.rtranclp_inv [OF lm.inv_init [OF refl] r] .
  with r show ?thesis by (auto simp: ledger_ok_def served_def)
qed

text \<open>C27: what the server serves is legitimate: if a search in a state it can reach answers OK, then the
  transaction is one the validation service confirms, and it is legitimate by the protocol's
  rule over the transactions held, from the ids that came in trusted blocks.\<close>

theorem served_are_legit:
  assumes "sync_reach (s, T)" and "graph_search E (sy_g s) (sy_mg s) r = Some (StatusOK, reply)"
  shows "trusted_validation (sy_validator s) (gsr_txid r) = Some (StatusOK, True)
    \<and> legit (transaction_map (sy_validator s)) T (requested r)"
proof -
  have a: "txid_regex (gsr_txid r)" "tg_txid_to_token (sy_mg s) (requested r) \<noteq> None \<or> tg_txid_to_token (sy_g s) (requested r) \<noteq> None"
    using graph_search_answers [OF sync_reach_inv(1,2) [OF assms(1)], of E r] assms(2) by auto
  then have "has_valid (sy_validator s) (requested r)"
    using sync_reach_inv(4,5) [OF assms(1)] by (auto simp: indexed_ok_def)
  then show ?thesis
    using sync_reach_inv(3) [OF assms(1)] a(1)
    by (auto simp: trusted_validation_def read_requested validator_sound.simps has_valid_def)
qed

text \<open>C31: after a block, exactly the transactions served before and those the block made valid are
  served; the latter were unknown before.\<close>

theorem block_txs_served:
  assumes "sync_reach (s, T)" and "enumerates ord" and "list_all slp_wf txs"
    and "process_block ord trusted txs s = VOk (l, s')" and "txid_regex (gsr_txid r)"
  shows "valid_txids (sy_validator s') = valid_txids (sy_validator s) \<union> txid ` set l
    \<and> set l \<subseteq> set txs \<and> (\<forall>tx \<in> set l. \<not> validator_has (sy_validator s) (txid tx))
    \<and> ((\<exists>reply. graph_search E (sy_g s') (sy_mg s') r = Some (StatusOK, reply)) \<longleftrightarrow>
        (\<exists>reply. graph_search E (sy_g s) (sy_mg s) r = Some (StatusOK, reply)) \<or> requested r \<in> txid ` set l)"
proof -
  note e = process_block_effect [OF assms(4)]
  note a = accepted_learn [OF conjunct1 [OF e]]
  have r': "sync_reach (s', trust trusted txs T)"
    by (rule reach_step [OF assms(1)]) (rule sync_block [OF assms(2-4)])
  have ok: "(\<exists>reply. graph_search E (sy_g u) (sy_mg u) r = Some (StatusOK, reply)) \<longleftrightarrow> served (ledger_of u) (requested r)"
    if "sync_reach (u, U)" for u U
    using search_served [OF that assms(5), of E] by (cases "served (ledger_of u) (requested r)") auto
  have "served (ledger_of s') t \<longleftrightarrow> served (ledger_of s) t \<or> t \<in> txid ` set l" for t
    using e by (auto simp: served_def ledger_of_def dom_insert_valid [OF enumerates_lists [OF assms(2)] a(5)])
  then show ?thesis using e a(2,4) ok [OF assms(1)] ok [OF r'] by (auto simp: validator_has_def)
qed

text \<open>C32: a transaction the validator already holds when it is mined - because it came from the mempool -
  is lost: the block handler skips it, the mempool handler empties the mempool graph and skips it
  too, and from then on, whatever arrives, a search for it answers that it is not found, while
  the validation service keeps calling it valid.\<close>

theorem mempool_tx_lost:
  assumes "sync_reach (s, T)" and "txid_regex (gsr_txid r)"
    and "has_valid (sy_validator s) (requested r)" and "tg_txid_to_token (sy_g s) (requested r) = None"
    and "enumerates o1" and "list_all slp_wf txs1" and "process_block o1 trusted txs1 s = VOk (l, s1)"
    and "enumerates o2" and "list_all slp_wf txs2" and "process_mempool o2 txs2 s1 = VOk s2"
    and "sync_step\<^sup>*\<^sup>* (s2, trust trusted txs1 T) (s3, T3)"
  shows "graph_search E (sy_g s3) (sy_mg s3) r = Some (NotFound ''txid not found'', [])
    \<and> trusted_validation (sy_validator s3) (gsr_txid r) = Some (StatusOK, True)"
proof -
  let ?t = "requested r" and ?T = "trust trusted txs1 T"
  have s1: "sync_step (s, T) (s1, ?T)" by (rule sync_block [OF assms(5-7)])
  have s2: "sync_step (s1, ?T) (s2, ?T)" by (rule sync_mempool [OF assms(8-10)])
  have r3: "sync_reach (s3, T3)"
    by (rule sv.reach_rtranclp [OF reach_step [OF reach_step [OF assms(1) s1] s2] assms(11)])
  have "?t \<in> dom (transaction_map (sy_validator s))"
    using sync_reach_known [OF assms(1)] assms(3) by (auto simp: has_valid_def)
  then have L0: "missed ?t (ledger_of s)"
    using assms(3,4) by (auto simp: missed_def ledger_of_def has_valid_def)
  have L1: "missed ?t (ledger_of s1)"
    using missed_step [OF sync_step_refines [OF s1]] L0 by simp
  have "lost ?t (ledger_of s2)"
    using process_mempool_lost [OF assms(8,10) L1] .
  moreover have "ledger_step\<^sup>*\<^sup>* (ledger_of s2) (ledger_of s3)"
    using sv.run_refines [OF _ assms(11)] sv.reach_inv [OF reach_step [OF reach_step [OF assms(1) s1] s2]] by simp
  ultimately have "lost ?t (ledger_of s3)" by (rule lost_run)
  then show ?thesis
    using search_served [OF r3 assms(2), of E] assms(2)
    by (auto simp: lost_def missed_def served_def trusted_validation_def read_requested has_valid_def ledger_of_def)
qed


section \<open>Examples\<close>

definition example_order :: "tokenid set \<Rightarrow> tokenid list" where
  "example_order K = sorted_list_of_set K"

definition example_seen :: sync_state where
  "example_seen = \<lparr>sy_validator = example_state, sy_g = txgraph_new,
     sy_mg = snd (insert_token_data (replicate 32 1) [example_genesis_tx] txgraph_new)\<rparr>"

definition example_mined :: sync_state where
  "example_mined = \<lparr>sy_validator = example_state,
     sy_g = snd (insert_token_data (replicate 32 1) [example_genesis_tx] txgraph_new), sy_mg = txgraph_new\<rparr>"

definition example_lost :: sync_state where
  "example_lost = \<lparr>sy_validator = example_state, sy_g = txgraph_new, sy_mg = txgraph_new\<rparr>"

definition example_lookup :: graph_search_request where
  "example_lookup = \<lparr>gsr_txid = gs_hex (replicate 32 1), gsr_exclude_txids = []\<rparr>"

lemma example_order_enumerates: "enumerates example_order"
  by (simp add: enumerates_def example_order_def)

lemma example_genesis_facts:
  "slp_type (slp example_genesis_tx) = TGenesis" "txid example_genesis_tx = replicate 32 1"
  "slp_tokenid (slp example_genesis_tx) = replicate 32 1"
  "\<not> validator_has validator_new t" "validator_has example_state (replicate 32 1)"
  "has_valid example_state (replicate 32 1)"
  by (simp_all add: example_defs validator_has_def validator_new_def has_valid_def)

lemma example_seen_step: "process_tx example_genesis_tx sync_new = VOk (True, example_seen)"
  by (simp add: process_tx_def sync_new_def example_seen_def example_steps example_genesis_facts)

lemma example_block_steps:
  "process_block example_order True [example_genesis_tx] example_seen = VOk ([], example_seen)"
  "process_mempool example_order [example_genesis_tx] example_seen = VOk example_lost"
  by (simp_all add: process_block_def process_mempool_def example_seen_def example_lost_def insert_valid_def example_order_def
      example_genesis_facts txgraph_clear_def txgraph_new_def)

lemma example_mined_step:
  "process_block example_order False [example_genesis_tx] sync_new = VOk ([example_genesis_tx], example_mined)"
  by (simp add: process_block_def sync_new_def example_mined_def insert_valid_def example_order_def push_valid_def
      example_steps example_genesis_facts)

lemma example_sync:
  "sync_step (sync_new, {}) (example_seen, {})" "sync_reach (sync_new, {})" "sync_reach (example_seen, {})"
proof -
  show s: "sync_step (sync_new, {}) (example_seen, {})" by (rule sync_tx [OF example_wf(1) example_seen_step])
  show n: "sync_reach (sync_new, {})" by (rule reach_init) simp
  show "sync_reach (example_seen, {})" by (rule reach_step [OF n s])
qed

lemma example_lookup_facts:
  "txid_regex (gsr_txid example_lookup)" "requested example_lookup = replicate 32 1"
  by (simp_all add: example_lookup_def requested_def printed_txid)

lemma example_seen_served: "served (ledger_of example_seen) (replicate 32 1)"
  by (simp add: served_def ledger_of_def example_seen_def index_insert domIff txgraph_new_def example_genesis_facts)

theorem server_refines_ledger_witness: "replicate 32 1 \<in> valid_ids (ledger_of example_seen)"
  using server_refines_ledger [OF r_into_rtranclp [of sync_step, OF example_sync(1)]] example_seen_served by blast

theorem served_are_legit_witness:
  "trusted_validation example_state (gs_hex (replicate 32 1)) = Some (StatusOK, True)
     \<and> legit (transaction_map example_state) {} (replicate 32 1)"
proof -
  have "\<exists>reply. graph_search example_env (sy_g example_seen) (sy_mg example_seen) example_lookup = Some (StatusOK, reply)"
    using search_served [OF example_sync(3) example_lookup_facts(1), of example_env] example_seen_served
    by (simp add: example_lookup_facts)
  then show ?thesis
    using served_are_legit [OF example_sync(3), of example_env example_lookup]
    by (auto simp: example_lookup_facts) (auto simp: example_seen_def example_lookup_def)
qed

theorem block_txs_served_witness:
  "\<exists>reply. graph_search example_env (sy_g example_mined) txgraph_new example_lookup = Some (StatusOK, reply)"
  using block_txs_served [OF example_sync(2) example_order_enumerates _ example_mined_step example_lookup_facts(1), of example_env]
  by (simp add: example_wf example_lookup_facts example_genesis_facts) (simp add: example_mined_def)

theorem mempool_tx_lost_witness:
  "graph_search example_env (sy_g example_lost) (sy_mg example_lost) example_lookup = Some (NotFound ''txid not found'', [])
     \<and> trusted_validation (sy_validator example_lost) (gsr_txid example_lookup) = Some (StatusOK, True)"
  using mempool_tx_lost [OF example_sync(3) example_lookup_facts(1) _ _ example_order_enumerates _ example_block_steps(1)
      example_order_enumerates _ example_block_steps(2) rtranclp.rtrancl_refl, of example_env]
  by (simp add: example_wf example_lookup_facts) (simp add: example_seen_def example_genesis_facts txgraph_new_def)

end
