(* ===== verification/SlpDb.thy ===== *)
theory SlpDb
  imports SlpValidator
begin

text \<open>
  The token database of \<open>include/gs++/slpdb.hpp\<close> and \<open>include/gs++/slp_token.hpp\<close>: for each token its
  transactions, its unspent outputs with their amounts, and the outpoint of its mint baton. A
  message of the wrong variant makes the code throw. The last operation is the part of
  \<open>bch::process_block\<close> that removes a spent outpoint.
\<close>

section \<open>The state\<close>

record slp_output =
  so_outpoint :: outpoint
  so_amount :: u64
  so_is_mint_baton :: bool

record slp_token =
  tk_tokenid :: tokenid
  tk_transactions :: "txid \<rightharpoonup> transaction"
  tk_utxos :: "outpoint \<rightharpoonup> slp_output"
  tk_mint_baton_outpoint :: "outpoint option"

record slpdb =
  tokens :: "tokenid \<rightharpoonup> slp_token"
  utxo_to_tokenid :: "outpoint \<rightharpoonup> tokenid"

definition slp_token_new :: slp_token where
  "slp_token_new = \<lparr>tk_tokenid = replicate 32 0, tk_transactions = Map.empty, tk_utxos = Map.empty,
     tk_mint_baton_outpoint = None\<rparr>"

definition slp_token_of :: "transaction \<Rightarrow> slp_token" where
  "slp_token_of tx = \<lparr>tk_tokenid = txid tx, tk_transactions = [txid tx \<mapsto> tx], tk_utxos = Map.empty,
     tk_mint_baton_outpoint = None\<rparr>"

definition slpdb_new :: slpdb where
  "slpdb_new = \<lparr>tokens = Map.empty, utxo_to_tokenid = Map.empty\<rparr>"

text \<open>\<open>insert\<close> and \<open>emplace\<close> of a hash map: an entry that is there stays.\<close>

definition map_insert :: "'k \<Rightarrow> 'v \<Rightarrow> ('k \<rightharpoonup> 'v) \<Rightarrow> ('k \<rightharpoonup> 'v)" where
  "map_insert k v m = (case m k of None \<Rightarrow> m(k \<mapsto> v) | Some _ \<Rightarrow> m)"

text \<open>The two constructors of an output, with an amount and as a baton.\<close>

definition slp_output_of :: "outpoint \<Rightarrow> u64 \<Rightarrow> slp_output" where
  "slp_output_of p n = \<lparr>so_outpoint = p, so_amount = n, so_is_mint_baton = False\<rparr>"

definition slp_output_baton :: "outpoint \<Rightarrow> slp_output" where
  "slp_output_baton p = \<lparr>so_outpoint = p, so_amount = 0, so_is_mint_baton = True\<rparr>"

section \<open>Adding a transaction\<close>

definition add_utxo :: "outpoint \<Rightarrow> slp_output \<Rightarrow> slp_token \<Rightarrow> slp_token" where
  "add_utxo p out token = token\<lparr>tk_utxos := map_insert p out (tk_utxos token)\<rparr>"

definition add_genesis :: "transaction \<Rightarrow> slp_transaction_genesis \<Rightarrow> slpdb \<Rightarrow> slpdb" where
  "add_genesis tx s db = (if length (outputs tx) < 2 then db else let
       tokenid = txid tx;
       toks = map_insert tokenid (slp_token_of tx) (tokens db);
       outpoint = \<lparr>op_txid = txid tx, op_vout = 1\<rparr>;
       token = add_utxo outpoint (slp_output_of outpoint (genesis_qty s)) (the (toks tokenid));
       utxos = map_insert outpoint tokenid (utxo_to_tokenid db)
     in if genesis_has_mint_baton s \<and> unat (genesis_mint_baton_vout s) < length (outputs tx) then let
          baton = \<lparr>op_txid = txid tx, op_vout = genesis_mint_baton_vout s\<rparr>
        in db\<lparr>tokens := toks(tokenid \<mapsto> token\<lparr>tk_mint_baton_outpoint := Some baton\<rparr>),
             utxo_to_tokenid := map_insert baton tokenid utxos\<rparr>
        else db\<lparr>tokens := toks(tokenid \<mapsto> token), utxo_to_tokenid := utxos\<rparr>)"

definition add_mint :: "transaction \<Rightarrow> slp_transaction_mint \<Rightarrow> slpdb \<Rightarrow> slpdb" where
  "add_mint tx s db = (let tokenid = slp_tokenid (slp tx) in case tokens db tokenid of
       None \<Rightarrow> db
     | Some token \<Rightarrow> (case tk_mint_baton_outpoint token of
           None \<Rightarrow> db
         | Some mint_baton \<Rightarrow>
             if mint_baton \<notin> set (inputs tx) then db
             else let
               outpoint = \<lparr>op_txid = txid tx, op_vout = 1\<rparr>;
               token = token\<lparr>tk_transactions := map_insert (txid tx) tx (tk_transactions token)\<rparr>;
               token = add_utxo outpoint (slp_output_of outpoint (mint_qty s)) token;
               utxos = map_insert outpoint tokenid (utxo_to_tokenid db)
             in if mint_has_mint_baton s \<and> unat (mint_mint_baton_vout s) < length (outputs tx) then let
                  baton = \<lparr>op_txid = txid tx, op_vout = mint_mint_baton_vout s\<rparr>
                in db\<lparr>tokens := (tokens db)(tokenid \<mapsto>
                       add_utxo baton (slp_output_baton outpoint) (token\<lparr>tk_mint_baton_outpoint := Some baton\<rparr>)),
                     utxo_to_tokenid := map_insert baton tokenid utxos\<rparr>
                else db\<lparr>tokens := (tokens db)(tokenid \<mapsto> token), utxo_to_tokenid := utxos\<rparr>))"

text \<open>The loop over the amounts, with the index \<open>i\<close>.\<close>

fun send_outputs :: "transaction \<Rightarrow> u64 list \<Rightarrow> nat \<Rightarrow> slp_token \<times> (outpoint \<rightharpoonup> tokenid) \<Rightarrow> slp_token \<times> (outpoint \<rightharpoonup> tokenid)" where
  "send_outputs tx [] i st = st"
| "send_outputs tx (n # ns) i (token, utxos) = (if i < 1 + length (outputs tx) then
       (let outpoint = \<lparr>op_txid = txid tx, op_vout = of_nat (i + 1)\<rparr> in
        send_outputs tx ns (i + 1) (add_utxo outpoint (slp_output_of outpoint n) token,
          map_insert outpoint (slp_tokenid (slp tx)) utxos))
     else (token, utxos))"

definition total_token_inputs :: "slp_token \<Rightarrow> transaction \<Rightarrow> u128" where
  "total_token_inputs token tx = sum_u128 (map so_amount (List.map_filter (tk_utxos token) (inputs tx)))"

definition add_send :: "transaction \<Rightarrow> slp_transaction_send \<Rightarrow> slpdb \<Rightarrow> slpdb" where
  "add_send tx s db = (let tokenid = slp_tokenid (slp tx) in case tokens db tokenid of
       None \<Rightarrow> db
     | Some token \<Rightarrow>
         if sum_u128 (amounts s) > total_token_inputs token tx then db
         else (let (token, utxos) = send_outputs tx (amounts s) 0 (token, utxo_to_tokenid db) in
           db\<lparr>tokens := (tokens db)(tokenid \<mapsto> token\<lparr>tk_transactions := map_insert (txid tx) tx (tk_transactions token)\<rparr>),
             utxo_to_tokenid := utxos\<rparr>))"

definition add_transaction :: "transaction \<Rightarrow> slpdb \<Rightarrow> slpdb vres" where
  "add_transaction tx db = (case slp_type (slp tx) of
       TInvalid \<Rightarrow> VOk db
     | TGenesis \<Rightarrow> (case slp_tx (slp tx) of SlpGenesis s \<Rightarrow> VOk (add_genesis tx s db) | _ \<Rightarrow> VThrow)
     | TMint \<Rightarrow> (case slp_tx (slp tx) of SlpMint s \<Rightarrow> VOk (add_mint tx s db) | _ \<Rightarrow> VThrow)
     | TSend \<Rightarrow> (case slp_tx (slp tx) of SlpSend s \<Rightarrow> VOk (add_send tx s db) | _ \<Rightarrow> VThrow))"

section \<open>Removing a spent outpoint\<close>

definition spend_slp :: "outpoint \<Rightarrow> slpdb \<Rightarrow> slpdb" where
  "spend_slp m db = (case utxo_to_tokenid db m of
       None \<Rightarrow> db
     | Some k \<Rightarrow> (let token = (case tokens db k of None \<Rightarrow> slp_token_new | Some t \<Rightarrow> t) in
         case tk_utxos token m of
           None \<Rightarrow> db\<lparr>tokens := (tokens db)(k \<mapsto> token)\<rparr>
         | Some _ \<Rightarrow> (let token = token\<lparr>tk_utxos := (tk_utxos token)(m := None)\<rparr> in
             db\<lparr>tokens := (tokens db)(k \<mapsto>
               if tk_mint_baton_outpoint token = Some m then token\<lparr>tk_mint_baton_outpoint := None\<rparr> else token)\<rparr>)))"

section \<open>Conservation\<close>

text \<open>What the outputs outside \<open>X\<close> are worth.\<close>

definition worth :: "(outpoint \<rightharpoonup> slp_output) \<Rightarrow> outpoint set \<Rightarrow> nat" where
  "worth u X = (\<Sum>p \<in> dom u - X. unat (so_amount (the (u p))))"

definition token_supply :: "outpoint set \<Rightarrow> slpdb \<Rightarrow> tokenid \<Rightarrow> nat" where
  "token_supply X db k = (case tokens db k of None \<Rightarrow> 0 | Some t \<Rightarrow> worth (tk_utxos t) X)"

lemma worth_insert:
  assumes "finite (dom u)"
  shows "worth (map_insert p out u) X \<le> worth u X + unat (so_amount out)"
proof (cases "u p")
  case None
  then have d: "p \<notin> dom u" by blast
  have "worth (u(p \<mapsto> out)) X = (\<Sum>q \<in> insert p (dom u) - X. unat (so_amount (the ((u(p \<mapsto> out)) q))))"
    by (simp add: worth_def)
  also have "\<dots> \<le> (\<Sum>q \<in> insert p (dom u - X). unat (so_amount (the ((u(p \<mapsto> out)) q))))"
    by (rule sum_mono2) (use assms in auto)
  also have "\<dots> = unat (so_amount out) + (\<Sum>q \<in> dom u - X. unat (so_amount (the ((u(p \<mapsto> out)) q))))"
    using assms d by simp
  also have "(\<Sum>q \<in> dom u - X. unat (so_amount (the ((u(p \<mapsto> out)) q)))) = worth u X"
    unfolding worth_def by (rule sum.cong) (use d in auto)
  finally show ?thesis using None by (simp add: map_insert_def fun_upd_def)
qed (simp add: map_insert_def)

lemma worth_mono: "finite (dom u) \<Longrightarrow> X \<subseteq> X' \<Longrightarrow> worth u X' \<le> worth u X"
  unfolding worth_def by (rule sum_mono2) auto

lemma worth_inputs:
  assumes "finite (dom u)"
  shows "distinct is' \<Longrightarrow> set is' \<inter> X = {} \<Longrightarrow>
    worth u (X \<union> set is') + sent (map so_amount (List.map_filter u is')) = worth u X"
proof (induction is' arbitrary: X)
  case (Cons i is')
  have IH: "worth u (insert i X \<union> set is') + sent (map so_amount (List.map_filter u is')) = worth u (insert i X)"
    using Cons.prems by (intro Cons.IH) auto
  have "worth u X = worth u (insert i X) + (case u i of None \<Rightarrow> 0 | Some out \<Rightarrow> unat (so_amount out))"
  proof (cases "u i")
    case None
    then have "dom u - insert i X = dom u - X" by auto
    with None show ?thesis by (simp add: worth_def)
  next
    case (Some out)
    then have e: "dom u - X = insert i (dom u - insert i X)" using Cons.prems by auto
    have "finite (dom u - insert i X)" using assms by blast
    then show ?thesis
      unfolding worth_def by (subst e, subst sum.insert) (simp_all add: Some)
  qed
  with IH show ?case by (cases "u i") (simp_all add: List.map_filter_simps sent_def)
qed (simp add: List.map_filter_simps sent_def)

text \<open>
  A consistent database: a token's outputs are finitely many and indexed under the token. While a
  transaction is added for the token \<open>k\<close> the index grows only by outputs of that transaction.
\<close>

definition slpdb_ok :: "slpdb \<Rightarrow> bool" where
  "slpdb_ok db \<longleftrightarrow> (\<forall>k t. tokens db k = Some t \<longrightarrow> finite (dom (tk_utxos t)) \<and> (\<forall>p \<in> dom (tk_utxos t). utxo_to_tokenid db p = Some k))"

definition fresh :: "slpdb \<Rightarrow> txid \<Rightarrow> bool" where
  "fresh db t \<longleftrightarrow> (\<forall>v. utxo_to_tokenid db \<lparr>op_txid = t, op_vout = v\<rparr> = None)"

definition adding :: "(outpoint \<rightharpoonup> tokenid) \<Rightarrow> txid \<Rightarrow> tokenid \<Rightarrow> slp_token \<Rightarrow> (outpoint \<rightharpoonup> tokenid) \<Rightarrow> bool" where
  "adding u0 t k token u \<longleftrightarrow> (\<forall>p. u p = u0 p \<or> op_txid p = t \<and> u p = Some k)
     \<and> finite (dom (tk_utxos token)) \<and> (\<forall>p \<in> dom (tk_utxos token). u p = Some k)"

lemma adding_tag:
  assumes "adding u0 t k token u" and "op_txid p = t" and "u0 p = None"
  shows "adding u0 t k token (map_insert p k u)" and "map_insert p k u p = Some k"
proof -
  have p: "u p = None \<or> u p = Some k" using assms unfolding adding_def by metis
  show "map_insert p k u p = Some k" using p by (auto simp: map_insert_def)
  have "map_insert p k u q = u q \<or> q = p \<and> map_insert p k u q = Some k" for q using p by (cases "q = p") (auto simp: map_insert_def)
  then show "adding u0 t k token (map_insert p k u)"
    using assms(1,2) unfolding adding_def by metis
qed

lemma adding_utxo:
  assumes "adding u0 t k token u" and "op_txid p = t" and "u0 p = None"
  shows "adding u0 t k (add_utxo p out token) (map_insert p k u)"
proof -
  have "dom (tk_utxos (add_utxo p out token)) = insert p (dom (tk_utxos token))"
    by (auto simp: add_utxo_def map_insert_def split: option.split)
  with adding_tag [OF assms] show ?thesis by (auto simp: adding_def)
qed

lemma adding_fields [state_simps]:
  "adding u0 t k (token\<lparr>tk_mint_baton_outpoint := b\<rparr>) u = adding u0 t k token u"
  "adding u0 t k (token\<lparr>tk_transactions := m\<rparr>) u = adding u0 t k token u"
  by (simp_all add: adding_def)

lemma adding_worth:
  assumes "adding u0 t k token u"
  shows "worth (tk_utxos (add_utxo p out token)) X \<le> worth (tk_utxos token) X + unat (so_amount out)"
  using worth_insert [of "tk_utxos token" p out X] assms by (simp add: add_utxo_def adding_def)

lemma adding_done:
  assumes "slpdb_ok db" and "fresh db t" and "adding (utxo_to_tokenid db) t k token u"
  shows "slpdb_ok \<lparr>tokens = (tokens db)(k \<mapsto> token), utxo_to_tokenid = u\<rparr>"
proof -
  have "u p = Some k'" if "tokens db k' = Some t'" "p \<in> dom (tk_utxos t')" for k' t' p
  proof -
    have "utxo_to_tokenid db p = Some k'" using assms(1) that by (auto simp: slpdb_ok_def)
    moreover from this have "op_txid p \<noteq> t" using assms(2) by (cases p) (auto simp: fresh_def)
    ultimately show ?thesis using assms(3) unfolding adding_def by metis
  qed
  then show ?thesis using assms(1,3) by (auto simp: slpdb_ok_def adding_def)
qed

lemma adding_start:
  assumes "slpdb_ok db" and "tokens db k = Some token"
  shows "adding (utxo_to_tokenid db) t k token (utxo_to_tokenid db)"
  using assms by (auto simp: adding_def slpdb_ok_def)


text \<open>A step for the token \<open>k\<close>: the database stays consistent and the token gains at most \<open>n\<close>.\<close>

definition token_step :: "slpdb \<Rightarrow> txid \<Rightarrow> tokenid \<Rightarrow> nat \<Rightarrow> slpdb \<Rightarrow> bool" where
  "token_step db t k n db' \<longleftrightarrow> (\<exists>token u. db' = \<lparr>tokens = (tokens db)(k \<mapsto> token), utxo_to_tokenid = u\<rparr>
     \<and> adding (utxo_to_tokenid db) t k token u
     \<and> (\<forall>X. worth (tk_utxos token) X \<le> token_supply X db k + n))"

lemma token_stepI:
  assumes "adding (utxo_to_tokenid db) t k token u" and "\<And>X. worth (tk_utxos token) X \<le> token_supply X db k + n"
  shows "token_step db t k n (db\<lparr>tokens := (tokens db)(k \<mapsto> token), utxo_to_tokenid := u\<rparr>)"
  using assms by (cases db) (auto simp: token_step_def)

lemma fresh_at: "fresh db (op_txid p) \<Longrightarrow> utxo_to_tokenid db p = None"
  by (cases p) (simp add: fresh_def)

lemma token_step_self:
  assumes "slpdb_ok db" and "tokens db k = Some token"
  shows "token_step db t k n db"
  using assms adding_start [OF assms]
  by (intro token_step_def [THEN iffD2] exI [of _ token] exI [of _ "utxo_to_tokenid db"])
    (cases db, simp add: token_supply_def fun_upd_idem)

lemma add_genesis_step:
  assumes "slpdb_ok db" and "fresh db (txid tx)"
  shows "add_genesis tx s db = db \<or> token_step db (txid tx) (txid tx) (unat (genesis_qty s)) (add_genesis tx s db)"
proof (cases "length (outputs tx) < 2")
  case False
  let ?k = "txid tx" and ?p = "\<lparr>op_txid = txid tx, op_vout = 1\<rparr>"
  let ?b = "\<lparr>op_txid = txid tx, op_vout = genesis_mint_baton_vout s\<rparr>"
  let ?old = "the (map_insert ?k (slp_token_of tx) (tokens db) ?k)"
  let ?t = "add_utxo ?p (slp_output_of ?p (genesis_qty s)) ?old" and ?u = "map_insert ?p ?k (utxo_to_tokenid db)"
  have n: "utxo_to_tokenid db ?p = None" "utxo_to_tokenid db ?b = None" using assms(2) by (simp_all add: fresh_def)
  have a0: "adding (utxo_to_tokenid db) ?k ?k ?old (utxo_to_tokenid db)"
    using assms(1) by (auto simp: adding_def slpdb_ok_def map_insert_def slp_token_of_def split: option.splits)
  have w: "worth (tk_utxos ?old) X = token_supply X db ?k" for X
    by (simp add: map_insert_def token_supply_def slp_token_of_def worth_def split: option.split)
  have a: "adding (utxo_to_tokenid db) ?k ?k ?t ?u" by (rule adding_utxo [OF a0 _ n(1)]) simp
  have ab: "adding (utxo_to_tokenid db) ?k ?k ?t (map_insert ?b ?k ?u)" by (rule adding_tag(1) [OF a _ n(2)]) simp
  have wn: "worth (tk_utxos ?t) X \<le> token_supply X db ?k + unat (genesis_qty s)" for X
    using adding_worth [OF a0, of ?p "slp_output_of ?p (genesis_qty s)" X] by (simp only: w) (simp add: slp_output_of_def)
  have up: "(map_insert ?k (slp_token_of tx) (tokens db))(?k \<mapsto> token) = (tokens db)(?k \<mapsto> token)" for token
    by (auto simp: map_insert_def split: option.split)
  have "token_step db ?k ?k (unat (genesis_qty s)) (add_genesis tx s db)"
  proof (cases "genesis_has_mint_baton s \<and> unat (genesis_mint_baton_vout s) < length (outputs tx)")
    case True
    have "token_step db ?k ?k (unat (genesis_qty s)) (db\<lparr>tokens := (tokens db)(?k \<mapsto> ?t\<lparr>tk_mint_baton_outpoint := Some ?b\<rparr>),
        utxo_to_tokenid := map_insert ?b ?k ?u\<rparr>)"
      using ab wn by (intro token_stepI) (simp_all add: state_simps)
    then show ?thesis using True False by (simp add: add_genesis_def Let_def up)
  next
    case no: False
    show ?thesis using token_stepI [OF a wn] no False by (auto simp: add_genesis_def Let_def up)
  qed
  then show ?thesis ..
qed (simp add: add_genesis_def)

lemma add_mint_step:
  assumes "slpdb_ok db" and "fresh db (txid tx)"
  shows "add_mint tx s db = db \<or> token_step db (txid tx) (slp_tokenid (slp tx)) (unat (mint_qty s)) (add_mint tx s db)"
proof -
  let ?k = "slp_tokenid (slp tx)" and ?p = "\<lparr>op_txid = txid tx, op_vout = 1\<rparr>"
  let ?b = "\<lparr>op_txid = txid tx, op_vout = mint_mint_baton_vout s\<rparr>"
  show ?thesis
  proof (cases "\<exists>token mb. tokens db ?k = Some token \<and> tk_mint_baton_outpoint token = Some mb \<and> mb \<in> set (inputs tx)")
    case True
    then obtain token mb where t: "tokens db ?k = Some token" "tk_mint_baton_outpoint token = Some mb" "mb \<in> set (inputs tx)" by blast
    let ?old = "token\<lparr>tk_transactions := map_insert (txid tx) tx (tk_transactions token)\<rparr>"
    let ?t = "add_utxo ?p (slp_output_of ?p (mint_qty s)) ?old" and ?u = "map_insert ?p ?k (utxo_to_tokenid db)"
    let ?tb = "add_utxo ?b (slp_output_baton ?p) (?t\<lparr>tk_mint_baton_outpoint := Some ?b\<rparr>)"
    have n: "utxo_to_tokenid db ?p = None" "utxo_to_tokenid db ?b = None" using assms(2) by (simp_all add: fresh_def)
    have a0: "adding (utxo_to_tokenid db) (txid tx) ?k ?old (utxo_to_tokenid db)"
      using adding_start [OF assms(1) t(1)] by (simp add: state_simps)
    have a: "adding (utxo_to_tokenid db) (txid tx) ?k ?t ?u" by (rule adding_utxo [OF a0 _ n(1)]) simp
    have am: "adding (utxo_to_tokenid db) (txid tx) ?k (?t\<lparr>tk_mint_baton_outpoint := Some ?b\<rparr>) ?u" using a by (simp add: state_simps)
    have ab: "adding (utxo_to_tokenid db) (txid tx) ?k ?tb (map_insert ?b ?k ?u)" by (rule adding_utxo [OF am _ n(2)]) simp
    have w: "worth (tk_utxos ?t) X \<le> token_supply X db ?k + unat (mint_qty s)" for X
      using adding_worth [OF a0, of ?p "slp_output_of ?p (mint_qty s)" X] t(1) by (simp add: slp_output_of_def token_supply_def)
    have wb: "worth (tk_utxos ?tb) X \<le> token_supply X db ?k + unat (mint_qty s)" for X
      using adding_worth [OF am, of ?b "slp_output_baton ?p" X] w [of X] by (simp add: slp_output_baton_def)
    have "token_step db (txid tx) ?k (unat (mint_qty s)) (add_mint tx s db)"
    proof (cases "mint_has_mint_baton s \<and> unat (mint_mint_baton_vout s) < length (outputs tx)")
      case True
      show ?thesis using token_stepI [OF ab wb] True t by (simp add: add_mint_def Let_def)
    next
      case False
      show ?thesis using token_stepI [OF a w] False t by (auto simp: add_mint_def Let_def)
    qed
    then show ?thesis ..
  next
    case False
    then have "add_mint tx s db = db" by (auto simp: add_mint_def Let_def split: option.split)
    then show ?thesis ..
  qed
qed

lemma send_outputs_adding:
  assumes "adding u0 (txid tx) (slp_tokenid (slp tx)) token u" and "fresh \<lparr>tokens = ts, utxo_to_tokenid = u0\<rparr> (txid tx)"
    and "send_outputs tx ns i (token, u) = (token', u')"
  shows "adding u0 (txid tx) (slp_tokenid (slp tx)) token' u' \<and> (\<forall>X. worth (tk_utxos token') X \<le> worth (tk_utxos token) X + sent ns)"
  using assms
proof (induction ns arbitrary: i token u)
  case (Cons n ns)
  show ?case
  proof (cases "i < 1 + length (outputs tx)")
    case True
    let ?p = "\<lparr>op_txid = txid tx, op_vout = of_nat (i + 1)\<rparr>"
    let ?t = "add_utxo ?p (slp_output_of ?p n) token"
    have "u0 ?p = None" using fresh_at [of _ ?p] Cons.prems(2) by fastforce
    with Cons.prems(1) have a: "adding u0 (txid tx) (slp_tokenid (slp tx)) ?t (map_insert ?p (slp_tokenid (slp tx)) u)"
      by (intro adding_utxo) simp_all
    have "send_outputs tx ns (i + 1) (?t, map_insert ?p (slp_tokenid (slp tx)) u) = (token', u')"
      using Cons.prems(3) True by (simp add: Let_def)
    from Cons.IH [OF a Cons.prems(2) this] adding_worth [OF Cons.prems(1), of ?p "slp_output_of ?p n"]
    show ?thesis by (force simp: slp_output_of_def sent_def intro: order_trans)
  qed (use Cons.prems in \<open>auto simp: sent_def\<close>)
qed (simp add: sent_def)


lemma unat_sent_u128:
  assumes "length ns \<le> MAX_TX_SIZE"
  shows "unat (sum_u128 ns) = sent ns"
proof -
  have "sent ns \<le> length ns * 2 ^ 64"
    unfolding sent_def using unat_u64_lt by (intro sum_list_lt) simp
  also have "\<dots> < 2 ^ 128" using assms by (simp add: MAX_TX_SIZE_def)
  finally show ?thesis by (simp add: sum_u128_eq unat_of_nat)
qed

lemma length_map_filter: "length (List.map_filter f xs) \<le> length xs"
  by (induction xs) (simp_all add: List.map_filter_simps split: option.split)

lemma add_send_step:
  assumes "slpdb_ok db" and "fresh db (txid tx)" and "distinct (inputs tx)" and "length (inputs tx) \<le> MAX_TX_SIZE"
    and "length (amounts s) \<le> MAX_TX_SIZE"
  shows "add_send tx s db = db \<or> (\<exists>token u. add_send tx s db = \<lparr>tokens = (tokens db)(slp_tokenid (slp tx) \<mapsto> token), utxo_to_tokenid = u\<rparr>
    \<and> adding (utxo_to_tokenid db) (txid tx) (slp_tokenid (slp tx)) token u
    \<and> (\<forall>X. set (inputs tx) \<inter> X = {} \<longrightarrow> worth (tk_utxos token) (X \<union> set (inputs tx)) \<le> token_supply X db (slp_tokenid (slp tx))))"
proof -
  let ?k = "slp_tokenid (slp tx)"
  show ?thesis
  proof (cases "\<exists>token. tokens db ?k = Some token \<and> \<not> sum_u128 (amounts s) > total_token_inputs token tx")
    case True
    then obtain token where t: "tokens db ?k = Some token" "\<not> sum_u128 (amounts s) > total_token_inputs token tx" by blast
    obtain token' u where tu: "send_outputs tx (amounts s) 0 (token, utxo_to_tokenid db) = (token', u)"
      by (cases "send_outputs tx (amounts s) 0 (token, utxo_to_tokenid db)")
    let ?t = "token'\<lparr>tk_transactions := map_insert (txid tx) tx (tk_transactions token')\<rparr>"
    have eq: "add_send tx s db = \<lparr>tokens = (tokens db)(?k \<mapsto> ?t), utxo_to_tokenid = u\<rparr>"
      using t tu by (cases db) (simp add: add_send_def Let_def)
    have fr: "fresh \<lparr>tokens = tokens db, utxo_to_tokenid = utxo_to_tokenid db\<rparr> (txid tx)" using assms(2) by (simp add: fresh_def)
    note a = send_outputs_adding [OF adding_start [OF assms(1) t(1)] fr tu]
    have "length (map so_amount (List.map_filter (tk_utxos token) (inputs tx))) \<le> MAX_TX_SIZE"
      using length_map_filter [of "tk_utxos token" "inputs tx"] assms(4) by simp
    then have le: "sent (amounts s) \<le> sent (map so_amount (List.map_filter (tk_utxos token) (inputs tx)))"
      using t(2) unat_sent_u128 [OF assms(5)] unat_sent_u128
      by (simp add: total_token_inputs_def word_less_nat_alt)
    have fin: "finite (dom (tk_utxos token))" using assms(1) t(1) by (simp add: slpdb_ok_def)
    have "worth (tk_utxos token') (X \<union> set (inputs tx)) \<le> token_supply X db ?k" if "set (inputs tx) \<inter> X = {}" for X
      using worth_inputs [OF fin assms(3) that] conjunct2 [OF a, rule_format, of "X \<union> set (inputs tx)"] le t(1)
      by (simp add: token_supply_def)
    then have "\<forall>X. set (inputs tx) \<inter> X = {} \<longrightarrow> worth (tk_utxos ?t) (X \<union> set (inputs tx)) \<le> token_supply X db ?k" by simp
    moreover have "adding (utxo_to_tokenid db) (txid tx) ?k ?t u" using a by (simp add: state_simps)
    ultimately show ?thesis using eq by blast
  next
    case False
    then have "add_send tx s db = db" by (auto simp: add_send_def Let_def split: option.split)
    then show ?thesis ..
  qed
qed

text \<open>What a transaction may create of a token.\<close>

definition minted :: "tokenid \<Rightarrow> transaction \<Rightarrow> nat" where
  "minted k tx = (case slp_tx (slp tx) of
       SlpGenesis g \<Rightarrow> if txid tx = k then unat (genesis_qty g) else 0
     | SlpMint m \<Rightarrow> if slp_tokenid (slp tx) = k then unat (mint_qty m) else 0
     | _ \<Rightarrow> 0)"

lemma token_supply_mono: "slpdb_ok db \<Longrightarrow> X \<subseteq> X' \<Longrightarrow> token_supply X' db k \<le> token_supply X db k"
  by (auto simp: token_supply_def slpdb_ok_def intro: worth_mono split: option.split)

lemma adding_fresh:
  assumes "adding (utxo_to_tokenid db) t k token u" and "fresh db t'" and "t' \<noteq> t"
  shows "fresh \<lparr>tokens = ts, utxo_to_tokenid = u\<rparr> t'"
proof -
  have "u \<lparr>op_txid = t', op_vout = v\<rparr> = utxo_to_tokenid db \<lparr>op_txid = t', op_vout = v\<rparr>" for v
    using assms(1,3) unfolding adding_def by (metis outpoint.select_convs(1))
  then show ?thesis using assms(2) by (simp add: fresh_def)
qed

text \<open>The effect of a transaction: none, or outputs for one token that its inputs outside \<open>X\<close> pay for.\<close>

definition added :: "slpdb \<Rightarrow> transaction \<Rightarrow> slpdb \<Rightarrow> bool" where
  "added db tx db' \<longleftrightarrow> db' = db \<or> (\<exists>k token u. db' = \<lparr>tokens = (tokens db)(k \<mapsto> token), utxo_to_tokenid = u\<rparr>
     \<and> adding (utxo_to_tokenid db) (txid tx) k token u
     \<and> (\<forall>X. set (inputs tx) \<inter> X = {} \<longrightarrow> worth (tk_utxos token) (X \<union> set (inputs tx)) \<le> token_supply X db k + minted k tx))"

lemma token_step_added:
  assumes "token_step db (txid tx) k (minted k tx) db'"
  shows "added db tx db'"
proof -
  from assms obtain token u where tu: "db' = \<lparr>tokens = (tokens db)(k \<mapsto> token), utxo_to_tokenid = u\<rparr>"
    "adding (utxo_to_tokenid db) (txid tx) k token u" "\<forall>X. worth (tk_utxos token) X \<le> token_supply X db k + minted k tx"
    by (auto simp: token_step_def)
  have "worth (tk_utxos token) (X \<union> set (inputs tx)) \<le> token_supply X db k + minted k tx" for X
    using worth_mono [of "tk_utxos token" X "X \<union> set (inputs tx)"] tu(2,3) by (fastforce simp: adding_def intro: order_trans)
  with tu(1,2) show ?thesis unfolding added_def by blast
qed

lemma add_transaction_added:
  assumes "slpdb_ok db" and "fresh db (txid tx)" and "slp_wf tx" and "distinct (inputs tx)"
  shows "\<exists>db'. add_transaction tx db = VOk db' \<and> added db tx db'"
proof (cases "slp_tx (slp tx)")
  case SlpInvalid
  then show ?thesis using assms(3) by (simp add: add_transaction_def slp_wf_def added_def)
next
  case (SlpGenesis g)
  then have "add_transaction tx db = VOk (add_genesis tx g db)" using assms(3) by (simp add: add_transaction_def slp_wf_def)
  moreover have "minted (txid tx) tx = unat (genesis_qty g)" using SlpGenesis by (simp add: minted_def)
  ultimately show ?thesis
    using add_genesis_step [OF assms(1,2), of g] token_step_added [of db tx "txid tx"] by (auto simp: added_def)
next
  case (SlpMint m)
  then have "add_transaction tx db = VOk (add_mint tx m db)" using assms(3) by (simp add: add_transaction_def slp_wf_def)
  moreover have "minted (slp_tokenid (slp tx)) tx = unat (mint_qty m)" using SlpMint by (simp add: minted_def)
  ultimately show ?thesis
    using add_mint_step [OF assms(1,2), of m] token_step_added [of db tx "slp_tokenid (slp tx)"] by (auto simp: added_def)
next
  case (SlpSend s)
  then have "add_transaction tx db = VOk (add_send tx s db)" using assms(3) by (simp add: add_transaction_def slp_wf_def)
  moreover have "length (inputs tx) \<le> MAX_TX_SIZE" "length (amounts s) \<le> MAX_TX_SIZE"
    using assms(3) SlpSend by (simp_all add: slp_wf_def MAX_TX_SIZE_def)
  note add_send_step [OF assms(1,2,4) this]
  then have "added db tx (add_send tx s db)" unfolding added_def by (meson trans_le_add1)
  ultimately show ?thesis by blast
qed

lemma added_step:
  assumes "added db tx db'" and "slpdb_ok db" and "fresh db (txid tx)" and "set (inputs tx) \<inter> X = {}"
  shows "slpdb_ok db'" and "token_supply (X \<union> set (inputs tx)) db' k \<le> token_supply X db k + minted k tx"
    and "fresh db t \<Longrightarrow> t \<noteq> txid tx \<Longrightarrow> fresh db' t"
proof -
  have m: "token_supply (X \<union> set (inputs tx)) db k \<le> token_supply X db k" by (rule token_supply_mono [OF assms(2)]) simp
  have "slpdb_ok db' \<and> token_supply (X \<union> set (inputs tx)) db' k \<le> token_supply X db k + minted k tx
    \<and> (fresh db t \<longrightarrow> t \<noteq> txid tx \<longrightarrow> fresh db' t)"
    using assms(1) unfolding added_def
  proof (elim disjE exE conjE)
    assume "db' = db"
    then show ?thesis using assms(2) m by simp
  next
    fix k' token u
    assume db': "db' = \<lparr>tokens = (tokens db)(k' \<mapsto> token), utxo_to_tokenid = u\<rparr>"
      and a: "adding (utxo_to_tokenid db) (txid tx) k' token u"
      and w: "\<forall>X. set (inputs tx) \<inter> X = {} \<longrightarrow> worth (tk_utxos token) (X \<union> set (inputs tx)) \<le> token_supply X db k' + minted k' tx"
    have "token_supply (X \<union> set (inputs tx)) db' k \<le> token_supply X db k + minted k tx"
      using w [rule_format, OF assms(4)] m by (simp add: token_supply_def db')
    then show ?thesis using adding_done [OF assms(2,3) a] adding_fresh [OF a] db' by blast
  qed
  then show "slpdb_ok db'" "token_supply (X \<union> set (inputs tx)) db' k \<le> token_supply X db k + minted k tx"
    "fresh db t \<Longrightarrow> t \<noteq> txid tx \<Longrightarrow> fresh db' t" by blast+
qed

section \<open>A block's transactions\<close>

fun add_transactions :: "transaction list \<Rightarrow> slpdb \<Rightarrow> slpdb vres" where
  "add_transactions [] db = VOk db"
| "add_transactions (tx # txs) db = vbind (add_transaction tx db) (add_transactions txs)"

lemma add_transactions_spec:
  assumes "slpdb_ok db" and "\<forall>tx \<in> set txs. fresh db (txid tx) \<and> slp_wf tx" and "distinct (map txid txs)"
    and "distinct (concat (map inputs txs))" and "X \<inter> set (concat (map inputs txs)) = {}"
  shows "\<exists>db'. add_transactions txs db = VOk db' \<and> slpdb_ok db'
    \<and> (\<forall>k. token_supply (X \<union> set (concat (map inputs txs))) db' k \<le> token_supply X db k + (\<Sum>tx \<leftarrow> txs. minted k tx))"
  using assms
proof (induction txs arbitrary: db X)
  case (Cons tx txs)
  have p: "fresh db (txid tx)" "slp_wf tx" "distinct (inputs tx)" "set (inputs tx) \<inter> X = {}" using Cons.prems by auto
  obtain d where d: "add_transaction tx db = VOk d" "added db tx d"
    using add_transaction_added [OF Cons.prems(1) p(1-3)] by blast
  note st = added_step [OF d(2) Cons.prems(1) p(1,4)]
  have "txid x \<noteq> txid tx" if "x \<in> set txs" for x
    using Cons.prems(3) imageI [OF that, of txid] by (metis distinct.simps(2) list.simps(9) set_map)
  then have "\<forall>x \<in> set txs. fresh d (txid x) \<and> slp_wf x" using st(3) Cons.prems(2) by simp
  moreover have "(X \<union> set (inputs tx)) \<inter> set (concat (map inputs txs)) = {}" using Cons.prems(4,5) by auto
  ultimately obtain db' where db': "add_transactions txs d = VOk db'" "slpdb_ok db'"
    "\<forall>k. token_supply (X \<union> set (inputs tx) \<union> set (concat (map inputs txs))) db' k
       \<le> token_supply (X \<union> set (inputs tx)) d k + (\<Sum>tx \<leftarrow> txs. minted k tx)"
    using Cons.IH [OF st(1), of "X \<union> set (inputs tx)"] Cons.prems(3,4) by auto
  have "token_supply (X \<union> set (concat (map inputs (tx # txs)))) db' k \<le> token_supply X db k + (\<Sum>tx \<leftarrow> tx # txs. minted k tx)" for k
    using db'(3) [rule_format, of k] st(2) [of k] by (simp add: Un_assoc)
  with db'(1,2) d(1) show ?case by simp
qed simp

lemma slpdb_ok_index: "slpdb_ok db \<Longrightarrow> tokens db k = Some t \<Longrightarrow> p \<in> dom (tk_utxos t) \<Longrightarrow> utxo_to_tokenid db p = Some k"
  by (simp add: slpdb_ok_def)

lemma spend_slp_spec:
  assumes "slpdb_ok db"
  shows "slpdb_ok (spend_slp m db) \<and> token_supply X (spend_slp m db) k = token_supply (insert m X) db k"
proof (cases "utxo_to_tokenid db m")
  case None
  have "m \<notin> dom (tk_utxos t)" if "tokens db k = Some t" for t using slpdb_ok_index [OF assms that] None by fastforce
  then have "token_supply X db k = token_supply (insert m X) db k"
    by (auto simp: token_supply_def worth_def split: option.split intro!: sum.cong)
  then show ?thesis using None assms by (simp add: spend_slp_def)
next
  case (Some k')
  let ?t = "case tokens db k' of None \<Rightarrow> slp_token_new | Some t \<Rightarrow> t"
  have t: "finite (dom (tk_utxos ?t)) \<and> (\<forall>p \<in> dom (tk_utxos ?t). utxo_to_tokenid db p = Some k')"
    using assms by (auto simp: slpdb_ok_def slp_token_new_def split: option.split)
  have sup: "token_supply X db k' = worth (tk_utxos ?t) X" for X
    by (auto simp: token_supply_def slp_token_new_def worth_def split: option.split)
  obtain t' where t': "spend_slp m db = db\<lparr>tokens := (tokens db)(k' \<mapsto> t')\<rparr>" "tk_utxos t' = (tk_utxos ?t)(m := None)"
  proof (cases "tk_utxos ?t m")
    case None
    then show thesis using Some by (intro that [of ?t]) (auto simp: spend_slp_def Let_def fun_upd_idem)
  next
    case (Some x)
    then show thesis using \<open>utxo_to_tokenid db m = Some k'\<close>
      by (intro that [of "if tk_mint_baton_outpoint ?t = Some m
          then ?t\<lparr>tk_utxos := (tk_utxos ?t)(m := None), tk_mint_baton_outpoint := None\<rparr> else ?t\<lparr>tk_utxos := (tk_utxos ?t)(m := None)\<rparr>"])
        (auto simp: spend_slp_def Let_def)
  qed
  have ok: "slpdb_ok (spend_slp m db)"
    using assms t by (auto simp: slpdb_ok_def t')
  have w: "worth ((tk_utxos ?t)(m := None)) X = worth (tk_utxos ?t) (insert m X)"
    unfolding worth_def by (rule sum.cong) auto
  have "token_supply X (spend_slp m db) k = token_supply (insert m X) db k"
  proof (cases "k = k'")
    case True
    have "token_supply X (spend_slp m db) k' = worth (tk_utxos t') X" by (simp add: token_supply_def t'(1))
    then show ?thesis using True sup [of "insert m X"] w t'(2) by simp
  next
    case False
    have "m \<notin> dom (tk_utxos t)" if "tokens db k = Some t" for t
      using slpdb_ok_index [OF assms that] False \<open>utxo_to_tokenid db m = Some k'\<close> by fastforce
    then have "token_supply X db k = token_supply (insert m X) db k"
      by (auto simp: token_supply_def worth_def split: option.split intro!: sum.cong)
    then show ?thesis using False by (simp add: token_supply_def t'(1))
  qed
  with ok show ?thesis ..
qed

lemma spend_all:
  assumes "slpdb_ok db"
  shows "slpdb_ok (fold spend_slp ms db) \<and> token_supply X (fold spend_slp ms db) k = token_supply (X \<union> set ms) db k"
  using assms
proof (induction ms arbitrary: db)
  case (Cons m ms)
  have "slpdb_ok (spend_slp m db)" using spend_slp_spec [OF Cons.prems] by blast
  from Cons.IH [OF this] show ?case
    using spend_slp_spec [OF Cons.prems, of m "X \<union> set ms" k] by (simp add: insert_commute)
qed simp

text \<open>Parsed transactions always enter the database.\<close>

lemma add_transaction_total: "slp_wf tx \<Longrightarrow> \<exists>d. add_transaction tx db = VOk d"
  by (auto simp: add_transaction_def slp_wf_def split: slp_tx_variant.split)

lemma add_transactions_total: "\<forall>tx \<in> set txs. slp_wf tx \<Longrightarrow> \<exists>d. add_transactions txs db = VOk d"
proof (induction txs arbitrary: db)
  case (Cons tx txs)
  obtain d where "add_transaction tx db = VOk d" using add_transaction_total Cons.prems by fastforce
  with Cons show ?case by simp
qed simp

end
