(* ===== verification/UtxoDb.thy ===== *)
theory UtxoDb
  imports SlpDb
begin

text \<open>
  The database of unspent outputs of \<open>include/gs++/utxodb.hpp\<close> and \<open>src/utxodb.cpp\<close>. Outputs are equal
  when they have the same id and number, so a hash set of outputs is a list without two outputs of
  the same outpoint; the order in which the code iterates over one is the argument \<open>ord\<close>.
\<close>

section \<open>The state\<close>

type_synonym script_index = "scriptpubkey \<rightharpoonup> gs_output list"

record utxodb =
  u_current_block_height :: u32
  u_outpoint_map :: "outpoint \<rightharpoonup> gs_output"
  u_scriptpubkey_to_output :: script_index
  u_mempool_outpoint_map :: "outpoint \<rightharpoonup> gs_output"
  u_mempool_scriptpubkey_to_output :: script_index
  u_mempool_spent_confirmed_outpoints :: "outpoint set"
  u_last_block_removed :: "gs_output list list"
  u_last_block_added :: "outpoint list list"

definition utxodb_new :: utxodb where
  "utxodb_new = \<lparr>u_current_block_height = 0, u_outpoint_map = Map.empty, u_scriptpubkey_to_output = Map.empty,
     u_mempool_outpoint_map = Map.empty, u_mempool_scriptpubkey_to_output = Map.empty,
     u_mempool_spent_confirmed_outpoints = {}, u_last_block_removed = [], u_last_block_added = []\<rparr>"

definition rollback_depth :: nat where
  "rollback_depth = 10"

definition outpoint_of :: "gs_output \<Rightarrow> outpoint" where
  "outpoint_of u = \<lparr>op_txid = prev_tx_id u, op_vout = prev_out_idx u\<rparr>"

section \<open>Sets of outputs by script\<close>

definition out_insert :: "gs_output \<Rightarrow> gs_output list \<Rightarrow> gs_output list" where
  "out_insert u S = (if outpoint_of u \<in> outpoint_of ` set S then S else S @ [u])"

definition out_erase :: "gs_output \<Rightarrow> gs_output list \<Rightarrow> gs_output list" where
  "out_erase u S = filter (\<lambda>x. outpoint_of x \<noteq> outpoint_of u) S"

definition index_add :: "scriptpubkey \<Rightarrow> gs_output \<Rightarrow> script_index \<Rightarrow> script_index" where
  "index_add k u idx = (case idx k of None \<Rightarrow> idx(k \<mapsto> [u]) | Some S \<Rightarrow> idx(k \<mapsto> out_insert u S))"

text \<open>An output is removed, and the script with its last output.\<close>

definition index_remove :: "gs_output \<Rightarrow> script_index \<Rightarrow> script_index" where
  "index_remove u idx = (case idx (out_script u) of None \<Rightarrow> idx
     | Some S \<Rightarrow> (let S = out_erase u S in if S = [] then idx(out_script u := None) else idx(out_script u \<mapsto> S)))"

section \<open>Rollback\<close>

definition restore_output :: "gs_output \<Rightarrow> utxodb \<Rightarrow> utxodb" where
  "restore_output m db = (let
       outpoints = map_insert (outpoint_of m) m (u_outpoint_map db);
       oid = the (outpoints (outpoint_of m))
     in db\<lparr>u_outpoint_map := outpoints,
           u_scriptpubkey_to_output := index_add (out_script m) oid (u_scriptpubkey_to_output db)\<rparr>)"

text \<open>An added outpoint leaves the index by script, when it was there.\<close>

definition unindex_outpoint :: "outpoint \<Rightarrow> utxodb \<Rightarrow> utxodb" where
  "unindex_outpoint m db = (case u_outpoint_map db m of
       None \<Rightarrow> db
     | Some u \<Rightarrow> (case u_scriptpubkey_to_output db (out_script u) of
           None \<Rightarrow> db
         | Some S \<Rightarrow> if outpoint_of u \<in> outpoint_of ` set S
             then db\<lparr>u_scriptpubkey_to_output := index_remove u (u_scriptpubkey_to_output db)\<rparr> else db))"

definition utxodb_rollback :: "utxodb \<Rightarrow> utxodb" where
  "utxodb_rollback db =
     (if u_last_block_removed db = [] \<or> u_last_block_added db = [] then db
      else let
          rb_removed = last (u_last_block_removed db);
          rb_added = last (u_last_block_added db);
          db = db\<lparr>u_last_block_removed := butlast (u_last_block_removed db),
                  u_last_block_added := butlast (u_last_block_added db)\<rparr>
        in fold unindex_outpoint rb_added (fold restore_output rb_removed db))"

section \<open>Queries\<close>

definition unspent :: "utxodb \<Rightarrow> gs_output \<Rightarrow> bool" where
  "unspent db u \<longleftrightarrow> outpoint_of u \<notin> u_mempool_spent_confirmed_outpoints db"

definition lookup_outpoint :: "utxodb \<Rightarrow> outpoint \<Rightarrow> gs_output option" where
  "lookup_outpoint db p = (case u_outpoint_map db p of
       Some u \<Rightarrow> if p \<notin> u_mempool_spent_confirmed_outpoints db then Some u else None
     | None \<Rightarrow> u_mempool_outpoint_map db p)"

definition get_outputs_by_outpoints :: "utxodb \<Rightarrow> outpoint list \<Rightarrow> gs_output list" where
  "get_outputs_by_outpoints db outpoints = List.map_filter (lookup_outpoint db) outpoints"

text \<open>Both loops push what they keep and stop when the size is the limit.\<close>

fun push_outputs :: "(gs_output \<Rightarrow> bool) \<Rightarrow> nat \<Rightarrow> gs_output list \<Rightarrow> gs_output list \<Rightarrow> gs_output list" where
  "push_outputs P limit [] ret = ret"
| "push_outputs P limit (u # us) ret = (if \<not> P u then push_outputs P limit us ret
     else (let ret = ret @ [u] in if length ret = limit then ret else push_outputs P limit us ret))"

definition get_outputs_by_scriptpubkey ::
    "(gs_output list \<Rightarrow> gs_output list) \<Rightarrow> utxodb \<Rightarrow> scriptpubkey \<Rightarrow> u32 \<Rightarrow> gs_output list" where
  "get_outputs_by_scriptpubkey ord db k limit = (let
       ret = (case u_scriptpubkey_to_output db k of None \<Rightarrow> []
         | Some pk_utxos \<Rightarrow> push_outputs (unspent db) (unat limit) (ord pk_utxos) [])
     in if length ret < unat limit
        then (case u_mempool_scriptpubkey_to_output db k of None \<Rightarrow> ret
          | Some pk_utxos \<Rightarrow> push_outputs (\<lambda>_. True) (unat limit) (ord pk_utxos) ret)
        else ret)"

definition sum_values :: "(gs_output \<Rightarrow> bool) \<Rightarrow> gs_output list \<Rightarrow> u64 \<Rightarrow> u64" where
  "sum_values P us ret = fold (\<lambda>u ret. if P u then ret + out_value u else ret) us ret"

definition get_balance_by_scriptpubkey :: "(gs_output list \<Rightarrow> gs_output list) \<Rightarrow> utxodb \<Rightarrow> scriptpubkey \<Rightarrow> u64" where
  "get_balance_by_scriptpubkey ord db k = (let
       ret = (case u_scriptpubkey_to_output db k of None \<Rightarrow> 0
         | Some pk_utxos \<Rightarrow> sum_values (unspent db) (ord pk_utxos) 0)
     in (case u_mempool_scriptpubkey_to_output db k of None \<Rightarrow> ret
          | Some pk_utxos \<Rightarrow> sum_values (\<lambda>_. True) (ord pk_utxos) ret))"


section \<open>Consistency\<close>

definition entries :: "script_index \<Rightarrow> scriptpubkey \<Rightarrow> gs_output list" where
  "entries idx k = (case idx k of None \<Rightarrow> [] | Some S \<Rightarrow> S)"

lemma entries_add [simp]: "entries (index_add k u idx) k' = (if k' = k then out_insert u (entries idx k) else entries idx k')"
  by (simp add: entries_def index_add_def out_insert_def split: option.split)

lemma entries_remove [simp]:
  "entries (index_remove u idx) k = (if k = out_script u then out_erase u (entries idx k) else entries idx k)"
  by (auto simp: entries_def index_remove_def out_erase_def Let_def split: option.split)

lemma entries_map [simp]: "entries (idx(k \<mapsto> S)) k' = (if k' = k then S else entries idx k')"
  by (simp add: entries_def)

lemma distinct_out_insert: "distinct (map outpoint_of S) \<Longrightarrow> distinct (map outpoint_of (out_insert u S))"
  by (auto simp: out_insert_def)

lemma distinct_out_erase: "distinct (map outpoint_of S) \<Longrightarrow> distinct (map outpoint_of (out_erase u S))"
  by (simp add: out_erase_def distinct_map_filter)

lemma set_out_erase: "set (out_erase u S) = {x \<in> set S. outpoint_of x \<noteq> outpoint_of u}"
  by (auto simp: out_erase_def)

lemma set_out_insert:
  assumes "\<And>x. x \<in> set S \<Longrightarrow> outpoint_of x = outpoint_of u \<Longrightarrow> x = u"
  shows "set (out_insert u S) = insert u (set S)"
  using assms by (auto simp: out_insert_def)

text \<open>
  \<open>W\<close> gives the one output an outpoint can name, since an id is the hash of the transaction. A table
  holds such outputs under their outpoints; an index by script lists outputs of its table.
\<close>

definition table_ok :: "(outpoint \<Rightarrow> gs_output) \<Rightarrow> (outpoint \<rightharpoonup> gs_output) \<Rightarrow> bool" where
  "table_ok W m \<longleftrightarrow> (\<forall>p u. m p = Some u \<longrightarrow> u = W p \<and> outpoint_of u = p)"

definition genuine :: "(outpoint \<Rightarrow> gs_output) \<Rightarrow> gs_output \<Rightarrow> bool" where
  "genuine W u \<longleftrightarrow> W (outpoint_of u) = u"

definition index_sound :: "(outpoint \<rightharpoonup> gs_output) \<Rightarrow> script_index \<Rightarrow> bool" where
  "index_sound m idx \<longleftrightarrow> (\<forall>k. distinct (map outpoint_of (entries idx k))
     \<and> (\<forall>u \<in> set (entries idx k). m (outpoint_of u) = Some u \<and> out_script u = k))"

definition index_complete :: "(outpoint \<rightharpoonup> gs_output) \<Rightarrow> script_index \<Rightarrow> bool" where
  "index_complete m idx \<longleftrightarrow> (\<forall>p u. m p = Some u \<longrightarrow> u \<in> set (entries idx (out_script u)))"

definition utxo_ok :: "(outpoint \<Rightarrow> gs_output) \<Rightarrow> utxodb \<Rightarrow> bool" where
  "utxo_ok W db \<longleftrightarrow> table_ok W (u_outpoint_map db) \<and> table_ok W (u_mempool_outpoint_map db)
     \<and> index_sound (u_outpoint_map db) (u_scriptpubkey_to_output db)
     \<and> index_complete (u_outpoint_map db) (u_scriptpubkey_to_output db)
     \<and> index_sound (u_mempool_outpoint_map db) (u_mempool_scriptpubkey_to_output db)"

lemma table_ok_D: "table_ok W m \<Longrightarrow> m p = Some u \<Longrightarrow> u = W p \<and> outpoint_of u = p"
  by (simp add: table_ok_def)

lemma insert_genuine:
  assumes "table_ok W m" and "genuine W u"
  shows "map_insert (outpoint_of u) u m = m(outpoint_of u \<mapsto> u)" and "table_ok W (m(outpoint_of u \<mapsto> u))"
proof -
  have "m (outpoint_of u) = Some v \<Longrightarrow> v = u" for v
    using table_ok_D [OF assms(1)] assms(2) by (metis genuine_def)
  then show "map_insert (outpoint_of u) u m = m(outpoint_of u \<mapsto> u)"
    by (auto simp: map_insert_def fun_upd_idem split: option.split)
  show "table_ok W (m(outpoint_of u \<mapsto> u))"
    using assms by (simp add: table_ok_def genuine_def)
qed

lemma index_sound_D:
  "index_sound m idx \<Longrightarrow> u \<in> set (entries idx k) \<Longrightarrow> m (outpoint_of u) = Some u \<and> out_script u = k"
  "index_sound m idx \<Longrightarrow> distinct (map outpoint_of (entries idx k))"
  by (simp_all add: index_sound_def)

lemma index_soundI:
  assumes "\<And>k. distinct (map outpoint_of (entries idx k))"
    and "\<And>k u. u \<in> set (entries idx k) \<Longrightarrow> m (outpoint_of u) = Some u" and "\<And>k u. u \<in> set (entries idx k) \<Longrightarrow> out_script u = k"
  shows "index_sound m idx"
  using assms by (simp add: index_sound_def)

lemma index_add_sound:
  assumes "table_ok W m" and "genuine W u" and "index_sound m idx"
  shows "index_sound (m(outpoint_of u \<mapsto> u)) (index_add (out_script u) u idx)"
    and "set (entries (index_add (out_script u) u idx) k) = (if k = out_script u then insert u (set (entries idx k)) else set (entries idx k))"
proof -
  have same: "x = u" if "x \<in> set (entries idx k)" "outpoint_of x = outpoint_of u" for x k
    using index_sound_D(1) [OF assms(3) that(1)] table_ok_D [OF assms(1), of "outpoint_of x" x] that(2) assms(2) by (simp add: genuine_def)
  then have ins: "set (out_insert u (entries idx k)) = insert u (set (entries idx k))" for k by (intro set_out_insert)
  then show mem: "set (entries (index_add (out_script u) u idx) k) = (if k = out_script u then insert u (set (entries idx k)) else set (entries idx k))" for k
    by simp
  show "index_sound (m(outpoint_of u \<mapsto> u)) (index_add (out_script u) u idx)"
  proof (rule index_soundI)
    fix k
    show "distinct (map outpoint_of (entries (index_add (out_script u) u idx) k))"
      using index_sound_D(2) [OF assms(3)] by (simp add: distinct_out_insert)
  next
    fix k x
    assume "x \<in> set (entries (index_add (out_script u) u idx) k)"
    then consider "x = u" "k = out_script u" | "x \<in> set (entries idx k)" by (auto simp: mem simp del: entries_add split: if_splits)
    then have "(m(outpoint_of u \<mapsto> u)) (outpoint_of x) = Some x \<and> out_script x = k"
    proof cases
      case 2
      then show ?thesis using index_sound_D(1) [OF assms(3) 2] same [OF 2] by (cases "outpoint_of x = outpoint_of u") auto
    qed simp
    then show "(m(outpoint_of u \<mapsto> u)) (outpoint_of x) = Some x" "out_script x = k" by blast+
  qed
qed

lemma index_add_complete:
  assumes "table_ok W m" and "genuine W u" and "index_sound m idx" and "index_complete m idx"
  shows "index_complete (m(outpoint_of u \<mapsto> u)) (index_add (out_script u) u idx)"
  unfolding index_complete_def
proof (intro allI impI)
  fix p x
  assume "(m(outpoint_of u \<mapsto> u)) p = Some x"
  then have "x = u \<or> m p = Some x" by (simp split: if_splits)
  then have "x = u \<or> x \<in> set (entries idx (out_script x))" using assms(4) by (auto simp: index_complete_def)
  then show "x \<in> set (entries (index_add (out_script u) u idx) (out_script x))"
    using index_add_sound(2) [OF assms(1-3), of "out_script x"] by (cases "out_script x = out_script u") auto
qed

lemma index_remove_ok:
  assumes "table_ok W m" and "index_sound m idx" and "m p = Some u"
  shows "index_sound (m(p := None)) (index_remove u idx)"
    and "index_complete m idx \<Longrightarrow> index_complete (m(p := None)) (index_remove u idx)"
proof -
  have p: "outpoint_of u = p" using table_ok_D [OF assms(1,3)] by blast
  have mem: "x \<in> set (entries (index_remove u idx) k) \<longleftrightarrow> x \<in> set (entries idx k) \<and> outpoint_of x \<noteq> p" for x k
  proof (cases "k = out_script u")
    case False
    have "outpoint_of x \<noteq> p" if "x \<in> set (entries idx k)"
      using index_sound_D(1) [OF assms(2) that] assms(3) False by auto
    with False show ?thesis by auto
  qed (auto simp: set_out_erase p)
  show "index_sound (m(p := None)) (index_remove u idx)"
  proof (rule index_soundI)
    show "distinct (map outpoint_of (entries (index_remove u idx) k))" for k
      using index_sound_D(2) [OF assms(2)] by (simp add: distinct_out_erase)
  qed (use index_sound_D(1) [OF assms(2)] in \<open>auto simp: mem simp del: entries_remove\<close>)
  show "index_complete (m(p := None)) (index_remove u idx)" if "index_complete m idx"
    using that table_ok_D [OF assms(1)] by (auto simp: index_complete_def mem simp del: entries_remove split: if_splits)
qed

lemma index_sound_mono: "index_sound m idx \<Longrightarrow> m \<subseteq>\<^sub>m m' \<Longrightarrow> index_sound m' idx"
  by (auto simp: index_sound_def dest: map_le_Some)

lemma utxo_ok_new: "utxo_ok W utxodb_new"
  by (simp add: utxo_ok_def utxodb_new_def table_ok_def index_sound_def index_complete_def entries_def)

lemma index_remove_genuine:
  assumes "table_ok W m" and "genuine W u" and "index_sound m idx"
  shows "index_sound (m(outpoint_of u := None)) (index_remove u idx)"
proof (cases "m (outpoint_of u)")
  case None
  have sub: "x \<in> set (entries idx k)" if "x \<in> set (entries (index_remove u idx) k)" for x k
    using that by (auto simp: set_out_erase split: if_splits)
  have "index_sound m (index_remove u idx)"
  proof (rule index_soundI)
    show "distinct (map outpoint_of (entries (index_remove u idx) k))" for k
      using index_sound_D(2) [OF assms(3)] by (simp add: distinct_out_erase)
    show "m (outpoint_of x) = Some x" if "x \<in> set (entries (index_remove u idx) k)" for x k
      using index_sound_D(1) [OF assms(3) sub [OF that]] by blast
    show "out_script x = k" if "x \<in> set (entries (index_remove u idx) k)" for x k
      using index_sound_D(1) [OF assms(3) sub [OF that]] by blast
  qed
  then show ?thesis using None by (simp add: fun_upd_idem)
next
  case (Some v)
  then have "v = u" using table_ok_D [OF assms(1) Some] assms(2) by (simp add: genuine_def)
  with Some index_remove_ok(1) [OF assms(1,3)] show ?thesis by simp
qed

lemma index_sound_entries: "(\<And>k. entries idx' k = entries idx k) \<Longrightarrow> index_sound m idx' \<longleftrightarrow> index_sound m idx"
  by (simp add: index_sound_def)

end
