(* ===== verification/TopoSort.thy ===== *)
theory TopoSort
  imports Transaction
begin

text \<open>
  \<open>topological_sort\<close> of \<open>src/util.cpp\<close>, which orders the transactions of a block so that each
  comes after the ones it spends: a recursive depth-first search over the inputs that are in the
  list. The recursion is a partial function on the inputs still to look at; that it ends is
  \<open>topological_sort_total\<close>.
\<close>

section \<open>The search\<close>

type_synonym topo_state = "transaction list \<times> txid set"

text \<open>
  The loop over the inputs of one transaction, with the recursive call for an input that is in
  the list and was not visited: mark it, go through its inputs, push it.
\<close>

partial_function (option) topo_inputs ::
  "(txid \<rightharpoonup> transaction) \<Rightarrow> outpoint list \<Rightarrow> topo_state \<Rightarrow> topo_state option" where
  "topo_inputs m is' s = (case is' of
       [] \<Rightarrow> Some s
     | i # rest \<Rightarrow> (if op_txid i \<in> snd s then topo_inputs m rest s
         else (case m (op_txid i) of
             None \<Rightarrow> topo_inputs m rest s
           | Some tx \<Rightarrow> Option.bind (topo_inputs m (inputs tx) (fst s, insert (txid tx) (snd s)))
               (\<lambda>s. topo_inputs m rest (fst s @ [tx], snd s)))))"

definition topological_sort_internal :: "transaction \<Rightarrow> (txid \<rightharpoonup> transaction) \<Rightarrow> topo_state \<Rightarrow> topo_state option" where
  "topological_sort_internal tx m s =
     Option.bind (topo_inputs m (inputs tx) (fst s, insert (txid tx) (snd s))) (\<lambda>s. Some (fst s @ [tx], snd s))"

text \<open>The map keeps the first transaction of each id.\<close>

fun tx_map :: "transaction list \<Rightarrow> (txid \<rightharpoonup> transaction)" where
  "tx_map [] = Map.empty"
| "tx_map (tx # txs) = (tx_map txs)(txid tx \<mapsto> tx)"

fun topo_loop :: "(txid \<rightharpoonup> transaction) \<Rightarrow> transaction list \<Rightarrow> topo_state \<Rightarrow> topo_state option" where
  "topo_loop m [] s = Some s"
| "topo_loop m (tx # txs) s = (if txid tx \<in> snd s then topo_loop m txs s
     else Option.bind (topological_sort_internal tx m s) (topo_loop m txs))"

definition topological_sort :: "transaction list \<Rightarrow> transaction list option" where
  "topological_sort txs = map_option fst (topo_loop (tx_map txs) txs ([], {}))"

lemma topo_inputs_simps [simp]:
  "topo_inputs m [] s = Some s"
  "op_txid i \<in> snd s \<Longrightarrow> topo_inputs m (i # is') s = topo_inputs m is' s"
  "op_txid i \<notin> snd s \<Longrightarrow> m (op_txid i) = None \<Longrightarrow> topo_inputs m (i # is') s = topo_inputs m is' s"
  "op_txid i \<notin> snd s \<Longrightarrow> m (op_txid i) = Some tx \<Longrightarrow> topo_inputs m (i # is') s =
     Option.bind (topological_sort_internal tx m s) (topo_inputs m is')"
  by (subst topo_inputs.simps, simp add: topological_sort_internal_def)+

section \<open>The invariant of the search\<close>

text \<open>
  Going from state \<open>s\<close> to \<open>t\<close> appends transactions of the map, each once and none visited
  before, and marks exactly those.
\<close>

definition keyed :: "(txid \<rightharpoonup> transaction) \<Rightarrow> bool" where
  "keyed m \<longleftrightarrow> finite (dom m) \<and> (\<forall>t tx. m t = Some tx \<longrightarrow> txid tx = t)"

definition extends :: "(txid \<rightharpoonup> transaction) \<Rightarrow> topo_state \<Rightarrow> transaction list \<Rightarrow> topo_state \<Rightarrow> bool" where
  "extends m s new t \<longleftrightarrow> fst t = fst s @ new \<and> snd t = snd s \<union> txid ` set new
     \<and> distinct (map txid new) \<and> txid ` set new \<inter> snd s = {} \<and> (\<forall>tx \<in> set new. m (txid tx) = Some tx)"

lemma extends_refl [simp]: "extends m s [] s"
  by (simp add: extends_def)

lemma extends_trans: "extends m s as t \<Longrightarrow> extends m t bs u \<Longrightarrow> extends m s (as @ bs) u"
  by (auto simp: extends_def)

lemma extends_push:
  assumes "extends m (stack, insert (txid tx) vis) new t" and "m (txid tx) = Some tx" and "txid tx \<notin> vis"
  shows "extends m (stack, vis) (new @ [tx]) (fst t @ [tx], snd t)"
  using assms by (auto simp: extends_def)

text \<open>Every input of the appended transactions that is in the map stands before them.\<close>

fun placed :: "(txid \<rightharpoonup> transaction) \<Rightarrow> transaction list \<Rightarrow> transaction list \<Rightarrow> bool" where
  "placed m before [] \<longleftrightarrow> True"
| "placed m before (tx # txs) \<longleftrightarrow> (\<forall>i \<in> set (inputs tx). m (op_txid i) \<noteq> None \<longrightarrow> op_txid i \<in> txid ` set before)
     \<and> placed m (before @ [tx]) txs"

lemma placed_append: "placed m before as \<Longrightarrow> placed m (before @ as) bs \<Longrightarrow> placed m before (as @ bs)"
  by (induction as arbitrary: before) auto

lemma placed_single: "placed m before [tx] \<longleftrightarrow>
    (\<forall>i \<in> set (inputs tx). m (op_txid i) \<noteq> None \<longrightarrow> op_txid i \<in> txid ` set before)"
  by simp

text \<open>A rank that goes down along inputs: there is one exactly when nothing spends itself.\<close>

definition ranked :: "(txid \<rightharpoonup> transaction) \<Rightarrow> (txid \<Rightarrow> nat) \<Rightarrow> bool" where
  "ranked m rank \<longleftrightarrow> (\<forall>t tx i. m t = Some tx \<longrightarrow> i \<in> set (inputs tx) \<longrightarrow> m (op_txid i) \<noteq> None \<longrightarrow> rank (op_txid i) < rank t)"

text \<open>The transactions being visited, marked but not pushed yet, are above those to visit.\<close>

definition above :: "(txid \<Rightarrow> nat) \<Rightarrow> nat \<Rightarrow> topo_state \<Rightarrow> bool" where
  "above rank r s \<longleftrightarrow> (\<forall>t \<in> snd s. t \<in> txid ` set (fst s) \<or> r \<le> rank t)"

definition below :: "(txid \<rightharpoonup> transaction) \<Rightarrow> (txid \<Rightarrow> nat) \<Rightarrow> nat \<Rightarrow> outpoint list \<Rightarrow> bool" where
  "below m rank r is' \<longleftrightarrow> (\<forall>i \<in> set is'. m (op_txid i) \<noteq> None \<longrightarrow> rank (op_txid i) < r)"

definition topo_result :: "(txid \<rightharpoonup> transaction) \<Rightarrow> outpoint list \<Rightarrow> topo_state \<Rightarrow> transaction list \<Rightarrow> topo_state \<Rightarrow> bool" where
  "topo_result m is' s new t \<longleftrightarrow> extends m s new t
    \<and> (\<forall>i \<in> set is'. m (op_txid i) \<noteq> None \<longrightarrow> op_txid i \<in> snd t)
    \<and> (\<forall>rank r. ranked m rank \<longrightarrow> above rank r s \<longrightarrow> below m rank r is' \<longrightarrow> placed m (fst s) new)"

lemma topo_result_skip:
  "topo_result m is' s new t \<Longrightarrow> op_txid i \<in> snd s \<or> m (op_txid i) = None \<Longrightarrow> topo_result m (i # is') s new t"
  by (auto simp: topo_result_def extends_def below_def)

text \<open>The recursive call on one input: its own inputs, then itself.\<close>

lemma topo_result_call:
  assumes "keyed m" and i: "m (op_txid i) = Some tx" "op_txid i \<notin> snd s"
    and r: "topo_result m (inputs tx) (fst s, insert (txid tx) (snd s)) new t"
  shows "topo_result m [i] s (new @ [tx]) (fst t @ [tx], snd t)"
proof -
  have tx: "txid tx = op_txid i" using assms(1) i(1) by (simp add: keyed_def)
  have ext: "extends m s (new @ [tx]) (fst t @ [tx], snd t)"
    using extends_push [of m "fst s" tx "snd s" new t] r i tx by (simp add: topo_result_def)
  have t: "fst t = fst s @ new" "snd t = insert (txid tx) (snd s) \<union> txid ` set new"
    using r by (auto simp: topo_result_def extends_def)
  have "placed m (fst s) (new @ [tx])"
    if rank: "ranked m rank" and s: "above rank q s" and b: "below m rank q [i]" for rank q
  proof (rule placed_append)
    have q: "rank (txid tx) < q" using b i(1) tx by (simp add: below_def)
    have in_rank: "rank (op_txid j) < rank (txid tx)" if "j \<in> set (inputs tx)" "m (op_txid j) \<noteq> None" for j
      using rank i(1) tx that unfolding ranked_def by metis
    have "above rank (rank (txid tx)) (fst s, insert (txid tx) (snd s))"
      using s q by (auto simp: above_def)
    moreover have "below m rank (rank (txid tx)) (inputs tx)"
      using in_rank by (auto simp: below_def)
    ultimately show "placed m (fst s) new" using r rank by (auto simp: topo_result_def)
    show "placed m (fst s @ new) [tx]"
      unfolding placed_single
    proof (intro ballI impI)
      fix j
      assume j: "j \<in> set (inputs tx)" "m (op_txid j) \<noteq> None"
      then have "op_txid j \<in> snd t" using r by (auto simp: topo_result_def)
      with t in_rank [OF j] s q show "op_txid j \<in> txid ` set (fst s @ new)"
        by (auto simp: above_def)
    qed
  qed
  with ext t tx show ?thesis by (auto simp: topo_result_def)
qed

lemma topo_result_seq:
  assumes "topo_result m [i] s as t" and "topo_result m is' t bs u" and "m (op_txid i) \<noteq> None"
    and "keyed m" and "last as = tx" "as \<noteq> []" "txid tx = op_txid i"
  shows "topo_result m (i # is') s (as @ bs) u"
proof -
  have e: "extends m s as t" "extends m t bs u" using assms(1,2) by (auto simp: topo_result_def)
  have "placed m (fst s) (as @ bs)"
    if rank: "ranked m rank" and s: "above rank r s" and b: "below m rank r (i # is')" for rank r
  proof (rule placed_append)
    show "placed m (fst s) as" using assms(1) rank s b by (auto simp: topo_result_def below_def)
    have "above rank r t" using s e(1) by (auto simp: above_def extends_def)
    moreover have "below m rank r is'" using b by (simp add: below_def)
    ultimately show "placed m (fst s @ as) bs"
      using assms(2) rank e(1) by (auto simp: topo_result_def extends_def)
  qed
  then show ?thesis
    using extends_trans [OF e] assms(1,2) e by (auto simp: topo_result_def extends_def)
qed

lemma topo_inputs_result:
  assumes "keyed m"
  shows "card (dom m - snd s) \<le> n \<Longrightarrow> \<exists>new t. topo_inputs m is' s = Some t \<and> topo_result m is' s new t"
proof (induction n arbitrary: is' s rule: less_induct)
  case (less n)
  from less.prems show ?case
  proof (induction is' arbitrary: s)
    case Nil
    show ?case by (intro exI [of _ "[]"] exI [of _ s]) (simp add: topo_result_def)
  next
    case (Cons i rest)
    show ?case
    proof (cases "op_txid i \<in> snd s \<or> m (op_txid i) = None")
      case True
      then have "topo_inputs m (i # rest) s = topo_inputs m rest s" by (cases "op_txid i \<in> snd s") auto
      moreover obtain new t where "topo_inputs m rest s = Some t" "topo_result m rest s new t"
        using Cons.IH [OF Cons.prems] by blast
      ultimately show ?thesis using True topo_result_skip by metis
    next
      case False
      then obtain tx where tx: "m (op_txid i) = Some tx" "op_txid i \<notin> snd s" by auto
      have key: "txid tx = op_txid i" using assms tx(1) by (simp add: keyed_def)
      let ?s = "(fst s, insert (txid tx) (snd s))"
      have "card (dom m - snd ?s) < card (dom m - snd s)"
        using tx key assms by (intro psubset_card_mono) (auto simp: keyed_def)
      with Cons.prems have lt: "card (dom m - snd ?s) < n" by simp
      from less.IH [OF lt order.refl] obtain new t where
        t: "topo_inputs m (inputs tx) ?s = Some t" "topo_result m (inputs tx) ?s new t" by blast
      let ?t = "(fst t @ [tx], snd t)"
      have call: "topo_result m [i] s (new @ [tx]) ?t" by (rule topo_result_call [OF assms tx t(2)])
      then have "snd s \<subseteq> snd ?t" by (auto simp: topo_result_def extends_def)
      then have "card (dom m - snd ?t) \<le> card (dom m - snd s)"
        using assms by (intro card_mono) (auto simp: keyed_def)
      with Cons.prems have "card (dom m - snd ?t) \<le> n" by linarith
      from Cons.IH [OF this] obtain bs u where
        u: "topo_inputs m rest ?t = Some u" "topo_result m rest ?t bs u" by blast
      have "topo_result m (i # rest) s ((new @ [tx]) @ bs) u"
        by (rule topo_result_seq [OF call u(2), of tx]) (simp_all add: tx assms key)
      then show ?thesis using t(1) u(1) tx by (auto simp: topological_sort_internal_def)
    qed
  qed
qed


section \<open>Sorting a list\<close>

text \<open>A list of transactions with distinct ids, as a block has.\<close>

abbreviation distinct_ids :: "transaction list \<Rightarrow> bool" where
  "distinct_ids txs \<equiv> distinct (map txid txs)"

lemma tx_map_Some: "tx_map txs t = Some tx \<Longrightarrow> tx \<in> set txs \<and> txid tx = t"
  by (induction txs) (auto split: if_splits)

lemma tx_map_in: "distinct_ids txs \<Longrightarrow> tx \<in> set txs \<Longrightarrow> tx_map txs (txid tx) = Some tx"
  by (induction txs) (auto, metis imageI)

lemma tx_map_known: "tx_map txs t = None \<longleftrightarrow> t \<notin> txid ` set txs"
  by (induction txs) auto

lemma dom_tx_map: "dom (tx_map txs) = txid ` set txs"
  by (simp add: dom_def tx_map_known del: not_None_eq)

lemma keyed_tx_map: "keyed (tx_map txs)"
  using tx_map_Some by (auto simp: keyed_def dom_tx_map)

lemma topo_loop_result:
  assumes "keyed m"
  shows "(\<And>tx. tx \<in> set txs \<Longrightarrow> m (txid tx) = Some tx) \<Longrightarrow> \<exists>new t. topo_loop m txs s = Some t
    \<and> extends m s new t \<and> (\<forall>tx \<in> set txs. txid tx \<in> snd t)
    \<and> (\<forall>rank. ranked m rank \<longrightarrow> snd s \<subseteq> txid ` set (fst s) \<longrightarrow> placed m (fst s) new)"
proof (induction txs arbitrary: s)
  case Nil
  show ?case by (intro exI [of _ "[]"] exI [of _ s]) simp
next
  case (Cons tx txs)
  show ?case
  proof (cases "txid tx \<in> snd s")
    case True
    with Cons.IH [of s] Cons.prems show ?thesis by (fastforce simp: extends_def)
  next
    case False
    have m: "m (txid tx) = Some tx" using Cons.prems by simp
    let ?i = "\<lparr>op_txid = txid tx, op_vout = 0\<rparr>" and ?s = "(fst s, insert (txid tx) (snd s))"
    obtain new t where t: "topo_inputs m (inputs tx) ?s = Some t" "topo_result m (inputs tx) ?s new t"
      using topo_inputs_result [OF assms, of ?s _ "inputs tx"] by blast
    let ?t = "(fst t @ [tx], snd t)"
    have call: "topo_result m [?i] s (new @ [tx]) ?t"
      by (rule topo_result_call [OF assms _ _ t(2)]) (simp_all add: m False)
    then have e: "extends m s (new @ [tx]) ?t" and vis: "txid tx \<in> snd t"
      using m by (auto simp: topo_result_def)
    have "m (txid x) = Some x" if "x \<in> set txs" for x using Cons.prems that by simp
    from Cons.IH [OF this, of ?t] obtain bs u where
      u: "topo_loop m txs ?t = Some u" "extends m ?t bs u" "\<forall>tx \<in> set txs. txid tx \<in> snd u"
      "\<forall>rank. ranked m rank \<longrightarrow> snd ?t \<subseteq> txid ` set (fst ?t) \<longrightarrow> placed m (fst ?t) bs" by blast
    have "placed m (fst s) ((new @ [tx]) @ bs)" if rank: "ranked m rank" and s: "snd s \<subseteq> txid ` set (fst s)" for rank
    proof (rule placed_append)
      have "above rank (Suc (rank (txid tx))) s" using s by (auto simp: above_def)
      moreover have "below m rank (Suc (rank (txid tx))) [?i]" by (simp add: below_def)
      ultimately show "placed m (fst s) (new @ [tx])" using call rank unfolding topo_result_def by blast
      have "snd ?t \<subseteq> txid ` set (fst ?t)" using e s by (auto simp: extends_def)
      then have "placed m (fst ?t) bs" using u(4) rank by blast
      then show "placed m (fst s @ new @ [tx]) bs" using e by (simp add: extends_def)
    qed
    moreover have "extends m s ((new @ [tx]) @ bs) u" by (rule extends_trans [OF e u(2)])
    moreover have "topo_loop m (tx # txs) s = Some u"
      using False t(1) u(1) by (simp add: topological_sort_internal_def)
    moreover have "txid tx \<in> snd u" using u(2) vis by (auto simp: extends_def)
    ultimately show ?thesis using u(3) by (intro exI [of _ "(new @ [tx]) @ bs"] exI [of _ u]) auto
  qed
qed

lemma topological_sort_result:
  assumes "distinct_ids txs"
  shows "\<exists>ys. topological_sort txs = Some ys \<and> distinct_ids ys \<and> set ys = set txs
    \<and> (\<forall>rank. ranked (tx_map txs) rank \<longrightarrow> placed (tx_map txs) [] ys)"
proof -
  obtain new t where t: "topo_loop (tx_map txs) txs ([], {}) = Some t" "extends (tx_map txs) ([], {}) new t"
    "\<forall>tx \<in> set txs. txid tx \<in> snd t" "\<forall>rank. ranked (tx_map txs) rank \<longrightarrow> placed (tx_map txs) [] new"
    using topo_loop_result [OF keyed_tx_map [of txs], of txs "([], {})"] tx_map_in [OF assms] by auto
  have e: "fst t = new" "snd t = txid ` set new" "distinct_ids new" "\<forall>tx \<in> set new. tx_map txs (txid tx) = Some tx"
    using t(2) by (auto simp: extends_def)
  have "set new = set txs"
  proof
    show "set new \<subseteq> set txs" using e(4) tx_map_Some by blast
    show "set txs \<subseteq> set new"
    proof
      fix tx
      assume tx: "tx \<in> set txs"
      then obtain tx' where "tx' \<in> set new" "txid tx' = txid tx" using t(3) e(2) by auto
      with e(4) have "tx_map txs (txid tx) = Some tx'" by metis
      with tx_map_in [OF assms tx] \<open>tx' \<in> set new\<close> show "tx \<in> set new" by simp
    qed
  qed
  then show ?thesis using t(1,4) e(1,3) by (intro exI [of _ new]) (simp add: topological_sort_def)
qed

lemma placed_nth:
  "placed m before txs \<Longrightarrow> j < length txs \<Longrightarrow> i \<in> set (inputs (txs ! j)) \<Longrightarrow> m (op_txid i) \<noteq> None
     \<Longrightarrow> op_txid i \<in> txid ` set (before @ take j txs)"
proof (induction txs arbitrary: before j)
  case (Cons tx txs)
  show ?case
  proof (cases j)
    case 0
    with Cons.prems show ?thesis by auto
  next
    case (Suc k)
    with Cons.prems Cons.IH [of "before @ [tx]" k] show ?thesis by auto
  qed
qed simp

text \<open>The sort always returns, and returns exactly the given transactions, each once, whatever
  they spend, even when they spend each other in a cycle.\<close>

theorem topological_sort_total:
  assumes "distinct_ids txs"
  shows "\<exists>ys. topological_sort txs = Some ys \<and> mset ys = mset txs"
proof -
  obtain ys where ys: "topological_sort txs = Some ys" "distinct_ids ys" "set ys = set txs"
    using topological_sort_result [OF assms] by blast
  have "distinct txs" "distinct ys" using assms ys(2) by (simp_all add: distinct_map)
  with ys show ?thesis by (simp add: set_eq_iff_mset_eq_distinct)
qed

text \<open>C22: When no transaction of the list spends itself through others, every transaction comes
  after all the transactions of the list it spends.\<close>

theorem topological_sort_order:
  assumes "distinct_ids txs" and "ranked (tx_map txs) rank" and "topological_sort txs = Some ys"
    and "j < length ys" and "i \<in> set (inputs (ys ! j))" and "op_txid i \<in> txid ` set txs"
  shows "\<exists>k < j. txid (ys ! k) = op_txid i"
proof -
  have p: "placed (tx_map txs) [] ys"
    using topological_sort_result [OF assms(1)] assms(2,3) by auto
  have "op_txid i \<in> dom (tx_map txs)" using assms(6) by (simp only: dom_tx_map)
  then have "tx_map txs (op_txid i) \<noteq> None" by blast
  from placed_nth [OF p assms(4,5) this] obtain tx where "tx \<in> set (take j ys)" "txid tx = op_txid i" by auto
  then show ?thesis using assms(4) by (auto simp: in_set_conv_nth)
qed


text \<open>A child before its parent, and an input from outside the list.\<close>

definition example_list :: "transaction list" where
  "example_list = [(transaction_new 1 0 0)\<lparr>txid := [2], inputs := [\<lparr>op_txid = [1], op_vout = 0\<rparr>, \<lparr>op_txid = [9], op_vout = 0\<rparr>]\<rparr>,
     (transaction_new 1 0 0)\<lparr>txid := [1]\<rparr>]"

lemma example_list_simps:
  "distinct_ids example_list" "ranked (tx_map example_list) (\<lambda>t. if t = [2] then 1 else 0)"
  by (auto simp: example_list_def ranked_def transaction_new_def split: if_splits)

lemma example_sorted: "topological_sort example_list = Some (rev example_list)"
  by (simp add: topological_sort_def example_list_def transaction_new_def topological_sort_internal_def)

theorem topological_sort_total_witness:
  "\<exists>ys. topological_sort example_list = Some ys \<and> mset ys = mset example_list"
  using topological_sort_total [OF example_list_simps(1)] .

theorem topological_sort_order_witness:
  "\<exists>k < 1. txid (rev example_list ! k) = [1]"
  using topological_sort_order [OF example_list_simps example_sorted, of 1 "\<lparr>op_txid = [1], op_vout = 0\<rparr>"]
  by (simp add: example_list_def transaction_new_def)

end
