(* ===== verification/Block.thy ===== *)
theory Block
  imports Transaction TopoSort
begin

text \<open>
  Blocks: the parser and the serializer of \<open>include/gs++/block.hpp\<close> and \<open>src/block.cpp\<close>. The server
  reads blocks from the node and keeps those of the token transactions in a cache, in the same
  format. The members the constructor leaves unset are an argument.
\<close>

section \<open>The block\<close>

record block =
  block_hash :: bytes
  blk_version :: u32
  prev_block :: txid
  merkle_root :: txid
  timestamp :: u32
  bits :: u32
  nonce :: u32
  blk_txs :: "transaction list"

text \<open>The header in memory order, as the hash and the file have it.\<close>

definition block_header :: "block \<Rightarrow> bytes" where
  "block_header b = le_bytes 4 (unat (blk_version b)) @ prev_block b @ merkle_root b
     @ le_bytes 4 (unat (timestamp b)) @ le_bytes 4 (unat (bits b)) @ le_bytes 4 (unat (nonce b))"

definition block_serialize :: "block \<Rightarrow> bytes" where
  "block_serialize b = block_header b @ num_to_var_int (of_nat (length (blk_txs b))) @ concat (map serialized (blk_txs b))"

definition block_sort :: "block \<Rightarrow> block option" where
  "block_sort b = map_option (\<lambda>sorted. b\<lparr>blk_txs := sorted\<rparr>) (topological_sort (blk_txs b))"

text \<open>The loop over the transactions; each is parsed into a new object.\<close>

fun block_txs :: "(bytes \<Rightarrow> bytes) \<Rightarrow> u32 \<times> u32 \<times> u16 \<Rightarrow> bool \<Rightarrow> nat \<Rightarrow> block \<Rightarrow> bytes \<Rightarrow> (block, block \<times> bytes) res" where
  "block_txs sha256 unset slp_only 0 this it = Ok (this, it)"
| "block_txs sha256 unset slp_only (Suc n) this it = check_end 0 this it
     (case unset of (v, lt, tt) \<Rightarrow> (case tx_hydrate sha256 tt (transaction_new v lt tt) it of
        Ok tx \<Rightarrow> if length it < length (serialized tx) then Oob
          else block_txs sha256 unset slp_only n
            (if \<not> slp_only \<or> slp_type (slp tx) \<noteq> TInvalid then this\<lparr>blk_txs := blk_txs this @ [tx]\<rparr> else this)
            (drop (length (serialized tx)) it)
      | Fail _ \<Rightarrow> Fail this
      | Oob \<Rightarrow> Oob))"

definition block_hydrate :: "(bytes \<Rightarrow> bytes) \<Rightarrow> u32 \<times> u32 \<times> u16 \<Rightarrow> bool \<Rightarrow> block \<Rightarrow> bytes \<Rightarrow> (block, block) res" where
  "block_hydrate sha256 unset slp_only this begin_it =
     check_end 4 this begin_it (res_bind (reading this (extract_u32 begin_it)) (\<lambda>(v, it).
     let this = this\<lparr>blk_version := v\<rparr> in
     check_end 32 this it (res_bind (reading this (copy_bytes 32 it)) (\<lambda>(h, it).
     let this = this\<lparr>prev_block := h\<rparr> in
     check_end 32 this it (res_bind (reading this (copy_bytes 32 it)) (\<lambda>(h, it).
     let this = this\<lparr>merkle_root := h\<rparr> in
     check_end 4 this it (res_bind (reading this (extract_u32 it)) (\<lambda>(v, it).
     let this = this\<lparr>timestamp := v\<rparr> in
     check_end 4 this it (res_bind (reading this (extract_u32 it)) (\<lambda>(v, it).
     let this = this\<lparr>bits := v\<rparr> in
     check_end 4 this it (res_bind (reading this (extract_u32 it)) (\<lambda>(v, it).
     let this = this\<lparr>nonce := v\<rparr>; this = this\<lparr>block_hash := sha256 (sha256 (block_header this))\<rparr> in
     res_bind (reading this (var_int_additional_size it)) (\<lambda>n.
     check_end n this it (res_bind (reading this (extract_var_int it)) (\<lambda>(txn_count, it).
     res_bind (block_txs sha256 unset slp_only (unat txn_count) this it) (\<lambda>(this, it). Ok this))))))))))))))))"

section \<open>Parsers that read a prefix\<close>

text \<open>
  What a parser returns depends on the bytes it consumes, of which there are at least \<open>n\<close>, and not
  on what follows them, as long as something does: the bound checks look one byte ahead.
\<close>

definition reads :: "nat \<Rightarrow> (bytes \<Rightarrow> ('o, 'a \<times> bytes) res) \<Rightarrow> bool" where
  "reads n m \<longleftrightarrow> (\<forall>it x r. m it = Ok (x, r) \<longrightarrow>
     (\<exists>u. it = u @ r \<and> n \<le> length u \<and> (\<forall>r'. r' \<noteq> [] \<longrightarrow> m (u @ r') = Ok (x, r'))))"

lemma readsI: "(\<And>it x r. m it = Ok (x, r) \<Longrightarrow>
    \<exists>u. it = u @ r \<and> n \<le> length u \<and> (\<forall>r'. r' \<noteq> [] \<longrightarrow> m (u @ r') = Ok (x, r'))) \<Longrightarrow> reads n m"
  by (simp add: reads_def)

lemma readsD: "reads n m \<Longrightarrow> m it = Ok (x, r) \<Longrightarrow>
    \<exists>u. it = u @ r \<and> n \<le> length u \<and> (\<forall>r'. r' \<noteq> [] \<longrightarrow> m (u @ r') = Ok (x, r'))"
  by (simp add: reads_def)

lemma reads_Ok: "reads 0 (\<lambda>it. Ok (x, it))"
  by (simp add: reads_def)

lemma reads_bind:
  assumes "reads n m" and "\<And>x. reads k (f x)"
  shows "reads (n + k) (\<lambda>it. res_bind (m it) (\<lambda>(x, it). f x it))"
proof (rule readsI)
  fix it y r
  assume "res_bind (m it) (\<lambda>(x, it). f x it) = Ok (y, r)"
  then obtain x r1 where 1: "m it = Ok (x, r1)" and 2: "f x r1 = Ok (y, r)" by (auto simp: res_bind_Ok)
  from readsD [OF assms(1) 1] obtain u where
    u: "it = u @ r1" "n \<le> length u" "\<forall>r'. r' \<noteq> [] \<longrightarrow> m (u @ r') = Ok (x, r')" by blast
  from readsD [OF assms(2) 2] obtain w where
    w: "r1 = w @ r" "k \<le> length w" "\<forall>r'. r' \<noteq> [] \<longrightarrow> f x (w @ r') = Ok (y, r')" by blast
  show "\<exists>u. it = u @ r \<and> n + k \<le> length u \<and> (\<forall>r'. r' \<noteq> [] \<longrightarrow> res_bind (m (u @ r')) (\<lambda>(x, it). f x it) = Ok (y, r'))"
    using u w by (intro exI [of _ "u @ w"]) auto
qed

lemma reads_weaken: "reads k m \<Longrightarrow> n \<le> k \<Longrightarrow> reads n m"
  unfolding reads_def by (meson le_trans)

lemma reads_forget: "reads k m \<Longrightarrow> reads 0 m"
  by (rule reads_weaken) simp_all

lemma reads_check: "reads n m \<Longrightarrow> reads n (\<lambda>it. check_end n obj it (m it))"
proof (rule readsI)
  fix it x r
  assume m: "reads n m" and c: "check_end n obj it (m it) = Ok (x, r)"
  then have "m it = Ok (x, r)" by (simp add: check_end_Ok)
  from readsD [OF m this] obtain u where
    u: "it = u @ r" "n \<le> length u" "\<forall>r'. r' \<noteq> [] \<longrightarrow> m (u @ r') = Ok (x, r')" by blast
  have "n < length (u @ r')" if "r' \<noteq> []" for r'
    using u(2) that by (cases r') auto
  with u show "\<exists>u. it = u @ r \<and> n \<le> length u \<and> (\<forall>r'. r' \<noteq> [] \<longrightarrow> check_end n obj (u @ r') (m (u @ r')) = Ok (x, r'))"
    by (intro exI [of _ u]) (simp add: check_end_Ok)
qed

lemma reads_tx_check: "reads n m \<Longrightarrow> reads n (\<lambda>it. tx_check c obj (m it))"
  by (simp add: reads_def tx_check_def)

lemma reads_extract:
  "reads 4 (\<lambda>it. reading obj (extract_u32 it))" "reads 4 (\<lambda>it. reading obj (extract_i32 it))"
  "reads 8 (\<lambda>it. reading obj (extract_u64 it))" "reads n (\<lambda>it. reading obj (copy_bytes n it))"
  by (auto simp: reads_def reading_Ok copy_bytes_Ok extract_u32_def extract_i32_def extract_u64_def res_bind_Ok copy_int_Ok copy_int_le_bytes)

lemma extract_var_int_prefix:
  assumes "extract_var_int (u @ r) = Ok (n, r)"
  shows "extract_var_int (u @ r') = Ok (n, r')"
proof -
  obtain b w where u: "u = b # w"
    using assms by (cases u) (auto elim!: extract_var_int_cases)
  have x: "extract_u16 (w @ r) = Ok (n1, r) \<Longrightarrow> extract_u16 (w @ r') = Ok (n1, r')"
    "extract_u32 (w @ r) = Ok (n2, r) \<Longrightarrow> extract_u32 (w @ r') = Ok (n2, r')"
    "extract_u64 (w @ r) = Ok (n3, r) \<Longrightarrow> extract_u64 (w @ r') = Ok (n3, r')" for n1 n2 n3
    by (auto simp: extract_u16_def extract_u32_def extract_u64_def res_bind_Ok copy_int_Ok copy_int_le_bytes)
  show ?thesis using assms unfolding u
    by (auto simp: extract_var_int_def extract_u8_def res_bind_Ok dest: x split: if_splits)
qed

lemma reads_checked_var_int: "reads 1 (checked_var_int obj)"
proof (rule readsI)
  fix it n r
  assume c: "checked_var_int obj it = Ok (n, r)"
  then have ne: "it \<noteq> []" by (auto simp: checked_var_int_def var_int_additional_size_def)
  obtain k where k: "var_int_additional_size it = Ok k" "\<forall>n r. extract_var_int it = Ok (n, r) \<longrightarrow> length it = Suc k + length r"
    using var_int_size [OF ne] by metis
  have e: "extract_var_int it = Ok (n, r)" using c by (auto simp: checked_var_int_def tx_Ok)
  then obtain u where u: "it = u @ r" using extract_consumes(4) [OF e] by (auto simp: consumes_def)
  with k e have l: "length u = Suc k" by fastforce
  have "checked_var_int obj (u @ r') = Ok (n, r')" if "r' \<noteq> []" for r'
    using extract_var_int_prefix [of u r n r'] e k l that unfolding u
    by (cases u; cases r') (auto simp: checked_var_int_def var_int_additional_size_def check_end_Ok)
  then show "\<exists>u. it = u @ r \<and> 1 \<le> length u \<and> (\<forall>r'. r' \<noteq> [] \<longrightarrow> checked_var_int obj (u @ r') = Ok (n, r'))"
    using u l by auto
qed

lemma reads_input: "reads 1 (read_input obj)"
proof -
  have tail: "reads 4 (\<lambda>it. check_end 4 obj it (res_bind (reading obj (extract_u32 it)) (\<lambda>(sequence, it).
     Ok (obj\<lparr>inputs := inputs obj @ [\<lparr>op_txid = h, op_vout = v\<rparr>]\<rparr>, it))))" for h v
    by (rule reads_check) (use reads_bind [OF reads_extract(1) reads_Ok] in simp)
  have script: "reads n (\<lambda>it. check_end n obj it (res_bind (reading obj (copy_bytes n it)) (\<lambda>(sigscript, it). m it)))"
    if "reads k m" for n k m
    by (rule reads_check) (rule reads_weaken [OF reads_bind [OF reads_extract(4) that]], simp)
  have vout: "reads 4 (\<lambda>it. check_end 4 obj it (res_bind (reading obj (extract_u32 it)) (\<lambda>(v, it). m v it)))"
    if "\<And>v. reads k (m v)" for k m
    by (rule reads_check) (rule reads_weaken [OF reads_bind [OF reads_extract(1) that]], simp)
  show ?thesis
    unfolding read_input_def
    by (rule reads_weaken, rule reads_check, rule reads_weaken, rule reads_bind [OF reads_extract(4)], rule vout,
        rule reads_forget, rule reads_bind [OF reads_checked_var_int], rule reads_tx_check, rule reads_forget,
        rule script, rule tail) simp_all
qed

lemma reads_output: "reads 1 (read_output i obj)"
proof -
  have script: "reads n (\<lambda>it. check_end n obj it (res_bind (reading obj (copy_bytes n it)) (\<lambda>(spk, it). m spk it)))"
    if "\<And>spk. reads k (m spk)" for n k m
    by (rule reads_check) (rule reads_weaken [OF reads_bind [OF reads_extract(4) that]], simp)
  show ?thesis
    unfolding read_output_def
    by (rule reads_weaken, rule reads_check, rule reads_weaken, rule reads_bind [OF reads_extract(3)],
        rule reads_forget, rule reads_bind [OF reads_checked_var_int], rule reads_tx_check, rule reads_forget,
        rule script, rule reads_Ok) simp_all
qed

lemma reads_inputs: "reads 0 (read_inputs n obj)"
proof (induction n arbitrary: obj)
  case (Suc n)
  show ?case by (simp add: fun_eq_iff) (rule reads_weaken [OF reads_bind [OF reads_input Suc]], simp)
qed (simp add: reads_def)

lemma reads_outputs: "reads 0 (read_outputs n i obj)"
proof (induction n arbitrary: i obj)
  case (Suc n)
  show ?case by (simp add: fun_eq_iff) (rule reads_weaken [OF reads_bind [OF reads_output Suc]], simp)
qed (simp add: reads_def)

text \<open>A transaction ends with its lock time, so nothing needs to follow it.\<close>

lemma finish_tx_prefix: "finish_tx sha256 tt (u @ r) obj r = finish_tx sha256 tt (u @ r') obj r'"
  by (simp add: finish_tx_def)

lemma finish_tx_serialized:
  assumes "finish_tx sha256 tt (u @ r) obj r = Ok t"
  shows "serialized t = u"
  using assms set_slp_Ok by (fastforce simp: finish_tx_def Let_def)

lemma tx_hydrate_prefix:
  assumes "tx_hydrate sha256 tt obj it = Ok t"
  shows "tx_hydrate sha256 tt obj (serialized t @ r') = Ok t" and "\<exists>rest. it = serialized t @ rest" and "serialized t \<noteq> []"
proof -
  from assms obtain v r1 n1 r2 o2 r3 n2 r4 o3 r5 lt r6 where
    p: "reading obj (extract_i32 it) = Ok (v, r1)" "checked_var_int (obj\<lparr>version := v\<rparr>) r1 = Ok (n1, r2)"
      "read_inputs (unat n1) (obj\<lparr>version := v\<rparr>) r2 = Ok (o2, r3)" "checked_var_int o2 r3 = Ok (n2, r4)"
      "read_outputs (unat n2) 0 o2 r4 = Ok (o3, r5)" "extract_u32 r5 = Ok (lt, r6)"
    and f: "finish_tx sha256 tt it (o3\<lparr>lock_time := lt\<rparr>) r6 = Ok t"
    and b: "unat n1 < MAX_TX_SIZE" "unat n2 < MAX_TX_SIZE"
    by (auto simp: tx_hydrate_def Let_def tx_Ok)
  from readsD [OF reads_extract(2) p(1)] obtain u1 where
    u1: "it = u1 @ r1" "4 \<le> length u1" "\<forall>r'. r' \<noteq> [] \<longrightarrow> reading obj (extract_i32 (u1 @ r')) = Ok (v, r')" by blast
  from readsD [OF reads_checked_var_int p(2)] obtain u2 where
    u2: "r1 = u2 @ r2" "\<forall>r'. r' \<noteq> [] \<longrightarrow> checked_var_int (obj\<lparr>version := v\<rparr>) (u2 @ r') = Ok (n1, r')" by blast
  from readsD [OF reads_inputs p(3)] obtain u3 where
    u3: "r2 = u3 @ r3" "\<forall>r'. r' \<noteq> [] \<longrightarrow> read_inputs (unat n1) (obj\<lparr>version := v\<rparr>) (u3 @ r') = Ok (o2, r')" by blast
  from readsD [OF reads_checked_var_int p(4)] obtain u4 where
    u4: "r3 = u4 @ r4" "\<forall>r'. r' \<noteq> [] \<longrightarrow> checked_var_int o2 (u4 @ r') = Ok (n2, r')" by blast
  from readsD [OF reads_outputs p(5)] obtain u5 where
    u5: "r4 = u5 @ r5" "\<forall>r'. r' \<noteq> [] \<longrightarrow> read_outputs (unat n2) 0 o2 (u5 @ r') = Ok (o3, r')" by blast
  from p(6) obtain n6 where n6: "r5 = le_bytes 4 n6 @ r6" "n6 < 256 ^ 4" "lt = of_nat n6"
    by (auto simp: extract_u32_def res_bind_Ok copy_int_Ok)
  define u6 where "u6 = le_bytes 4 n6"
  have u6: "r5 = u6 @ r6" "length u6 = 4" "extract_u32 (u6 @ r') = Ok (lt, r')"
    using n6 by (simp_all add: u6_def extract_u32_def copy_int_le_bytes)
  let ?u = "u1 @ u2 @ u3 @ u4 @ u5 @ u6"
  have it: "it = ?u @ r6" using u1 u2 u3 u4 u5 u6 by simp
  have s: "serialized t = ?u" by (rule finish_tx_serialized) (use f it in simp)
  then show "\<exists>rest. it = serialized t @ rest" "serialized t \<noteq> []" using it u1(2) by auto
  have "finish_tx sha256 tt (?u @ r') (o3\<lparr>lock_time := lt\<rparr>) r' = Ok t"
    using f finish_tx_prefix [of sha256 tt ?u r6 "o3\<lparr>lock_time := lt\<rparr>" r'] it by simp
  moreover have "u6 \<noteq> []" "4 < length (u1 @ u2 @ u3 @ u4 @ u5 @ u6 @ r')" "3 < length (u6 @ r')" using u1(2) u6(2) by auto
  ultimately show "tx_hydrate sha256 tt obj (serialized t @ r') = Ok t"
    using u1(3) u2(2) u3(2) u4(2) u5(2) u6(3) b
    by (simp add: s tx_hydrate_def Let_def check_end_Ok tx_check_def del: length_append)
qed

section \<open>Parsing a block is safe\<close>

lemma block_txs_safe: "block_txs sha256 unset slp_only n this it \<noteq> Oob"
proof (induction n arbitrary: this it)
  case (Suc n)
  obtain v lt tt where u: "unset = (v, lt, tt)" by (rule prod_cases3)
  show ?case
  proof (cases "tx_hydrate sha256 tt (transaction_new v lt tt) it")
    case (Ok tx)
    with tx_hydrate_prefix(2) [OF Ok] Suc show ?thesis by (auto simp: u check_end_def)
  qed (use tx_hydrate_not_Oob in \<open>auto simp: u check_end_def\<close>)
qed simp

lemma checked_extract_var_int: "it \<noteq> [] \<Longrightarrow> var_int_additional_size it = Ok n \<Longrightarrow> n < length it \<Longrightarrow> extract_var_int it \<noteq> Oob"
  by (erule var_int_size) auto

text \<open>parsing a block never reads outside the buffer: on any bytes and whatever the object held,
  \<open>hydrate\<close> succeeds or returns false.\<close>

theorem block_hydrate_safe:
  "(\<exists>b. block_hydrate sha256 unset slp_only this it = Ok b) \<or> (\<exists>b. block_hydrate sha256 unset slp_only this it = Fail b)"
proof -
  have "block_hydrate sha256 unset slp_only this it \<noteq> Oob"
    by (auto simp: block_hydrate_def Let_def tx_Oob block_txs_safe var_int_additional_size_def checked_extract_var_int reading_Ok
        split: list.splits dest!: extract_sizes)
  then show ?thesis by (cases "block_hydrate sha256 unset slp_only this it") auto
qed

section \<open>What is parsed can be written and parsed again\<close>

definition parsed_tx :: "(bytes \<Rightarrow> bytes) \<Rightarrow> u32 \<times> u32 \<times> u16 \<Rightarrow> transaction \<Rightarrow> bool" where
  "parsed_tx sha256 unset tx \<longleftrightarrow> (case unset of (v, lt, tt) \<Rightarrow> \<exists>it. tx_hydrate sha256 tt (transaction_new v lt tt) it = Ok tx)"

definition block_ok :: "(bytes \<Rightarrow> bytes) \<Rightarrow> u32 \<times> u32 \<times> u16 \<Rightarrow> block \<Rightarrow> bool" where
  "block_ok sha256 unset b \<longleftrightarrow> length (prev_block b) = 32 \<and> length (merkle_root b) = 32 \<and> length (blk_txs b) < 2 ^ 64
     \<and> (\<forall>tx \<in> set (blk_txs b). parsed_tx sha256 unset tx) \<and> block_hash b = sha256 (sha256 (block_header b))"

definition kept :: "bool \<Rightarrow> transaction \<Rightarrow> bool" where
  "kept slp_only tx \<longleftrightarrow> \<not> slp_only \<or> slp_type (slp tx) \<noteq> TInvalid"

lemma block_txs_ser:
  "\<forall>tx \<in> set l. parsed_tx sha256 unset tx \<Longrightarrow> block_txs sha256 unset slp_only (length l) this (concat (map serialized l) @ rest)
     = Ok (this\<lparr>blk_txs := blk_txs this @ filter (kept slp_only) l\<rparr>, rest)"
proof (induction l arbitrary: this)
  case (Cons tx l)
  obtain v lt tt where u: "unset = (v, lt, tt)" by (rule prod_cases3)
  from Cons.prems u obtain it where "tx_hydrate sha256 tt (transaction_new v lt tt) it = Ok tx" by (auto simp: parsed_tx_def)
  note p = tx_hydrate_prefix [OF this]
  have "serialized tx @ concat (map serialized l) @ rest \<noteq> []" using p(3) by simp
  then show ?case using Cons p(1) [of "concat (map serialized l) @ rest"] by (simp add: u check_end_def kept_def)
qed simp

lemma block_hydrate_ser:
  assumes "block_ok sha256 unset b" and "blk_txs this = []"
  shows "block_hydrate sha256 unset slp_only this (block_serialize b @ rest) = Ok (b\<lparr>blk_txs := filter (kept slp_only) (blk_txs b)\<rparr>)"
proof -
  let ?n = "of_nat (length (blk_txs b)) :: u64"
  have n: "unat ?n = length (blk_txs b)" using assms(1) by (simp add: block_ok_def unat_of_nat)
  have v: "num_to_var_int ?n @ it \<noteq> []" for it using length_var_int_nat [of "length (blk_txs b)"] by (simp add: var_int_nat_def)
  have x: "\<exists>k. var_int_additional_size (num_to_var_int ?n @ it) = Ok k \<and> k < length (num_to_var_int ?n @ it)" for it
  proof -
    obtain k where "var_int_additional_size (num_to_var_int ?n @ it) = Ok k"
      "extract_var_int (num_to_var_int ?n @ it) \<noteq> Oob \<longleftrightarrow> k < length (num_to_var_int ?n @ it)"
      using var_int_size [OF v] by metis
    then show ?thesis by (auto simp: extract_num_to_var_int)
  qed
  then obtain k where k: "var_int_additional_size (num_to_var_int ?n @ concat (map serialized (blk_txs b)) @ rest) = Ok k"
    "k < length (num_to_var_int ?n @ concat (map serialized (blk_txs b)) @ rest)" by blast
  have l: "length (prev_block b) = 32" "length (merkle_root b) = 32" using assms(1) by (simp_all add: block_ok_def)
  obtain h ve pb mr ts bi no tx where b: "b = \<lparr>block_hash = h, blk_version = ve, prev_block = pb, merkle_root = mr,
    timestamp = ts, bits = bi, nonce = no, blk_txs = tx\<rparr>" by (rule block.cases)
  show ?thesis
    using assms n v k l
    by (simp add: b block_ok_def block_hydrate_def block_serialize_def block_header_def Let_def check_end_def copy_bytes_def reading_u32
        extract_num_to_var_int block_txs_ser)
qed

lemma block_txs_Ok:
  "block_txs sha256 unset slp_only n this it = Ok (this', r) \<Longrightarrow> \<exists>l. this' = this\<lparr>blk_txs := blk_txs this @ l\<rparr> \<and> length l \<le> n
     \<and> (\<forall>tx \<in> set l. parsed_tx sha256 unset tx)"
proof (induction n arbitrary: this it)
  case 0
  then show ?case by (intro exI [of _ "[]"]) simp
next
  case (Suc n)
  obtain v lt tt where u: "unset = (v, lt, tt)" by (rule prod_cases3)
  from Suc.prems obtain tx where tx: "tx_hydrate sha256 tt (transaction_new v lt tt) it = Ok tx"
    by (auto simp: u check_end_Ok split: res.splits)
  let ?obj = "if kept slp_only tx then this\<lparr>blk_txs := blk_txs this @ [tx]\<rparr> else this"
  have "block_txs sha256 unset slp_only n ?obj (drop (length (serialized tx)) it) = Ok (this', r)"
    using Suc.prems tx by (auto simp: u check_end_Ok kept_def split: if_splits)
  from Suc.IH [OF this] obtain l where l: "this' = ?obj\<lparr>blk_txs := blk_txs ?obj @ l\<rparr>" "length l \<le> n"
    "\<forall>tx \<in> set l. parsed_tx sha256 unset tx" by blast
  have "parsed_tx sha256 unset tx" using tx by (auto simp: parsed_tx_def u)
  with l show ?case by (intro exI [of _ "(if kept slp_only tx then [tx] else []) @ l"]) auto
qed

lemma block_hydrate_Ok:
  assumes "block_hydrate sha256 unset slp_only this it = Ok b" and "blk_txs this = []"
  shows "block_ok sha256 unset b"
proof -
  from assms(1) obtain ve r1 pb r2 mr r3 ts r4 bi r5 no r6 n r7 r8 where
    len: "length pb = 32" "length mr = 32"
    and c: "block_txs sha256 unset slp_only (unat (n :: u64)) (let b = this\<lparr>blk_version := ve, prev_block := pb, merkle_root := mr,
        timestamp := ts, bits := bi, nonce := no\<rparr> in b\<lparr>block_hash := sha256 (sha256 (block_header b))\<rparr>) r7 = Ok (b, r8)"
    by (auto simp: block_hydrate_def Let_def tx_Ok)
  define h where "h = (let b = this\<lparr>blk_version := ve, prev_block := pb, merkle_root := mr,
        timestamp := ts, bits := bi, nonce := no\<rparr> in b\<lparr>block_hash := sha256 (sha256 (block_header b))\<rparr>)"
  have h: "block_hash h = sha256 (sha256 (block_header h))" "length (prev_block h) = 32" "length (merkle_root h) = 32" "blk_txs h = []"
    using len assms(2) by (simp_all add: h_def Let_def block_header_def)
  have "block_txs sha256 unset slp_only (unat n) h r7 = Ok (b, r8)" using c by (simp only: h_def)
  from block_txs_Ok [OF this] obtain l where "b = h\<lparr>blk_txs := l\<rparr>" "length l \<le> unat n"
    "\<forall>tx \<in> set l. parsed_tx sha256 unset tx" using h by auto
  then show ?thesis using h unsigned_less [of n, where ?'a = nat] by (auto simp: block_ok_def block_header_def)
qed

text \<open>C25: a block that was parsed from any bytes, with any part of its transactions left, survives the
  cache: writing it and parsing it again, whatever follows in the file, gives the same block, its
  hash and every transaction included.\<close>

theorem cached_block_roundtrip:
  assumes "block_hydrate sha256 unset slp_only this it = Ok b" and "blk_txs this = []" and "blk_txs new = []"
    and "set l \<subseteq> set (blk_txs b)" and "length l \<le> length (blk_txs b)"
  shows "block_hydrate sha256 unset False new (block_serialize (b\<lparr>blk_txs := l\<rparr>) @ rest) = Ok (b\<lparr>blk_txs := l\<rparr>)"
proof -
  have "block_ok sha256 unset (b\<lparr>blk_txs := l\<rparr>)"
    using block_hydrate_Ok [OF assms(1,2)] assms(4,5) by (auto simp: block_ok_def block_header_def)
  from block_hydrate_ser [OF this assms(3)] show ?thesis by (simp add: kept_def)
qed

text \<open>A block with one transaction, a GENESIS of 100 tokens; the hash is the identity.\<close>

definition example_script :: bytes where
  "example_script = 0x6A # 4 # lokad_id @ 1 # 1 # 7 # ascii ''GENESIS''
     @ [0x4C, 0, 0x4C, 0, 0x4C, 0, 0x4C, 0, 1, 0, 0x4C, 0, 8, 0, 0, 0, 0, 0, 0, 0, 100]"

definition example_slp :: slp_transaction where
  "example_slp = the (slp_transaction_of_script 0 example_script)"

definition example_tx :: transaction where
  "example_tx = (let obj = ser_object id 0 2 example_ins [(0, example_script)] 7 in
     obj\<lparr>slp := example_slp\<lparr>slp_tokenid := txid obj\<rparr>\<rparr>)"

definition example_block :: block where
  "example_block = (let b = \<lparr>block_hash = [], blk_version = 1, prev_block = replicate 32 0, merkle_root = replicate 32 5,
     timestamp = 0, bits = 0, nonce = 0, blk_txs = [example_tx]\<rparr> in b\<lparr>block_hash := block_header b\<rparr>)"

lemma example_slp_facts:
  "slp_transaction_of_script 0 example_script = Some example_slp" "slp_type example_slp = TGenesis" "slp_token_type example_slp = 1"
  "\<exists>g. slp_tx example_slp = SlpGenesis g"
proof -
  have "slp_transaction_of_script 0 example_script \<noteq> None" by code_simp
  then show "slp_transaction_of_script 0 example_script = Some example_slp" by (simp add: example_slp_def)
  show "slp_type example_slp = TGenesis" "slp_token_type example_slp = 1" by code_simp+
  have "case slp_tx example_slp of SlpGenesis g \<Rightarrow> True | _ \<Rightarrow> False" by code_simp
  then show "\<exists>g. slp_tx example_slp = SlpGenesis g" by (cases "slp_tx example_slp") simp_all
qed

lemma example_parsed: "parsed_tx id (0, 0, 0) example_tx"
proof -
  have "set_slp 0 (ser_object id 0 2 example_ins [(0, example_script)] 7) = Ok example_tx"
    using example_slp_facts
    by (simp add: set_slp_def ser_object_def Let_def out_of_def is_op_return_def example_tx_def example_script_def)
  then have "tx_hydrate id 0 (transaction_new 0 0 0) (ser_tx 2 example_ins [(0, example_script)] 7 @ []) = Ok example_tx"
    by (subst tx_hydrate_ser_eq)
      (simp_all add: example_ins_def input_ok_def output_ok_def MAX_TX_SIZE_def example_script_def lokad_id_eq)
  then show ?thesis by (auto simp: parsed_tx_def)
qed

lemma example_block_ok: "block_ok id (0, 0, 0) example_block"
  using example_parsed by (simp add: block_ok_def example_block_def Let_def block_header_def)

theorem cached_block_roundtrip_witness:
  "block_hydrate id (0, 0, 0) False (example_block\<lparr>blk_txs := []\<rparr>) (block_serialize example_block @ [0xFF]) = Ok example_block"
proof -
  let ?n = "example_block\<lparr>blk_txs := []\<rparr>"
  have b: "block_hydrate id (0, 0, 0) False ?n (block_serialize example_block @ []) = Ok example_block"
    by (subst block_hydrate_ser [OF example_block_ok]) (simp_all add: kept_def example_block_def Let_def)
  show ?thesis
    using cached_block_roundtrip [OF b, of ?n "blk_txs example_block" "[0xFF]"] by simp
qed

end
