(* ===== verification/Bch.thy ===== *)
theory Bch
  imports UtxoDb Block
begin

text \<open>
  The bookkeeping of \<open>src/bch.cpp\<close>: a block's token outputs enter the database of unspent outputs, its
  token transactions the token database, and its inputs leave both; a mempool transaction enters
  the mempool part. Reading an output that a malformed message promises but the transaction does
  not have is the outcome \<open>Oob\<close>; a message of the wrong variant is \<open>Fail\<close>.
\<close>

record bch =
  b_utxodb :: utxodb
  b_slpdb :: slpdb

definition bch_new :: bch where
  "bch_new = \<lparr>b_utxodb = utxodb_new, b_slpdb = slpdb_new\<rparr>"

section \<open>Blocks\<close>

text \<open>The first loop: all inputs, the token outputs, and the token transactions.\<close>

fun block_outputs :: "transaction list \<Rightarrow> gs_output list parse" where
  "block_outputs [] = Ok []"
| "block_outputs (tx # txs) = res_bind (slp_outputs tx) (\<lambda>os. res_bind (block_outputs txs) (\<lambda>blk_outputs. Ok (os @ blk_outputs)))"

definition block_inputs :: "transaction list \<Rightarrow> outpoint list" where
  "block_inputs txs = concat (map inputs txs)"

definition block_slp_txs :: "transaction list \<Rightarrow> transaction list" where
  "block_slp_txs txs = filter (\<lambda>tx. slp_type (slp tx) \<noteq> TInvalid) txs"

text \<open>The loop over the outputs, with the outpoints for the rollback.\<close>

definition add_output :: "gs_output \<Rightarrow> utxodb \<times> outpoint list \<Rightarrow> utxodb \<times> outpoint list" where
  "add_output m st = (case st of (db, this_block_added) \<Rightarrow>
     if is_op_return m then (db, this_block_added)
     else let
         outpoint = outpoint_of m;
         outpoints = map_insert outpoint m (u_outpoint_map db);
         oid = the (outpoints outpoint)
       in (db\<lparr>u_outpoint_map := outpoints,
              u_scriptpubkey_to_output := index_add (out_script m) oid (u_scriptpubkey_to_output db),
              u_mempool_outpoint_map := (u_mempool_outpoint_map db)(outpoint := None),
              u_mempool_scriptpubkey_to_output := (case u_mempool_scriptpubkey_to_output db (out_script m) of
                  None \<Rightarrow> u_mempool_scriptpubkey_to_output db
                | Some S \<Rightarrow> (u_mempool_scriptpubkey_to_output db)(out_script m \<mapsto> out_erase oid S)),
              u_mempool_spent_confirmed_outpoints := u_mempool_spent_confirmed_outpoints db - {outpoint_of oid}\<rparr>,
           this_block_added @ [outpoint]))"

text \<open>The loop over the inputs: the confirmed output, then the mempool output.\<close>

definition spend_confirmed :: "outpoint \<Rightarrow> utxodb \<times> gs_output list \<Rightarrow> utxodb \<times> gs_output list" where
  "spend_confirmed m st = (case st of (db, this_block_removed) \<Rightarrow> (case u_outpoint_map db m of
       None \<Rightarrow> (db, this_block_removed)
     | Some u \<Rightarrow> (db\<lparr>u_scriptpubkey_to_output := index_remove u (u_scriptpubkey_to_output db),
           u_mempool_spent_confirmed_outpoints := (if u_scriptpubkey_to_output db (out_script u) = None
             then u_mempool_spent_confirmed_outpoints db else u_mempool_spent_confirmed_outpoints db - {outpoint_of u}),
           u_outpoint_map := (u_outpoint_map db)(m := None)\<rparr>,
         this_block_removed @ [u])))"

definition spend_mempool :: "outpoint \<Rightarrow> utxodb \<times> gs_output list \<Rightarrow> utxodb \<times> gs_output list" where
  "spend_mempool m st = (case st of (db, this_block_removed) \<Rightarrow> (case u_mempool_outpoint_map db m of
       None \<Rightarrow> (db, this_block_removed)
     | Some u \<Rightarrow> (db\<lparr>u_mempool_scriptpubkey_to_output := index_remove u (u_mempool_scriptpubkey_to_output db),
           u_mempool_outpoint_map := (u_mempool_outpoint_map db)(m := None)\<rparr>,
         this_block_removed @ [u])))"

definition spend_input :: "outpoint \<Rightarrow> (utxodb \<times> gs_output list) \<times> slpdb \<Rightarrow> (utxodb \<times> gs_output list) \<times> slpdb" where
  "spend_input m st = (spend_mempool m (spend_confirmed m (fst st)), spend_slp m (snd st))"

text \<open>At most \<open>rollback_depth\<close> blocks are kept for a rollback.\<close>

definition push_rollback :: "'a \<Rightarrow> 'a list \<Rightarrow> 'a list" where
  "push_rollback x q = (let q = q @ [x] in if length q > rollback_depth then tl q else q)"

definition bch_process_block :: "transaction list \<Rightarrow> bool \<Rightarrow> bch \<Rightarrow> bch parse" where
  "bch_process_block txs save_rollback b = res_bind (block_outputs txs) (\<lambda>blk_outputs. let
       db = b_utxodb b;
       db = db\<lparr>u_current_block_height := u_current_block_height db + 1\<rparr>;
       (db, this_block_added) = fold add_output blk_outputs (db, [])
     in case topological_sort (block_slp_txs txs) of
        None \<Rightarrow> Oob
      | Some slp_txs \<Rightarrow> (case add_transactions slp_txs (b_slpdb b) of
          VOk slpdb \<Rightarrow> (let ((db, this_block_removed), slpdb) = fold spend_input (block_inputs txs) ((db, []), slpdb)
            in Ok (b\<lparr>b_slpdb := slpdb, b_utxodb := (if save_rollback then db\<lparr>
                 u_last_block_added := push_rollback this_block_added (u_last_block_added db),
                 u_last_block_removed := push_rollback this_block_removed (u_last_block_removed db)\<rparr> else db)\<rparr>))
        | _ \<Rightarrow> Fail ''bad_variant_access''))"

section \<open>The mempool\<close>

definition add_mempool_output :: "gs_output \<Rightarrow> utxodb \<Rightarrow> utxodb" where
  "add_mempool_output m db = (if is_op_return m then db else let
       outpoints = map_insert (outpoint_of m) m (u_mempool_outpoint_map db);
       oid = the (outpoints (outpoint_of m))
     in db\<lparr>u_mempool_outpoint_map := outpoints,
           u_mempool_scriptpubkey_to_output := index_add (out_script m) oid (u_mempool_scriptpubkey_to_output db)\<rparr>)"

definition spend_in_mempool :: "outpoint \<Rightarrow> utxodb \<Rightarrow> utxodb" where
  "spend_in_mempool m db = (case u_mempool_outpoint_map db m of
       None \<Rightarrow> db\<lparr>u_mempool_spent_confirmed_outpoints := insert m (u_mempool_spent_confirmed_outpoints db)\<rparr>
     | Some u \<Rightarrow> db\<lparr>u_mempool_scriptpubkey_to_output := index_remove u (u_mempool_scriptpubkey_to_output db)\<rparr>)"

definition bch_process_mempool_tx :: "transaction \<Rightarrow> bch \<Rightarrow> bch parse" where
  "bch_process_mempool_tx tx b = res_bind (slp_outputs tx) (\<lambda>os. let
       db = fold spend_in_mempool (inputs tx) (fold add_mempool_output os (b_utxodb b))
     in if slp_type (slp tx) = TInvalid then Ok (b\<lparr>b_utxodb := db\<rparr>)
        else (case add_transaction tx (b_slpdb b) of
            VOk slpdb \<Rightarrow> Ok (b\<lparr>b_utxodb := db, b_slpdb := slpdb\<rparr>)
          | _ \<Rightarrow> Fail ''bad_variant_access''))"

section \<open>Each loop keeps the databases consistent\<close>

lemma add_output_ok:
  assumes "utxo_ok W db" and "genuine W m"
  shows "utxo_ok W (fst (add_output m (db, a)))"
    and "dom (u_outpoint_map (fst (add_output m (db, a)))) = dom (u_outpoint_map db) \<union> (if is_op_return m then {} else {outpoint_of m})"
proof -
  have ok: "table_ok W (u_outpoint_map db)" "table_ok W (u_mempool_outpoint_map db)"
    "index_sound (u_outpoint_map db) (u_scriptpubkey_to_output db)"
    "index_complete (u_outpoint_map db) (u_scriptpubkey_to_output db)"
    "index_sound (u_mempool_outpoint_map db) (u_mempool_scriptpubkey_to_output db)"
    using assms(1) by (simp_all add: utxo_ok_def)
  note ins = insert_genuine [OF ok(1) assms(2)]
  show "dom (u_outpoint_map (fst (add_output m (db, a)))) = dom (u_outpoint_map db) \<union> (if is_op_return m then {} else {outpoint_of m})"
    by (auto simp: add_output_def Let_def ins(1))
  let ?midx = "u_mempool_scriptpubkey_to_output db"
  let ?midx' = "case ?midx (out_script m) of None \<Rightarrow> ?midx | Some S \<Rightarrow> ?midx(out_script m \<mapsto> out_erase m S)"
  have "entries ?midx' k = entries (index_remove m ?midx) k" for k
    by (cases "?midx (out_script m)") (auto simp: entries_def [of ?midx] out_erase_def)
  then have mem: "index_sound ((u_mempool_outpoint_map db)(outpoint_of m := None)) ?midx'"
    using index_remove_genuine [OF ok(2) assms(2) ok(5)] index_sound_entries by blast
  have "table_ok W ((u_mempool_outpoint_map db)(outpoint_of m := None))" using ok(2) by (auto simp: table_ok_def)
  then show "utxo_ok W (fst (add_output m (db, a)))"
    using assms(1) mem index_add_sound(1) [OF ok(1) assms(2) ok(3)] index_add_complete [OF ok(1) assms(2) ok(3,4)] ins(2)
    by (simp add: add_output_def Let_def ins(1) utxo_ok_def cong: option.case_cong)
qed

lemma add_outputs_ok:
  assumes "utxo_ok W db" and "\<forall>m \<in> set ms. genuine W m"
  shows "utxo_ok W (fst (fold add_output ms (db, a)))
    \<and> dom (u_outpoint_map (fst (fold add_output ms (db, a)))) = dom (u_outpoint_map db) \<union> outpoint_of ` {m \<in> set ms. \<not> is_op_return m}"
  using assms
proof (induction ms arbitrary: db a)
  case (Cons m ms)
  obtain db1 a1 where s: "add_output m (db, a) = (db1, a1)" by (cases "add_output m (db, a)")
  note st = add_output_ok [OF Cons.prems(1), of m a, unfolded s]
  have "utxo_ok W db1" using st(1) Cons.prems(2) by simp
  from Cons.IH [OF this, of a1] Cons.prems(2) st(2) show ?case by (auto simp: s)
qed simp

lemma spend_confirmed_ok:
  assumes "utxo_ok W db"
  shows "utxo_ok W (fst (spend_confirmed m (db, r)))"
    and "dom (u_outpoint_map (fst (spend_confirmed m (db, r)))) = dom (u_outpoint_map db) - {m}"
proof -
  have ok: "table_ok W (u_outpoint_map db)" "index_sound (u_outpoint_map db) (u_scriptpubkey_to_output db)"
    "index_complete (u_outpoint_map db) (u_scriptpubkey_to_output db)"
    using assms by (simp_all add: utxo_ok_def)
  show "utxo_ok W (fst (spend_confirmed m (db, r)))"
  proof (cases "u_outpoint_map db m")
    case (Some u)
    have "table_ok W ((u_outpoint_map db)(m := None))" using ok(1) by (auto simp: table_ok_def)
    then show ?thesis
      using assms Some index_remove_ok [OF ok(1,2) Some] ok(3) by (simp add: spend_confirmed_def utxo_ok_def)
  qed (use assms in \<open>simp add: spend_confirmed_def\<close>)
  show "dom (u_outpoint_map (fst (spend_confirmed m (db, r)))) = dom (u_outpoint_map db) - {m}"
    by (auto simp: spend_confirmed_def split: option.split)
qed

lemma spend_mempool_ok:
  assumes "utxo_ok W db"
  shows "utxo_ok W (fst (spend_mempool m (db, r)))"
    and "u_outpoint_map (fst (spend_mempool m (db, r))) = u_outpoint_map db"
proof -
  have ok: "table_ok W (u_mempool_outpoint_map db)" "index_sound (u_mempool_outpoint_map db) (u_mempool_scriptpubkey_to_output db)"
    using assms by (simp_all add: utxo_ok_def)
  show "utxo_ok W (fst (spend_mempool m (db, r)))"
  proof (cases "u_mempool_outpoint_map db m")
    case (Some u)
    have "table_ok W ((u_mempool_outpoint_map db)(m := None))" using ok(1) by (auto simp: table_ok_def)
    then show ?thesis
      using assms Some index_remove_ok(1) [OF ok Some] by (simp add: spend_mempool_def utxo_ok_def)
  qed (use assms in \<open>simp add: spend_mempool_def\<close>)
  show "u_outpoint_map (fst (spend_mempool m (db, r))) = u_outpoint_map db"
    by (simp add: spend_mempool_def split: option.split)
qed

lemma spend_inputs_ok:
  assumes "utxo_ok W db"
  shows "utxo_ok W (fst (fst (fold spend_input ms ((db, r), d))))
    \<and> dom (u_outpoint_map (fst (fst (fold spend_input ms ((db, r), d))))) = dom (u_outpoint_map db) - set ms
    \<and> snd (fold spend_input ms ((db, r), d)) = fold spend_slp ms d"
  using assms
proof (induction ms arbitrary: db r d)
  case (Cons m ms)
  obtain db1 r1 where s1: "spend_confirmed m (db, r) = (db1, r1)" by (cases "spend_confirmed m (db, r)")
  obtain db2 r2 where s2: "spend_mempool m (db1, r1) = (db2, r2)" by (cases "spend_mempool m (db1, r1)")
  have 1: "utxo_ok W db1" "dom (u_outpoint_map db1) = dom (u_outpoint_map db) - {m}"
    using spend_confirmed_ok [OF Cons.prems, of m r] by (simp_all add: s1)
  have 2: "utxo_ok W db2" "u_outpoint_map db2 = u_outpoint_map db1"
    using spend_mempool_ok [OF 1(1), of m r1] by (simp_all add: s2)
  from Cons.IH [OF 2(1), of r2 "spend_slp m d"] 1(2) 2(2) show ?case by (auto simp: spend_input_def s1 s2)
qed simp

lemma add_mempool_output_ok:
  assumes "utxo_ok W db" and "genuine W m"
  shows "utxo_ok W (add_mempool_output m db) \<and> u_outpoint_map (add_mempool_output m db) = u_outpoint_map db"
proof -
  have ok: "table_ok W (u_mempool_outpoint_map db)" "index_sound (u_mempool_outpoint_map db) (u_mempool_scriptpubkey_to_output db)"
    using assms(1) by (simp_all add: utxo_ok_def)
  show ?thesis
    using assms(1) insert_genuine [OF ok(1) assms(2)] index_add_sound(1) [OF ok(1) assms(2) ok(2)]
    by (simp add: add_mempool_output_def Let_def utxo_ok_def)
qed

lemma spend_in_mempool_ok:
  assumes "utxo_ok W db"
  shows "utxo_ok W (spend_in_mempool m db) \<and> u_outpoint_map (spend_in_mempool m db) = u_outpoint_map db"
proof (cases "u_mempool_outpoint_map db m")
  case (Some u)
  have ok: "table_ok W (u_mempool_outpoint_map db)" "index_sound (u_mempool_outpoint_map db) (u_mempool_scriptpubkey_to_output db)"
    using assms by (simp_all add: utxo_ok_def)
  have "index_sound (u_mempool_outpoint_map db) (index_remove u (u_mempool_scriptpubkey_to_output db))"
    by (rule index_sound_mono [OF index_remove_ok(1) [OF ok Some]]) (auto simp: map_le_def)
  with Some assms show ?thesis by (simp add: spend_in_mempool_def utxo_ok_def)
qed (use assms in \<open>simp add: spend_in_mempool_def utxo_ok_def\<close>)

lemma mempool_folds_ok:
  "utxo_ok W db \<Longrightarrow> \<forall>m \<in> set ms. genuine W m \<Longrightarrow>
     utxo_ok W (fold add_mempool_output ms db) \<and> u_outpoint_map (fold add_mempool_output ms db) = u_outpoint_map db"
  "utxo_ok W db \<Longrightarrow>
     utxo_ok W (fold spend_in_mempool ps db) \<and> u_outpoint_map (fold spend_in_mempool ps db) = u_outpoint_map db"
proof -
  show "utxo_ok W db \<Longrightarrow> \<forall>m \<in> set ms. genuine W m \<Longrightarrow>
     utxo_ok W (fold add_mempool_output ms db) \<and> u_outpoint_map (fold add_mempool_output ms db) = u_outpoint_map db"
  proof (induction ms arbitrary: db)
    case (Cons m ms)
    have "utxo_ok W (add_mempool_output m db)" "u_outpoint_map (add_mempool_output m db) = u_outpoint_map db"
      using add_mempool_output_ok Cons.prems by auto
    with Cons.IH [of "add_mempool_output m db"] Cons.prems show ?case by simp
  qed simp
  show "utxo_ok W db \<Longrightarrow>
     utxo_ok W (fold spend_in_mempool ps db) \<and> u_outpoint_map (fold spend_in_mempool ps db) = u_outpoint_map db"
  proof (induction ps arbitrary: db)
    case (Cons p ps)
    have "utxo_ok W (spend_in_mempool p db)" "u_outpoint_map (spend_in_mempool p db) = u_outpoint_map db"
      using spend_in_mempool_ok Cons.prems by auto
    with Cons.IH [of "spend_in_mempool p db"] show ?case by simp
  qed simp
qed


section \<open>The databases as a state machine\<close>

text \<open>
  Blocks and mempool transactions in any order, with outputs that are genuine for \<open>W\<close>. The abstract
  machine is a set of unspent outpoints: a block adds the outpoints of its token outputs and
  removes those it spends, and a mempool transaction changes nothing.
\<close>

definition genuine_tx :: "(outpoint \<Rightarrow> gs_output) \<Rightarrow> transaction \<Rightarrow> bool" where
  "genuine_tx W tx \<longleftrightarrow> (\<forall>os. slp_outputs tx = Ok os \<longrightarrow> (\<forall>u \<in> set os. genuine W u))"

inductive bch_step :: "(outpoint \<Rightarrow> gs_output) \<Rightarrow> bch \<Rightarrow> bch \<Rightarrow> bool" for W where
  step_block: "\<forall>tx \<in> set txs. genuine_tx W tx \<Longrightarrow> bch_process_block txs save b = Ok b' \<Longrightarrow> bch_step W b b'"
| step_mempool_tx: "genuine_tx W tx \<Longrightarrow> bch_process_mempool_tx tx b = Ok b' \<Longrightarrow> bch_step W b b'"

inductive utxo_set_step :: "outpoint set \<Rightarrow> outpoint set \<Rightarrow> bool" where
  set_block: "utxo_set_step U ((U \<union> A) - I)"
| set_mempool_tx: "utxo_set_step U U"

definition utxo_set :: "bch \<Rightarrow> outpoint set" where
  "utxo_set b = dom (u_outpoint_map (b_utxodb b))"

lemma utxo_set_new [simp]: "utxo_set bch_new = {}"
  by (simp add: utxo_set_def bch_new_def utxodb_new_def)

text \<open>The outpoints a block adds.\<close>

definition block_added :: "gs_output list \<Rightarrow> outpoint set" where
  "block_added os = outpoint_of ` {u \<in> set os. \<not> is_op_return u}"

lemma block_added_simps [simp]:
  "block_added [] = {}"
  "block_added (u # us) = (if is_op_return u then block_added us else insert (outpoint_of u) (block_added us))"
  by (auto simp: block_added_def)

lemma block_outputs_genuine:
  "block_outputs txs = Ok os \<Longrightarrow> \<forall>tx \<in> set txs. genuine_tx W tx \<Longrightarrow> \<forall>u \<in> set os. genuine W u"
  by (induction txs arbitrary: os) (auto simp: res_bind_Ok genuine_tx_def)

lemma utxo_ok_fields [simp]:
  "utxo_ok W (db\<lparr>u_current_block_height := h\<rparr>) = utxo_ok W db"
  "utxo_ok W (db\<lparr>u_last_block_added := a, u_last_block_removed := r\<rparr>) = utxo_ok W db"
  by (simp_all add: utxo_ok_def)

lemma process_block_parts:
  assumes "bch_process_block txs save b = Ok b'"
  shows "\<exists>os db1 added slp_txs slp1 st. block_outputs txs = Ok os
    \<and> fold add_output os ((b_utxodb b)\<lparr>u_current_block_height := u_current_block_height (b_utxodb b) + 1\<rparr>, []) = (db1, added)
    \<and> topological_sort (block_slp_txs txs) = Some slp_txs \<and> add_transactions slp_txs (b_slpdb b) = VOk slp1
    \<and> st = fold spend_input (block_inputs txs) ((db1, []), slp1) \<and> b_slpdb b' = snd st
    \<and> b_utxodb b' = (let db = fst (fst st) in if save then db\<lparr>
         u_last_block_added := push_rollback added (u_last_block_added db),
         u_last_block_removed := push_rollback (snd (fst st)) (u_last_block_removed db)\<rparr> else db)"
proof -
  from assms obtain os where os: "block_outputs txs = Ok os" by (auto simp: bch_process_block_def res_bind_Ok)
  obtain db1 added where d: "fold add_output os ((b_utxodb b)\<lparr>u_current_block_height := u_current_block_height (b_utxodb b) + 1\<rparr>, []) = (db1, added)"
    by (cases "fold add_output os ((b_utxodb b)\<lparr>u_current_block_height := u_current_block_height (b_utxodb b) + 1\<rparr>, [])")
  from assms os d obtain slp_txs where s: "topological_sort (block_slp_txs txs) = Some slp_txs"
    by (cases "topological_sort (block_slp_txs txs)") (auto simp: bch_process_block_def Let_def)
  from assms os d s obtain slp1 where a: "add_transactions slp_txs (b_slpdb b) = VOk slp1"
    by (cases "add_transactions slp_txs (b_slpdb b)") (auto simp: bch_process_block_def Let_def)
  obtain db2 removed slp2 where st: "fold spend_input (block_inputs txs) ((db1, []), slp1) = ((db2, removed), slp2)"
    by (metis prod.exhaust)
  show ?thesis
    using assms os d s a st by (auto simp: bch_process_block_def Let_def)
qed

lemma process_block_total:
  assumes "block_outputs txs = Ok os" and "topological_sort (block_slp_txs txs) = Some l" and "\<forall>tx \<in> set l. slp_wf tx"
  shows "\<exists>b'. bch_process_block txs save b = Ok b'"
proof -
  obtain d where "add_transactions l (b_slpdb b) = VOk d" using add_transactions_total [OF assms(3)] by blast
  then show ?thesis using assms(1,2) by (simp add: bch_process_block_def Let_def split: prod.split)
qed

lemma process_mempool_tx_total:
  assumes "slp_outputs tx = Ok os" and "slp_wf tx"
  shows "\<exists>b'. bch_process_mempool_tx tx b = Ok b'"
proof -
  obtain d where "add_transaction tx (b_slpdb b) = VOk d" using add_transaction_total [OF assms(2)] by blast
  then show ?thesis using assms(1) by (simp add: bch_process_mempool_tx_def Let_def)
qed

lemma process_block_ok:
  assumes "utxo_ok W (b_utxodb b)" and "\<forall>tx \<in> set txs. genuine_tx W tx" and "bch_process_block txs save b = Ok b'"
  shows "utxo_ok W (b_utxodb b') \<and> (\<exists>os. block_outputs txs = Ok os
    \<and> utxo_set b' = (utxo_set b \<union> block_added os) - set (block_inputs txs))"
proof -
  from process_block_parts [OF assms(3)] obtain os db1 added slp1 st where
    p: "block_outputs txs = Ok os"
      "fold add_output os ((b_utxodb b)\<lparr>u_current_block_height := u_current_block_height (b_utxodb b) + 1\<rparr>, []) = (db1, added)"
      "st = fold spend_input (block_inputs txs) ((db1, []), slp1)"
    and u: "b_utxodb b' = (let db = fst (fst st) in if save then db\<lparr>
         u_last_block_added := push_rollback added (u_last_block_added db),
         u_last_block_removed := push_rollback (snd (fst st)) (u_last_block_removed db)\<rparr> else db)" by blast
  have "utxo_ok W ((b_utxodb b)\<lparr>u_current_block_height := u_current_block_height (b_utxodb b) + 1\<rparr>)" using assms(1) by simp
  from add_outputs_ok [OF this block_outputs_genuine [OF p(1) assms(2)], of "[]"] p(2)
  have 1: "utxo_ok W db1" "dom (u_outpoint_map db1) = utxo_set b \<union> block_added os"
    by (simp_all add: utxo_set_def block_added_def)
  from spend_inputs_ok [OF 1(1), of "block_inputs txs" "[]" slp1] p(3)
  have 2: "utxo_ok W (fst (fst st))" "dom (u_outpoint_map (fst (fst st))) = (utxo_set b \<union> block_added os) - set (block_inputs txs)"
    by (simp_all add: 1(2))
  with u p(1) show ?thesis by (cases save) (simp_all add: Let_def utxo_set_def)
qed

lemma process_mempool_tx_ok:
  assumes "utxo_ok W (b_utxodb b)" and "genuine_tx W tx" and "bch_process_mempool_tx tx b = Ok b'"
  shows "utxo_ok W (b_utxodb b') \<and> utxo_set b' = utxo_set b"
proof -
  from assms(3) obtain os where os: "slp_outputs tx = Ok os" by (auto simp: bch_process_mempool_tx_def res_bind_Ok)
  then have "\<forall>u \<in> set os. genuine W u" using assms(2) by (auto simp: genuine_tx_def)
  note a = mempool_folds_ok(1) [OF assms(1) this]
  note s = mempool_folds_ok(2) [OF conjunct1 [OF a], of "inputs tx"]
  have "b_utxodb b' = fold spend_in_mempool (inputs tx) (fold add_mempool_output os (b_utxodb b))"
    using assms(3) os by (auto simp: bch_process_mempool_tx_def Let_def split: if_splits vres.splits)
  with a s show ?thesis by (simp add: utxo_set_def)
qed

interpretation um: refinement "\<lambda>b. b = bch_new" "bch_step W" "\<lambda>b. utxo_ok W (b_utxodb b)" utxo_set utxo_set_step for W
proof
  show "utxo_ok W (b_utxodb b)" if "b = bch_new" for b using that by (simp add: bch_new_def utxo_ok_new)
  show "utxo_ok W (b_utxodb b')" if "utxo_ok W (b_utxodb b)" and "bch_step W b b'" for b b'
    using that(2,1) by cases (blast dest: process_block_ok process_mempool_tx_ok)+
  show "utxo_set_step (utxo_set b) (utxo_set b')" if "utxo_ok W (b_utxodb b)" and "bch_step W b b'" for b b'
    using that(2)
  proof cases
    case (step_block txs save)
    from process_block_ok [OF that(1) step_block] show ?thesis by (auto intro: set_block)
  next
    case (step_mempool_tx tx)
    from process_mempool_tx_ok [OF that(1) step_mempool_tx] show ?thesis by (auto intro: set_mempool_tx)
  qed
qed


section \<open>Runs\<close>

datatype bch_event = BlockArrives "transaction list" bool | TxArrives transaction

fun bch_run :: "bch_event list \<Rightarrow> bch \<Rightarrow> bch parse" where
  "bch_run [] b = Ok b"
| "bch_run (BlockArrives txs save # es) b = res_bind (bch_process_block txs save b) (bch_run es)"
| "bch_run (TxArrives tx # es) b = res_bind (bch_process_mempool_tx tx b) (bch_run es)"

text \<open>The same run on sets of outpoints.\<close>

fun utxo_run :: "bch_event list \<Rightarrow> outpoint set \<Rightarrow> outpoint set" where
  "utxo_run [] U = U"
| "utxo_run (BlockArrives txs save # es) U = utxo_run es
     ((U \<union> (case block_outputs txs of Ok os \<Rightarrow> block_added os | _ \<Rightarrow> {})) - set (block_inputs txs))"
| "utxo_run (TxArrives tx # es) U = utxo_run es U"

fun genuine_event :: "(outpoint \<Rightarrow> gs_output) \<Rightarrow> bch_event \<Rightarrow> bool" where
  "genuine_event W (BlockArrives txs save) \<longleftrightarrow> (\<forall>tx \<in> set txs. genuine_tx W tx)"
| "genuine_event W (TxArrives tx) \<longleftrightarrow> genuine_tx W tx"

lemma bch_run_ok:
  "bch_run es b = Ok b' \<Longrightarrow> list_all (genuine_event W) es \<Longrightarrow> utxo_ok W (b_utxodb b) \<Longrightarrow>
     utxo_ok W (b_utxodb b') \<and> utxo_set b' = utxo_run es (utxo_set b)"
proof (induction es arbitrary: b)
  case (Cons e es)
  show ?case
  proof (cases e)
    case (BlockArrives txs save)
    with Cons.prems obtain c where c: "bch_process_block txs save b = Ok c" "bch_run es c = Ok b'" by (auto simp: res_bind_Ok)
    have "\<forall>tx \<in> set txs. genuine_tx W tx" using Cons.prems(2) BlockArrives by simp
    from process_block_ok [OF Cons.prems(3) this c(1)] Cons.IH [OF c(2)] Cons.prems(2) BlockArrives show ?thesis by auto
  next
    case (TxArrives tx)
    with Cons.prems obtain c where c: "bch_process_mempool_tx tx b = Ok c" "bch_run es c = Ok b'" by (auto simp: res_bind_Ok)
    have "genuine_tx W tx" using Cons.prems(2) TxArrives by simp
    from process_mempool_tx_ok [OF Cons.prems(3) this c(1)] Cons.IH [OF c(2)] Cons.prems(2) TxArrives show ?thesis by auto
  qed
qed simp

text \<open>C29: the database of unspent outputs holds what its blocks leave unspent: after any run of blocks and
  mempool transactions from the start, with outputs that their ids determine, the table holds
  exactly the outpoints of the set-level run - token outputs added, inputs removed, mempool
  transactions without effect - and the index by script lists exactly the table's outputs of each
  script, each once.\<close>

theorem utxodb_refines_set:
  assumes "bch_run es bch_new = Ok b" and "list_all (genuine_event W) es"
  shows "utxo_set b = utxo_run es {}
    \<and> (\<forall>k. distinct (entries (u_scriptpubkey_to_output (b_utxodb b)) k)
        \<and> set (entries (u_scriptpubkey_to_output (b_utxodb b)) k)
          = {u. u_outpoint_map (b_utxodb b) (outpoint_of u) = Some u \<and> out_script u = k})"
proof -
  have ok: "utxo_ok W (b_utxodb b)" "utxo_set b = utxo_run es (utxo_set bch_new)"
    using bch_run_ok [OF assms um.inv_init [OF refl]] by blast+
  moreover have "utxo_set bch_new = {}" by simp
  moreover have "distinct (entries (u_scriptpubkey_to_output (b_utxodb b)) k)" for k
    using ok(1) index_sound_D(2) distinct_map unfolding utxo_ok_def by blast
  moreover have "set (entries (u_scriptpubkey_to_output (b_utxodb b)) k)
      = {u. u_outpoint_map (b_utxodb b) (outpoint_of u) = Some u \<and> out_script u = k}" for k
    using ok(1) index_sound_D(1) unfolding utxo_ok_def index_complete_def by blast
  ultimately show ?thesis by simp
qed

section \<open>No inflation\<close>

text \<open>C30: a block creates no tokens: with new transaction ids and no output spent twice, the amounts the
  token database holds unspent for a token grow by at most what the block's GENESIS and MINT
  messages of that token issue, whatever its SEND messages claim; burnt amounts may be lost.\<close>

theorem block_conserves_tokens:
  assumes "slpdb_ok (b_slpdb b)" and "bch_process_block txs save b = Ok b'"
    and "\<forall>tx \<in> set (block_slp_txs txs). fresh (b_slpdb b) (txid tx) \<and> slp_wf tx"
    and "distinct (map txid (block_slp_txs txs))" and "distinct (block_inputs (block_slp_txs txs))"
  shows "slpdb_ok (b_slpdb b') \<and> token_supply {} (b_slpdb b') k
    \<le> token_supply {} (b_slpdb b) k + (\<Sum>tx \<leftarrow> block_slp_txs txs. minted k tx)"
proof -
  let ?l = "block_slp_txs txs"
  from process_block_parts [OF assms(2)] obtain db1 slp_txs slp1 where
    p: "topological_sort ?l = Some slp_txs" "add_transactions slp_txs (b_slpdb b) = VOk slp1"
      "b_slpdb b' = snd (fold spend_input (block_inputs txs) ((db1, []), slp1))" by blast
  have perm: "mset slp_txs = mset ?l"
  proof -
    obtain ys where "topological_sort ?l = Some ys" "distinct (map txid ys)" "set ys = set ?l"
      using topological_sort_result [OF assms(4)] by blast
    then show ?thesis using p(1) assms(4) by (simp add: set_eq_iff_mset_eq_distinct [symmetric] distinct_map)
  qed
  then have mi: "mset (map inputs slp_txs) = mset (map inputs ?l)" "set slp_txs = set ?l"
    "mset (map txid slp_txs) = mset (map txid ?l)" "mset (map (minted k) slp_txs) = mset (map (minted k) ?l)"
    by (auto dest: mset_eq_setD)
  have "mset (concat (map inputs slp_txs)) = mset (block_inputs ?l)"
    using perm by (simp add: block_inputs_def mset_concat flip: sum_mset_sum_list)
  then have inputs: "distinct (concat (map inputs slp_txs))" "set (concat (map inputs slp_txs)) = set (block_inputs ?l)"
    using assms(5) mset_eq_imp_distinct_iff mset_eq_setD by blast+
  have ids: "distinct (map txid slp_txs)" using mi(3) assms(4) mset_eq_imp_distinct_iff by blast
  from add_transactions_spec [OF assms(1) _ ids inputs(1), of "{}"] assms(3) p(2) mi(2)
  have 1: "slpdb_ok slp1" "token_supply (set (block_inputs ?l)) slp1 k \<le> token_supply {} (b_slpdb b) k + sum_list (map (minted k) slp_txs)"
    by (auto simp: block_inputs_def)
  have sub: "set (block_inputs ?l) \<subseteq> set (block_inputs txs)" by (auto simp: block_inputs_def block_slp_txs_def)
  have sp: "b_slpdb b' = fold spend_slp (block_inputs txs) slp1"
  proof -
    have "snd (fold spend_input ms (st, d)) = fold spend_slp ms d" for ms st d
      by (induction ms arbitrary: st d) (simp_all add: spend_input_def)
    then show ?thesis by (simp add: p(3))
  qed
  have "token_supply {} (b_slpdb b') k \<le> token_supply (set (block_inputs ?l)) slp1 k"
    using spend_all [OF 1(1), of "block_inputs txs" "{}" k] token_supply_mono [OF 1(1) sub, of k] by (simp add: sp)
  moreover have "sum_list (map (minted k) slp_txs) = sum_list (map (minted k) ?l)"
    using mi(4) by (metis sum_mset_sum_list)
  ultimately show ?thesis using 1(2) spend_all [OF 1(1), of "block_inputs txs"] by (simp add: sp)
qed


section \<open>Queries\<close>

lemma sum_values_eq: "sum_values P us ret = ret + (\<Sum>u \<leftarrow> filter P us. out_value u)"
  by (induction us arbitrary: ret) (simp_all add: sum_values_def add.assoc)

lemma push_outputs_all:
  "length ret + length (filter P us) < limit \<Longrightarrow> push_outputs P limit us ret = ret @ filter P us"
  by (induction us arbitrary: ret) (auto simp: Let_def)

lemma sum_perm: "mset us = mset vs \<Longrightarrow> (\<Sum>u \<leftarrow> filter P us. out_value u) = (\<Sum>u \<leftarrow> filter P vs. out_value u)"
  by (metis mset_filter mset_map sum_mset_sum_list)

text \<open>the balance of a script is the sum, modulo 2^64, of the values of the outputs listed for it, as
  long as there are fewer than the limit of the listing, in whatever order the hash sets are
  walked.\<close>

theorem balance_is_sum_of_outputs:
  assumes "\<And>S. mset (ord S) = mset S" and "\<And>S. mset (ord' S) = mset S"
    and "length (filter (unspent db) (entries (u_scriptpubkey_to_output db) k))
      + length (entries (u_mempool_scriptpubkey_to_output db) k) < unat limit"
  shows "get_balance_by_scriptpubkey ord db k = (\<Sum>u \<leftarrow> get_outputs_by_scriptpubkey ord' db k limit. out_value u)"
proof -
  let ?c = "entries (u_scriptpubkey_to_output db) k" and ?m = "entries (u_mempool_scriptpubkey_to_output db) k"
  have bal: "get_balance_by_scriptpubkey ord db k
      = (\<Sum>u \<leftarrow> filter (unspent db) ?c. out_value u) + (\<Sum>u \<leftarrow> filter (\<lambda>_. True) ?m. out_value u)"
    using sum_perm [OF assms(1)] sum_perm [OF assms(1), of "\<lambda>_. True"]
    by (auto simp: get_balance_by_scriptpubkey_def sum_values_eq entries_def Let_def split: option.split)
  have len: "length (filter P (ord' S)) = length (filter P S)" for P S
    using assms(2) by (metis mset_filter size_mset)
  have nil: "ord' [] = []" using assms(2) [of "[]"] by simp
  have c: "(case u_scriptpubkey_to_output db k of None \<Rightarrow> [] | Some S \<Rightarrow> push_outputs (unspent db) (unat limit) (ord' S) [])
      = filter (unspent db) (ord' ?c)"
    using nil assms(2,3) len
    by (cases "u_scriptpubkey_to_output db k") (simp_all add: entries_def push_outputs_all)
  have "get_outputs_by_scriptpubkey ord' db k limit = filter (unspent db) (ord' ?c) @ filter (\<lambda>_. True) (ord' ?m)"
  proof (cases "u_mempool_scriptpubkey_to_output db k")
    case None
    then have "ord' ?m = []" using nil by (simp add: entries_def)
    with None assms(3) show ?thesis unfolding get_outputs_by_scriptpubkey_def c by (simp add: Let_def)
  next
    case (Some S)
    have l: "length (filter (unspent db) (ord' ?c)) + length (filter (\<lambda>_. True) (ord' S)) < unat limit"
      using assms(3) Some by (simp only: len) (simp add: entries_def)
    then have "push_outputs (\<lambda>_. True) (unat limit) (ord' S) (filter (unspent db) (ord' ?c))
      = filter (unspent db) (ord' ?c) @ filter (\<lambda>_. True) (ord' S)" by (rule push_outputs_all)
    with Some l show ?thesis unfolding get_outputs_by_scriptpubkey_def c by (simp add: Let_def entries_def)
  qed
  then show ?thesis
    using bal sum_perm [OF assms(2), of "unspent db" ?c] sum_perm [OF assms(2), of "\<lambda>_. True" ?m] by simp
qed

text \<open>an output created in the mempool and then spent there is no longer listed for its script, but a
  lookup by its outpoint still finds it.\<close>

theorem mempool_spend_still_found:
  assumes "bch_run es bch_new = Ok b" and "list_all (genuine_event W) es"
    and "bch_process_mempool_tx tx b = Ok b'" and "genuine_tx W tx"
    and "p \<in> set (inputs tx)" and "u_mempool_outpoint_map (b_utxodb b) p = Some u" and "u_outpoint_map (b_utxodb b) p = None"
  shows "lookup_outpoint (b_utxodb b') p = Some u
    \<and> u \<notin> set (entries (u_mempool_scriptpubkey_to_output (b_utxodb b')) (out_script u))
    \<and> u \<notin> set (entries (u_scriptpubkey_to_output (b_utxodb b')) (out_script u))"
proof -
  have ok: "utxo_ok W (b_utxodb b)" using bch_run_ok [OF assms(1,2) um.inv_init [OF refl]] by blast
  from assms(3) obtain os where os: "slp_outputs tx = Ok os" by (auto simp: bch_process_mempool_tx_def res_bind_Ok)
  then have gen: "\<forall>m \<in> set os. genuine W m" using assms(4) by (auto simp: genuine_tx_def)
  let ?d = "fold add_mempool_output os (b_utxodb b)"
  have b': "b_utxodb b' = fold spend_in_mempool (inputs tx) ?d"
    using assms(3) os by (auto simp: bch_process_mempool_tx_def Let_def split: if_splits vres.splits)
  have keep1: "u_mempool_outpoint_map (add_mempool_output m db) p = Some u" if "u_mempool_outpoint_map db p = Some u" for m db
    using that by (cases "p = outpoint_of m") (auto simp: add_mempool_output_def Let_def map_insert_def split: option.split)
  have keep: "u_mempool_outpoint_map db p = Some u \<Longrightarrow> u_mempool_outpoint_map (fold add_mempool_output ms db) p = Some u" for ms db
    by (induction ms arbitrary: db) (simp_all add: keep1)
  have keep': "u_mempool_outpoint_map (fold spend_in_mempool ps db) = u_mempool_outpoint_map db" for ps db
    by (induction ps arbitrary: db) (simp_all add: spend_in_mempool_def split: option.split)
  have d: "utxo_ok W ?d" "u_outpoint_map ?d = u_outpoint_map (b_utxodb b)" "u_mempool_outpoint_map ?d p = Some u"
    using mempool_folds_ok(1) [OF ok gen] keep assms(6) by auto
  have d': "utxo_ok W (b_utxodb b')" "u_outpoint_map (b_utxodb b') p = None" "u_mempool_outpoint_map (b_utxodb b') p = Some u"
    using mempool_folds_ok(2) [OF d(1), of "inputs tx"] d(2,3) keep' assms(7) by (simp_all add: b')
  have pu: "outpoint_of u = p" using d'(1,3) by (auto simp: utxo_ok_def table_ok_def)
  have gone: "u_mempool_outpoint_map db p = Some u \<Longrightarrow> utxo_ok W db \<Longrightarrow>
      p \<in> set ps \<or> u \<notin> set (entries (u_mempool_scriptpubkey_to_output db) (out_script u)) \<Longrightarrow>
      u \<notin> set (entries (u_mempool_scriptpubkey_to_output (fold spend_in_mempool ps db)) (out_script u))" for ps db
  proof (induction ps arbitrary: db)
    case (Cons q ps)
    have ok1: "utxo_ok W (spend_in_mempool q db)" using spend_in_mempool_ok Cons.prems(2) by blast
    have m1: "u_mempool_outpoint_map (spend_in_mempool q db) = u_mempool_outpoint_map db"
      by (simp add: spend_in_mempool_def split: option.split)
    have "u \<notin> set (entries (u_mempool_scriptpubkey_to_output (spend_in_mempool q db)) (out_script u))"
      if "q = p \<or> u \<notin> set (entries (u_mempool_scriptpubkey_to_output db) (out_script u))"
      using that Cons.prems(1) by (auto simp: spend_in_mempool_def set_out_erase split: option.split)
    with Cons.IH [OF _ ok1] Cons.prems m1 show ?case by auto
  qed simp
  have "u \<notin> set (entries (u_scriptpubkey_to_output (b_utxodb b')) (out_script u))"
    using d'(1,2) pu index_sound_D(1) unfolding utxo_ok_def by fastforce
  then show ?thesis
    using gone [OF d(3,1), of "inputs tx"] assms(5) d'(2,3) by (simp add: b' lookup_outpoint_def)
qed

section \<open>A small chain\<close>

text \<open>A GENESIS of 100 tokens and a SEND of 60 of them, in blocks and in the mempool.\<close>

definition demo_out :: "8 word \<Rightarrow> u32 \<Rightarrow> gs_output" where
  "demo_out t i = \<lparr>prev_tx_id = [t], prev_out_idx = i, out_value = 546, out_script = [t]\<rparr>"

definition demo_tx :: "8 word \<Rightarrow> outpoint list \<Rightarrow> slp_transaction_type \<Rightarrow> slp_tx_variant \<Rightarrow> transaction" where
  "demo_tx t ins ty v = \<lparr>txid = [t], version = 1, lock_time = 0, inputs = ins, outputs = [demo_out t 0, demo_out t 1],
     slp = \<lparr>slp_tokenid = [1], slp_token_type = 1, slp_type = ty, slp_tx = v\<rparr>, serialized = []\<rparr>"

definition demo_genesis :: transaction where
  "demo_genesis = demo_tx 1 [\<lparr>op_txid = [9], op_vout = 0\<rparr>] TGenesis (SlpGenesis \<lparr>ticker = [], name = [], document_uri = [],
     document_hash = [], decimals = 0, genesis_has_mint_baton = False, genesis_mint_baton_vout = 0, genesis_qty = 100\<rparr>)"

definition demo_send :: transaction where
  "demo_send = demo_tx 2 [\<lparr>op_txid = [1], op_vout = 1\<rparr>] TSend (SlpSend \<lparr>amounts = [60]\<rparr>)"

definition demo_W :: "outpoint \<Rightarrow> gs_output" where
  "demo_W p = demo_out (hd (op_txid p)) (op_vout p)"

lemmas demo_defs = demo_genesis_def demo_send_def demo_tx_def demo_out_def demo_W_def

lemma demo_outputs [simp]:
  "slp_outputs demo_genesis = Ok [demo_out 1 1]" "slp_outputs demo_send = Ok [demo_out 2 1]"
  by (simp_all add: slp_outputs_def demo_defs minting_outputs_def output_at_def)

lemma demo_genuine [simp]: "genuine_tx demo_W demo_genesis" "genuine_tx demo_W demo_send" "genuine demo_W (demo_out t i)"
  by (simp_all add: genuine_tx_def genuine_def demo_W_def outpoint_of_def demo_out_def)

lemma demo_sort [simp]:
  "topological_sort [demo_genesis] = Some [demo_genesis]"
  "topological_sort [demo_send, demo_genesis] = Some [demo_genesis, demo_send]"
  "topological_sort [demo_send] = Some [demo_send]"
  by (simp_all add: topological_sort_def topological_sort_internal_def demo_genesis_def demo_send_def demo_tx_def)

lemma demo_wf [simp]: "slp_wf demo_genesis" "slp_wf demo_send" "slp_type (slp demo_genesis) = TGenesis" "slp_type (slp demo_send) = TSend"
  by (simp_all add: slp_wf_def demo_defs MAX_TX_SIZE_def)

lemma demo_ids [simp]: "txid demo_genesis = [1]" "txid demo_send = [2]" "inputs demo_genesis = [\<lparr>op_txid = [9], op_vout = 0\<rparr>]"
    "inputs demo_send = [\<lparr>op_txid = [1], op_vout = 1\<rparr>]" "outpoint_of (demo_out t i) = \<lparr>op_txid = [t], op_vout = i\<rparr>"
    "is_op_return (demo_out 1 1) = False" "is_op_return (demo_out 2 1) = False" "out_script (demo_out t i) = [t]"
  by (simp_all add: demo_defs outpoint_of_def is_op_return_def)

lemma demo_block: "\<exists>b'. bch_process_block [demo_send, demo_genesis] save b = Ok b'"
   "\<exists>b'. bch_process_block [demo_genesis] save b = Ok b'" "\<exists>b'. bch_process_block [demo_send] save b = Ok b'"
  by (rule process_block_total, simp, simp add: block_slp_txs_def, simp)+

theorem utxodb_refines_set_witness:
  "\<exists>b. bch_run [BlockArrives [demo_send, demo_genesis] True] bch_new = Ok b \<and> utxo_set b = {\<lparr>op_txid = [2], op_vout = 1\<rparr>}"
proof -
  obtain b where b: "bch_run [BlockArrives [demo_send, demo_genesis] True] bch_new = Ok b" using demo_block(1) [of True bch_new] by auto
  from utxodb_refines_set [OF this, of demo_W]
  have "utxo_set b = utxo_run [BlockArrives [demo_send, demo_genesis] True] {}" by simp
  also have "\<dots> = {\<lparr>op_txid = [2], op_vout = 1\<rparr>}" by (auto simp: block_inputs_def)
  finally have "utxo_set b = {\<lparr>op_txid = [2], op_vout = 1\<rparr>}" .
  with b show ?thesis by blast
qed

theorem block_conserves_tokens_witness:
  "\<exists>b. bch_process_block [demo_send, demo_genesis] True bch_new = Ok b \<and> token_supply {} (b_slpdb b) [1] \<le> 100"
proof -
  obtain b where b: "bch_process_block [demo_send, demo_genesis] True bch_new = Ok b" using demo_block(1) by blast
  have "slpdb_ok (b_slpdb bch_new)" "\<And>t. fresh (b_slpdb bch_new) t" "token_supply {} (b_slpdb bch_new) [1] = 0"
    by (simp_all add: bch_new_def slpdb_new_def slpdb_ok_def fresh_def token_supply_def)
  moreover have "minted [1] demo_genesis = 100" "minted [1] demo_send = 0"
    by (simp_all add: minted_def demo_genesis_def demo_send_def demo_tx_def)
  ultimately have "token_supply {} (b_slpdb b) [1] \<le> 100"
    using block_conserves_tokens [OF _ b, of "[1]"] by (simp add: block_slp_txs_def block_inputs_def)
  with b show ?thesis by blast
qed

theorem balance_is_sum_of_outputs_witness:
  "get_balance_by_scriptpubkey rev (utxodb_new\<lparr>u_scriptpubkey_to_output := [[1] \<mapsto> [demo_out 1 1, demo_out 1 2]]\<rparr>) [1] = 1092"
  using balance_is_sum_of_outputs [of rev id "utxodb_new\<lparr>u_scriptpubkey_to_output := [[1] \<mapsto> [demo_out 1 1, demo_out 1 2]]\<rparr>" "[1]" 5]
  by (simp add: entries_def utxodb_new_def get_outputs_by_scriptpubkey_def unspent_def demo_out_def)

theorem mempool_spend_still_found_witness:
  "\<exists>b b'. bch_run [TxArrives demo_genesis] bch_new = Ok b \<and> bch_process_mempool_tx demo_send b = Ok b'
    \<and> lookup_outpoint (b_utxodb b') \<lparr>op_txid = [1], op_vout = 1\<rparr> = Some (demo_out 1 1)"
proof -
  obtain b where b: "bch_process_mempool_tx demo_genesis bch_new = Ok b" using process_mempool_tx_total [OF demo_outputs(1) demo_wf(1)] by blast
  then have u: "b_utxodb b = fold spend_in_mempool (inputs demo_genesis) (add_mempool_output (demo_out 1 1) utxodb_new)"
    by (auto simp: bch_process_mempool_tx_def Let_def bch_new_def split: vres.splits)
  have r: "bch_run [TxArrives demo_genesis] bch_new = Ok b" using b by simp
  obtain b' where b': "bch_process_mempool_tx demo_send b = Ok b'" using process_mempool_tx_total [OF demo_outputs(2) demo_wf(2)] by blast
  have "u_mempool_outpoint_map (b_utxodb b) \<lparr>op_txid = [1], op_vout = 1\<rparr> = Some (demo_out 1 1)"
    "u_outpoint_map (b_utxodb b) \<lparr>op_txid = [1], op_vout = 1\<rparr> = None"
    by (simp_all add: u add_mempool_output_def spend_in_mempool_def map_insert_def Let_def utxodb_new_def)
  with mempool_spend_still_found [OF r _ b', of demo_W] r b' show ?thesis by fastforce
qed

end
