(* ===== verification/Rollback.thy ===== *)
theory Rollback
  imports Bch
begin

text \<open>
  Undoing the last block with \<open>utxodb::rollback\<close> (\<open>src/utxodb.cpp\<close>): what a block stored for the
  rollback, what the rollback restores, and what it leaves behind.
\<close>

section \<open>What a block stores, and what a rollback does with it\<close>

text \<open>The outputs a block removes, when the mempool is empty.\<close>

lemma spend_inputs_removed:
  "table_ok W (u_outpoint_map db) \<Longrightarrow> u_mempool_outpoint_map db = Map.empty \<Longrightarrow>
     set (snd (fst (fold spend_input ms ((db, r), d)))) = set r \<union> W ` (dom (u_outpoint_map db) \<inter> set ms)
   \<and> u_last_block_added (fst (fst (fold spend_input ms ((db, r), d)))) = u_last_block_added db
   \<and> u_last_block_removed (fst (fst (fold spend_input ms ((db, r), d)))) = u_last_block_removed db
   \<and> u_mempool_outpoint_map (fst (fst (fold spend_input ms ((db, r), d)))) = Map.empty"
proof (induction ms arbitrary: db r d)
  case (Cons m ms)
  have sm: "spend_input m ((db, r), d) = (spend_confirmed m (db, r), spend_slp m d)"
    using Cons.prems(2) by (cases "spend_confirmed m (db, r)")
      (auto simp: spend_input_def spend_mempool_def spend_confirmed_def split: option.splits)
  show ?case
  proof (cases "u_outpoint_map db m")
    case None
    then have "dom (u_outpoint_map db) \<inter> set (m # ms) = dom (u_outpoint_map db) \<inter> set ms" by auto
    then show ?thesis using Cons.IH [OF Cons.prems, of r "spend_slp m d"] None by (simp add: sm spend_confirmed_def)
  next
    case (Some u)
    obtain db1 where s: "spend_confirmed m (db, r) = (db1, r @ [u])" "u_outpoint_map db1 = (u_outpoint_map db)(m := None)"
      "u_mempool_outpoint_map db1 = Map.empty" "u_last_block_added db1 = u_last_block_added db"
      "u_last_block_removed db1 = u_last_block_removed db"
      using Some Cons.prems(2) by (simp add: spend_confirmed_def)
    have "table_ok W (u_outpoint_map db1)" using Cons.prems(1) by (auto simp: s(2) table_ok_def)
    note IH = Cons.IH [OF this s(3), of "r @ [u]" "spend_slp m d"]
    have "u = W m" using table_ok_D [OF Cons.prems(1) Some] by blast
    moreover have "dom (u_outpoint_map db) \<inter> set (m # ms) = insert m (dom (u_outpoint_map db1) \<inter> set ms)"
      using Some by (auto simp: s(2))
    ultimately show ?thesis using IH s(4,5) by (simp add: sm s(1))
  qed
qed simp

lemma add_outputs_fields:
  "u_mempool_outpoint_map db = Map.empty \<Longrightarrow> fold add_output ms (db, a) = (db', a') \<Longrightarrow>
     u_mempool_outpoint_map db' = Map.empty \<and> a' = a @ map outpoint_of (filter (\<lambda>m. \<not> is_op_return m) ms)"
proof (induction ms arbitrary: db a)
  case (Cons m ms)
  obtain db1 a1 where s: "add_output m (db, a) = (db1, a1)" by (cases "add_output m (db, a)")
  then have "u_mempool_outpoint_map db1 = Map.empty" "a1 = a @ map outpoint_of (filter (\<lambda>m. \<not> is_op_return m) [m])"
    using Cons.prems(1) by (auto simp: add_output_def Let_def fun_upd_idem split: if_splits)
  with Cons.IH [of db1 a1] Cons.prems(2) s show ?case by simp
qed simp

lemma process_block_no_mempool:
  assumes "utxo_ok W (b_utxodb b)" and "\<forall>tx \<in> set txs. genuine_tx W tx" and "bch_process_block txs save b = Ok b'"
    and "u_mempool_outpoint_map (b_utxodb b) = Map.empty"
  shows "u_mempool_outpoint_map (b_utxodb b') = Map.empty"
proof -
  let ?d0 = "(b_utxodb b)\<lparr>u_current_block_height := u_current_block_height (b_utxodb b) + 1\<rparr>"
  from process_block_parts [OF assms(3)] obtain os db1 added slp1 st where p: "block_outputs txs = Ok os"
    "fold add_output os (?d0, []) = (db1, added)" "st = fold spend_input (block_inputs txs) ((db1, []), slp1)"
    and u: "b_utxodb b' = (let db = fst (fst st) in if save then db\<lparr>u_last_block_added := push_rollback added (u_last_block_added db),
         u_last_block_removed := push_rollback (snd (fst st)) (u_last_block_removed db)\<rparr> else db)" by blast
  have "utxo_ok W db1" using add_outputs_ok [of W ?d0 os "[]"] block_outputs_genuine [OF p(1) assms(2)] assms(1) p(2) by simp
  then have "table_ok W (u_outpoint_map db1)" by (simp add: utxo_ok_def)
  moreover have "u_mempool_outpoint_map db1 = Map.empty" using add_outputs_fields [OF _ p(2)] assms(4) by simp
  ultimately have "u_mempool_outpoint_map (fst (fst st)) = Map.empty" using spend_inputs_removed p(3) by blast
  then show ?thesis by (simp add: u Let_def)
qed

lemma restore_output_ok:
  assumes "utxo_ok W db" and "genuine W m"
  shows "utxo_ok W (restore_output m db) \<and> dom (u_outpoint_map (restore_output m db)) = insert (outpoint_of m) (dom (u_outpoint_map db))"
proof -
  have ok: "table_ok W (u_outpoint_map db)" "index_sound (u_outpoint_map db) (u_scriptpubkey_to_output db)"
    "index_complete (u_outpoint_map db) (u_scriptpubkey_to_output db)"
    using assms(1) by (simp_all add: utxo_ok_def)
  show ?thesis
    using assms(1) insert_genuine [OF ok(1) assms(2)] index_add_sound(1) [OF ok(1) assms(2) ok(2)]
      index_add_complete [OF ok(1) assms(2) ok(2,3)]
    by (simp add: restore_output_def Let_def utxo_ok_def)
qed

lemma restore_outputs_ok:
  "utxo_ok W db \<Longrightarrow> \<forall>m \<in> set ms. genuine W m \<Longrightarrow> utxo_ok W (fold restore_output ms db)
     \<and> dom (u_outpoint_map (fold restore_output ms db)) = outpoint_of ` set ms \<union> dom (u_outpoint_map db)"
proof (induction ms arbitrary: db)
  case (Cons m ms)
  have "utxo_ok W (restore_output m db)" "dom (u_outpoint_map (restore_output m db)) = insert (outpoint_of m) (dom (u_outpoint_map db))"
    using restore_output_ok [OF Cons.prems(1)] Cons.prems(2) by auto
  with Cons.IH [of "restore_output m db"] Cons.prems(2) show ?case by auto
qed simp

lemma unindex_ok:
  assumes "table_ok W (u_outpoint_map db)" and "index_sound (u_outpoint_map db) (u_scriptpubkey_to_output db)"
  shows "u_outpoint_map (unindex_outpoint p db) = u_outpoint_map db"
    and "index_sound (u_outpoint_map db) (u_scriptpubkey_to_output (unindex_outpoint p db))"
    and "set (entries (u_scriptpubkey_to_output (unindex_outpoint p db)) k)
      = {x \<in> set (entries (u_scriptpubkey_to_output db) k). outpoint_of x \<noteq> p}"
proof -
  let ?t = "u_outpoint_map db" and ?i = "u_scriptpubkey_to_output db"
  show "u_outpoint_map (unindex_outpoint p db) = ?t" by (simp add: unindex_outpoint_def split: option.split)
  have here: "?t p = Some x \<and> k = out_script x" if "x \<in> set (entries ?i k)" "outpoint_of x = p" for x k
    using index_sound_D(1) [OF assms(2) that(1)] that(2) by auto
  have mem: "set (entries (u_scriptpubkey_to_output (unindex_outpoint p db)) k) = {x \<in> set (entries ?i k). outpoint_of x \<noteq> p}" for k
  proof (cases "\<exists>u S. ?t p = Some u \<and> ?i (out_script u) = Some S \<and> outpoint_of u \<in> outpoint_of ` set S")
    case True
    then obtain u S where u: "?t p = Some u" "?i (out_script u) = Some S" "outpoint_of u \<in> outpoint_of ` set S" by blast
    then have "unindex_outpoint p db = db\<lparr>u_scriptpubkey_to_output := index_remove u ?i\<rparr>" by (simp add: unindex_outpoint_def)
    moreover have "outpoint_of u = p" using table_ok_D [OF assms(1) u(1)] by blast
    moreover have "outpoint_of x \<noteq> p" if "x \<in> set (entries ?i k)" "k \<noteq> out_script u" for x
    proof
      assume "outpoint_of x = p"
      with here [OF that(1)] u(1) have "x = u" "k = out_script x" by auto
      with that(2) show False by simp
    qed
    ultimately show ?thesis by (cases "k = out_script u") (auto simp: set_out_erase)
  next
    case False
    then have "unindex_outpoint p db = db" by (auto simp: unindex_outpoint_def split: option.split)
    moreover have "outpoint_of x \<noteq> p" if "x \<in> set (entries ?i k)" for x
    proof
      assume "outpoint_of x = p"
      with here [OF that] have "?t p = Some x" "k = out_script x" by blast+
      moreover from that have "\<exists>S. ?i k = Some S \<and> x \<in> set S" by (cases "?i k") (simp_all add: entries_def)
      ultimately show False using False by blast
    qed
    ultimately show ?thesis by auto
  qed
  then show "set (entries (u_scriptpubkey_to_output (unindex_outpoint p db)) k) = {x \<in> set (entries ?i k). outpoint_of x \<noteq> p}" .
  have "distinct (map outpoint_of (entries (u_scriptpubkey_to_output (unindex_outpoint p db)) k))" for k
    using index_sound_D(2) [OF assms(2)] by (auto simp: unindex_outpoint_def distinct_out_erase split: option.split)
  then show "index_sound ?t (u_scriptpubkey_to_output (unindex_outpoint p db))"
    using index_sound_D(1) [OF assms(2)] by (intro index_soundI) (auto simp: mem)
qed

lemma unindex_all:
  "table_ok W (u_outpoint_map db) \<Longrightarrow> index_sound (u_outpoint_map db) (u_scriptpubkey_to_output db) \<Longrightarrow>
     u_outpoint_map (fold unindex_outpoint ps db) = u_outpoint_map db
   \<and> set (entries (u_scriptpubkey_to_output (fold unindex_outpoint ps db)) k)
      = {x \<in> set (entries (u_scriptpubkey_to_output db) k). outpoint_of x \<notin> set ps}"
proof (induction ps arbitrary: db)
  case (Cons p ps)
  note u = unindex_ok [OF Cons.prems, of p]
  have "table_ok W (u_outpoint_map (unindex_outpoint p db))"
    "index_sound (u_outpoint_map (unindex_outpoint p db)) (u_scriptpubkey_to_output (unindex_outpoint p db))"
    using Cons.prems(1) u(2) by (simp_all add: u(1))
  from Cons.IH [OF this] u(1) u(3) [of k] show ?case by auto
qed simp


text \<open>A consistent database lists for a script exactly the genuine outputs of that script in its table.\<close>

lemma entries_utxo:
  assumes "utxo_ok W d"
  shows "set (entries (u_scriptpubkey_to_output d) k) = {x. outpoint_of x \<in> dom (u_outpoint_map d) \<and> genuine W x \<and> out_script x = k}"
proof -
  have i: "index_sound (u_outpoint_map d) (u_scriptpubkey_to_output d)" "index_complete (u_outpoint_map d) (u_scriptpubkey_to_output d)"
    "table_ok W (u_outpoint_map d)" using assms by (simp_all add: utxo_ok_def)
  have "outpoint_of x \<in> dom (u_outpoint_map d) \<and> genuine W x \<and> out_script x = k" if x: "x \<in> set (entries (u_scriptpubkey_to_output d) k)" for x
  proof -
    note s = index_sound_D(1) [OF i(1) x]
    then have "x = W (outpoint_of x)" using table_ok_D [OF i(3)] by blast
    then have "genuine W x" by (simp add: genuine_def)
    with s show ?thesis by (simp add: domI)
  qed
  moreover have "x \<in> set (entries (u_scriptpubkey_to_output d) (out_script x))" if x: "outpoint_of x \<in> dom (u_outpoint_map d)" "genuine W x" for x
  proof -
    obtain y where y: "u_outpoint_map d (outpoint_of x) = Some y" using x(1) by blast
    then have "y = x" using table_ok_D [OF i(3) y] x(2) by (simp add: genuine_def)
    then show ?thesis using i(2) y by (simp add: index_complete_def)
  qed
  ultimately show ?thesis by blast
qed


text \<open>What a block saves when it is processed with rollback: the outpoints it adds, and all outputs it removes.\<close>

lemma push_rollback_last: "push_rollback x q \<noteq> [] \<and> last (push_rollback x q) = x"
  by (cases q) (auto simp: push_rollback_def Let_def rollback_depth_def)

lemma saved_block:
  assumes "utxo_ok W (b_utxodb b)" and "\<forall>tx \<in> set txs. genuine_tx W tx" and "block_outputs txs = Ok os"
    and "bch_process_block txs True b = Ok b'" and "u_mempool_outpoint_map (b_utxodb b) = Map.empty"
  shows "\<exists>added removed. u_last_block_added (b_utxodb b') \<noteq> [] \<and> last (u_last_block_added (b_utxodb b')) = added
    \<and> u_last_block_removed (b_utxodb b') \<noteq> [] \<and> last (u_last_block_removed (b_utxodb b')) = removed
    \<and> set added = block_added os \<and> (\<forall>m \<in> set removed. genuine W m)
    \<and> outpoint_of ` set removed = (utxo_set b \<union> block_added os) \<inter> set (block_inputs txs)"
proof -
  let ?d0 = "(b_utxodb b)\<lparr>u_current_block_height := u_current_block_height (b_utxodb b) + 1\<rparr>"
  have gen: "\<forall>u \<in> set os. genuine W u" by (rule block_outputs_genuine [OF assms(3,2)])
  from process_block_parts [OF assms(4)] obtain os' db1 added slp1 st where p': "block_outputs txs = Ok os'"
    "fold add_output os' (?d0, []) = (db1, added)" "st = fold spend_input (block_inputs txs) ((db1, []), slp1)"
    and u': "b_utxodb b' = (let db = fst (fst st) in if True then db\<lparr>u_last_block_added := push_rollback added (u_last_block_added db),
         u_last_block_removed := push_rollback (snd (fst st)) (u_last_block_removed db)\<rparr> else db)" by blast
  have p: "fold add_output os (?d0, []) = (db1, added)" "st = fold spend_input (block_inputs txs) ((db1, []), slp1)"
    using p' assms(3) by simp_all
  have 1: "utxo_ok W db1" "dom (u_outpoint_map db1) = utxo_set b \<union> block_added os"
    using add_outputs_ok [of W ?d0 os "[]"] assms(1) gen p(1) by (simp_all add: utxo_set_def block_added_def)
  have f1: "u_mempool_outpoint_map db1 = Map.empty" "added = map outpoint_of (filter (\<lambda>m. \<not> is_op_return m) os)"
    using add_outputs_fields [OF _ p(1)] assms(5) by simp_all
  have t1: "table_ok W (u_outpoint_map db1)" using 1(1) by (simp add: utxo_ok_def)
  have R: "set (snd (fst st)) = W ` (dom (u_outpoint_map db1) \<inter> set (block_inputs txs))"
    using spend_inputs_removed [OF t1 f1(1), of "block_inputs txs" "[]" slp1] p(2) by simp
  have W1: "outpoint_of (W q) = q" "genuine W (W q)" if "q \<in> dom (u_outpoint_map db1)" for q
  proof -
    from that obtain v where "u_outpoint_map db1 q = Some v" by blast
    with table_ok_D [OF t1] show "outpoint_of (W q) = q" by blast
    then show "genuine W (W q)" by (simp add: genuine_def)
  qed
  have "outpoint_of ` set (snd (fst st)) = (utxo_set b \<union> block_added os) \<inter> set (block_inputs txs)"
    unfolding R 1(2) [symmetric] using W1(1) by (simp add: image_image cong: image_cong_simp)
  moreover have "\<forall>m \<in> set (snd (fst st)). genuine W m" using W1(2) by (auto simp: R)
  moreover have "set added = block_added os" using f1(2) by (auto simp: block_added_def)
  ultimately show ?thesis using u' by (simp add: Let_def push_rollback_last)
qed

text \<open>Rolling back the last block restores the index by script, but not the table: when the mempool is
  empty and the block's outpoints are new, every script lists again what it listed before the
  block, while the table keeps all outpoints the block added, so that a lookup by outpoint still
  finds outputs of the block that was undone.\<close>

theorem rollback_keeps_outpoints:
  assumes "bch_run es bch_new = Ok b" and "list_all (genuine_event W) es"
    and "\<forall>tx \<in> set txs. genuine_tx W tx" and "block_outputs txs = Ok os" and "bch_process_block txs True b = Ok b'"
    and "u_mempool_outpoint_map (b_utxodb b) = Map.empty" and "block_added os \<inter> utxo_set b = {}"
  shows "dom (u_outpoint_map (utxodb_rollback (b_utxodb b'))) = utxo_set b \<union> block_added os
    \<and> set (entries (u_scriptpubkey_to_output (utxodb_rollback (b_utxodb b'))) k)
      = set (entries (u_scriptpubkey_to_output (b_utxodb b)) k)"
proof -
  have ok0: "utxo_ok W (b_utxodb b)" using bch_run_ok [OF assms(1,2) um.inv_init [OF refl]] by blast
  obtain added removed where sv: "u_last_block_added (b_utxodb b') \<noteq> []" "last (u_last_block_added (b_utxodb b')) = added"
    "u_last_block_removed (b_utxodb b') \<noteq> []" "last (u_last_block_removed (b_utxodb b')) = removed"
    "set added = block_added os" "\<forall>m \<in> set removed. genuine W m"
    "outpoint_of ` set removed = (utxo_set b \<union> block_added os) \<inter> set (block_inputs txs)"
    using saved_block [OF ok0 assms(3-6)] by blast
  let ?db = "(b_utxodb b')\<lparr>u_last_block_removed := butlast (u_last_block_removed (b_utxodb b')),
    u_last_block_added := butlast (u_last_block_added (b_utxodb b'))\<rparr>"
  let ?r = "fold restore_output removed ?db"
  have rb: "utxodb_rollback (b_utxodb b') = fold unindex_outpoint added ?r"
    using sv(1-4) by (simp add: utxodb_rollback_def Let_def)
  have okb: "utxo_ok W ?db" "dom (u_outpoint_map ?db) = (utxo_set b \<union> block_added os) - set (block_inputs txs)"
    using process_block_ok [OF ok0 assms(3,5)] assms(4) by (simp_all add: utxo_ok_def utxo_set_def)
  note re = restore_outputs_ok [OF okb(1) sv(6)]
  have domr: "dom (u_outpoint_map ?r) = utxo_set b \<union> block_added os"
    unfolding conjunct2 [OF re] okb(2) sv(7) by (rule Int_Diff_Un)
  have okr: "utxo_ok W ?r" by (rule conjunct1 [OF re])
  have tr: "table_ok W (u_outpoint_map ?r)" "index_sound (u_outpoint_map ?r) (u_scriptpubkey_to_output ?r)"
    using okr by (simp_all add: utxo_ok_def)
  note un = unindex_all [OF tr, of added]
  have "set (entries (u_scriptpubkey_to_output (utxodb_rollback (b_utxodb b'))) k)
      = {x \<in> {x. outpoint_of x \<in> utxo_set b \<union> block_added os \<and> genuine W x \<and> out_script x = k}. outpoint_of x \<notin> block_added os}"
    using conjunct2 [OF un [of k]] by (simp only: rb sv(5) entries_utxo [OF okr] domr)
  also have "\<dots> = set (entries (u_scriptpubkey_to_output (b_utxodb b)) k)"
    unfolding entries_utxo [OF ok0] using assms(7) by (auto simp: utxo_set_def)
  finally show ?thesis using conjunct1 [OF un [of k]] domr by (simp add: rb)
qed

theorem rollback_keeps_outpoints_witness:
  "\<exists>b b'. bch_run [BlockArrives [demo_genesis] True] bch_new = Ok b \<and> bch_process_block [demo_send] True b = Ok b'
    \<and> \<lparr>op_txid = [2], op_vout = 1\<rparr> \<in> dom (u_outpoint_map (utxodb_rollback (b_utxodb b')))"
proof -
  obtain b where b: "bch_process_block [demo_genesis] True bch_new = Ok b" using demo_block(2) by blast
  obtain b' where b': "bch_process_block [demo_send] True b = Ok b'" using demo_block(3) by blast
  have r: "bch_run [BlockArrives [demo_genesis] True] bch_new = Ok b" using b by simp
  have e: "list_all (genuine_event demo_W) [BlockArrives [demo_genesis] True]" by simp
  have "utxo_set b = {\<lparr>op_txid = [1], op_vout = 1\<rparr>}"
    using conjunct2 [OF bch_run_ok [OF r e um.inv_init [OF refl]]]
    by (simp add: block_inputs_def)
  moreover have "u_mempool_outpoint_map (b_utxodb b) = Map.empty"
    by (rule process_block_no_mempool [OF um.inv_init [OF refl] _ b, of demo_W]) (simp_all add: bch_new_def utxodb_new_def)
  ultimately have "dom (u_outpoint_map (utxodb_rollback (b_utxodb b'))) = {\<lparr>op_txid = [1], op_vout = 1\<rparr>, \<lparr>op_txid = [2], op_vout = 1\<rparr>}"
    using rollback_keeps_outpoints [OF r e _ _ b', of "[demo_out 2 1]" "[]"] by auto
  with r b' show ?thesis by blast
qed

end
