(* ===== verification/UtxoSync.thy ===== *)
theory UtxoSync
  imports SyncServer Rollback
begin

text \<open>
  The handlers of \<open>server/gs++.cpp\<close> with the switch \<open>utxosync\<close>, which also feeds blocks and mempool
  transactions to the database of unspent outputs, and the two places of \<open>main\<close> that hand a block to
  the database a second time. With the switch off they are the handlers of \<open>SyncServer\<close>; with it on,
  the token state still takes the same steps, and every output of the database belongs to a
  transaction the validator has.
\<close>

section \<open>The handlers\<close>

record server =
  sv_sync :: sync_state
  sv_bch :: bch

definition server_new :: server where
  "server_new = \<lparr>sv_sync = sync_new, sv_bch = bch_new\<rparr>"

definition when_utxosync :: "bool \<Rightarrow> (bch \<Rightarrow> bch parse) \<Rightarrow> bch \<Rightarrow> bch option" where
  "when_utxosync utxosync f b = (if utxosync then (case f b of Ok b \<Rightarrow> Some b | _ \<Rightarrow> None) else Some b)"

definition slpsync_process_block ::
    "bool \<Rightarrow> (tokenid set \<Rightarrow> tokenid list) \<Rightarrow> bool \<Rightarrow> transaction list \<Rightarrow> server \<Rightarrow> (transaction list \<times> server) option" where
  "slpsync_process_block utxosync ord trusted txs s =
     Option.bind (when_utxosync utxosync (bch_process_block txs True) (sv_bch s)) (\<lambda>b.
     case process_block ord trusted txs (sv_sync s) of VOk (l, y) \<Rightarrow> Some (l, \<lparr>sv_sync = y, sv_bch = b\<rparr>) | _ \<Rightarrow> None)"

text \<open>What \<open>main\<close> does with a fetched or cached block: the handler, and the database once more.\<close>

definition process_chain_block ::
    "bool \<Rightarrow> (tokenid set \<Rightarrow> tokenid list) \<Rightarrow> bool \<Rightarrow> transaction list \<Rightarrow> server \<Rightarrow> (transaction list \<times> server) option" where
  "process_chain_block utxosync ord trusted txs s =
     Option.bind (slpsync_process_block utxosync ord trusted txs s) (\<lambda>(l, s).
     Option.bind (when_utxosync utxosync (bch_process_block txs True) (sv_bch s)) (\<lambda>b. Some (l, s\<lparr>sv_bch := b\<rparr>)))"

fun mempool_txs :: "transaction list \<Rightarrow> bch \<Rightarrow> bch parse" where
  "mempool_txs [] b = Ok b"
| "mempool_txs (tx # txs) b = res_bind (bch_process_mempool_tx tx b) (mempool_txs txs)"

text \<open>The hash map of the accepted transactions is walked twice in the same order.\<close>

definition slpsync_process_mempool ::
    "bool \<Rightarrow> (tokenid set \<Rightarrow> tokenid list) \<Rightarrow> transaction list \<Rightarrow> server \<Rightarrow> server option" where
  "slpsync_process_mempool utxosync ord txs s = (let mg = txgraph_clear (sy_mg (sv_sync s)) in
     case accept_txs False txs (sy_validator (sv_sync s)) Map.empty [] of
       VOk (V, valid_txs, _) \<Rightarrow>
         Option.bind (when_utxosync utxosync (mempool_txs (concat (map (\<lambda>k. the (valid_txs k)) (ord (dom valid_txs))))) (sv_bch s)) (\<lambda>b.
         Some \<lparr>sv_sync = (sv_sync s)\<lparr>sy_validator := V, sy_mg := insert_valid ord valid_txs mg\<rparr>, sv_bch = b\<rparr>)
     | _ \<Rightarrow> None)"

definition slpsync_process_tx :: "bool \<Rightarrow> transaction \<Rightarrow> server \<Rightarrow> (bool \<times> server) option" where
  "slpsync_process_tx utxosync tx s =
     Option.bind (when_utxosync utxosync (bch_process_mempool_tx tx) (sv_bch s)) (\<lambda>b.
     case process_tx tx (sv_sync s) of VOk (ok, y) \<Rightarrow> Some (ok, \<lparr>sv_sync = y, sv_bch = b\<rparr>) | _ \<Rightarrow> None)"

section \<open>The server as a machine\<close>

text \<open>
  Parsed transactions, with \<open>X\<close> the transaction an id names: the message fits its type, and the
  outputs carry the id and their number.
\<close>

definition output_named :: "(txid \<Rightarrow> transaction) \<Rightarrow> outpoint \<Rightarrow> gs_output" where
  "output_named X p = outputs (X (op_txid p)) ! unat (op_vout p)"

definition placed_tx :: "(txid \<Rightarrow> transaction) \<Rightarrow> transaction \<Rightarrow> bool" where
  "placed_tx X tx \<longleftrightarrow> X (txid tx) = tx \<and> slp_wf tx \<and> length (outputs tx) < MAX_TX_SIZE
     \<and> (\<forall>i < length (outputs tx). outpoint_of (outputs tx ! i) = \<lparr>op_txid = txid tx, op_vout = of_nat i\<rparr>)"

inductive server_step :: "bool \<Rightarrow> (txid \<Rightarrow> transaction) \<Rightarrow> server \<times> txid set \<Rightarrow> server \<times> txid set \<Rightarrow> bool" for utxosync X where
  server_block: "enumerates ord \<Longrightarrow> list_all (placed_tx X) txs \<Longrightarrow> slpsync_process_block utxosync ord trusted txs s = Some (l, s') \<Longrightarrow>
     server_step utxosync X (s, T) (s', trust trusted txs T)"
| server_chain_block: "enumerates ord \<Longrightarrow> list_all (placed_tx X) txs \<Longrightarrow> process_chain_block utxosync ord trusted txs s = Some (l, s') \<Longrightarrow>
     server_step utxosync X (s, T) (s', trust trusted txs T)"
| server_mempool: "enumerates ord \<Longrightarrow> list_all (placed_tx X) txs \<Longrightarrow> slpsync_process_mempool utxosync ord txs s = Some s' \<Longrightarrow>
     server_step utxosync X (s, T) (s', T)"
| server_tx: "placed_tx X tx \<Longrightarrow> slpsync_process_tx utxosync tx s = Some (b, s') \<Longrightarrow> server_step utxosync X (s, T) (s', T)"

text \<open>The token state takes the steps of \<open>SyncServer\<close>, whatever the switch says.\<close>

lemma placed_wf: "list_all (placed_tx X) txs \<Longrightarrow> list_all slp_wf txs"
  by (auto simp: list_all_iff placed_tx_def)

lemma block_sync:
  "slpsync_process_block utxosync ord trusted txs s = Some (l, s') \<Longrightarrow> process_block ord trusted txs (sv_sync s) = VOk (l, sv_sync s')"
  by (cases "process_block ord trusted txs (sv_sync s)") (auto simp: slpsync_process_block_def bind_eq_Some_conv)

lemma chain_block_sync:
  "process_chain_block utxosync ord trusted txs s = Some (l, s') \<Longrightarrow> process_block ord trusted txs (sv_sync s) = VOk (l, sv_sync s')"
  by (auto simp: process_chain_block_def bind_eq_Some_conv dest!: block_sync)

lemma mempool_sync:
  "slpsync_process_mempool utxosync ord txs s = Some s' \<Longrightarrow> process_mempool ord txs (sv_sync s) = VOk (sv_sync s')"
  by (cases "accept_txs False txs (sy_validator (sv_sync s)) Map.empty []")
    (auto simp: slpsync_process_mempool_def process_mempool_def Let_def bind_eq_Some_conv)

lemma tx_sync: "slpsync_process_tx utxosync tx s = Some (b, s') \<Longrightarrow> process_tx tx (sv_sync s) = VOk (b, sv_sync s')"
  by (cases "process_tx tx (sv_sync s)") (auto simp: slpsync_process_tx_def bind_eq_Some_conv)

lemma server_step_sync: "server_step utxosync X st st' \<Longrightarrow> sync_step (map_prod sv_sync id st) (map_prod sv_sync id st')"
  by (erule server_step.cases)
    (auto dest!: block_sync chain_block_sync mempool_sync tx_sync placed_wf simp: placed_tx_def intro: sync_step.intros)


section \<open>What the validator knows\<close>

lemma accept_txs_knows:
  "accept_txs trusted txs V m l = VOk (V', m', l') \<Longrightarrow>
     (\<forall>t tx. transaction_map V' t = Some tx \<longrightarrow> transaction_map V t = Some tx \<or> tx \<in> set txs \<and> txid tx = t)
     \<and> transaction_map V \<subseteq>\<^sub>m transaction_map V'
     \<and> (\<forall>tx \<in> set txs. slp_type (slp tx) \<noteq> TInvalid \<longrightarrow> txid tx \<in> dom (transaction_map V'))"
proof (induction txs arbitrary: V m l)
  case (Cons tx txs)
  show ?case
  proof (cases "validator_has V (txid tx)")
    case True
    then have "txid tx \<in> dom (transaction_map V)" by (auto simp: validator_has_def)
    with Cons.IH [of V m l] Cons.prems True show ?thesis by (auto dest: map_le_Some)
  next
    case False
    then obtain ok W where W: "add_tx 2 tx trusted V = VOk (ok, W)"
      using Cons.prems by (cases "add_tx 2 tx trusted V") auto
    note n = add_tx_new [OF W False]
    have le: "transaction_map V \<subseteq>\<^sub>m transaction_map W" using n(2) False by (auto simp: validator_has_def map_le_def)
    have IH: "(\<forall>t y. transaction_map V' t = Some y \<longrightarrow> transaction_map W t = Some y \<or> y \<in> set txs \<and> txid y = t)
     \<and> transaction_map W \<subseteq>\<^sub>m transaction_map V'
     \<and> (\<forall>y \<in> set txs. slp_type (slp y) \<noteq> TInvalid \<longrightarrow> txid y \<in> dom (transaction_map V'))"
      using Cons.prems False W Cons.IH [of W] by (simp split: if_splits)
    moreover have "txid tx \<in> dom (transaction_map V')" if "slp_type (slp tx) \<noteq> TInvalid"
    proof -
      have "txid tx \<in> dom (transaction_map W)" using that by (simp add: n(2))
      then show ?thesis using IH map_le_implies_dom_le by blast
    qed
    moreover have "transaction_map V t = Some y \<or> y = tx \<and> txid tx = t" if "transaction_map W t = Some y" for t y
      using that n(2) by (auto split: if_splits)
    ultimately show ?thesis using le map_le_trans by (auto; blast)
  qed
qed simp


text \<open>The validator holds placed transactions under their ids, and all it was given.\<close>

definition known_txs :: "(txid \<Rightarrow> transaction) \<Rightarrow> slp_validator \<Rightarrow> bool" where
  "known_txs X V \<longleftrightarrow> (\<forall>t tx. transaction_map V t = Some tx \<longrightarrow> txid tx = t \<and> placed_tx X tx)"

definition learned :: "slp_validator \<Rightarrow> transaction list \<Rightarrow> slp_validator \<Rightarrow> bool" where
  "learned V txs V' \<longleftrightarrow> transaction_map V \<subseteq>\<^sub>m transaction_map V'
     \<and> (\<forall>tx \<in> set txs. slp_type (slp tx) \<noteq> TInvalid \<longrightarrow> txid tx \<in> dom (transaction_map V'))"

lemma accept_txs_known:
  assumes "accept_txs trusted txs V m l = VOk (V', m', l')" and "known_txs X V" and "list_all (placed_tx X) txs"
  shows "known_txs X V' \<and> learned V txs V'"
proof -
  note k = accept_txs_knows [OF assms(1)]
  have "txid tx = t \<and> placed_tx X tx" if "transaction_map V' t = Some tx" for t tx
    using k that assms(2,3) unfolding known_txs_def list_all_iff by blast
  with k show ?thesis by (simp add: known_txs_def learned_def)
qed

lemma process_block_known:
  assumes "process_block ord trusted txs s = VOk (l, s')" and "known_txs X (sy_validator s)" and "list_all (placed_tx X) txs"
  shows "known_txs X (sy_validator s') \<and> learned (sy_validator s) txs (sy_validator s')"
proof -
  obtain V m where a: "accept_txs trusted txs (sy_validator s) Map.empty [] = VOk (V, m, l)" "sy_validator s' = V"
    using assms(1) by (cases "accept_txs trusted txs (sy_validator s) Map.empty []") (auto simp: process_block_def)
  from accept_txs_known [OF a(1) assms(2,3)] a(2) show ?thesis by simp
qed

lemma process_tx_known:
  assumes "process_tx tx s = VOk (b, s')" and "known_txs X (sy_validator s)" and "placed_tx X tx"
  shows "known_txs X (sy_validator s') \<and> learned (sy_validator s) [tx] (sy_validator s')"
proof (cases "slp_type (slp tx) = TInvalid \<or> validator_has (sy_validator s) (txid tx)")
  case True
  then show ?thesis using assms(1,2) by (auto simp: process_tx_def learned_def validator_has_def split: if_splits)
next
  case False
  then obtain ok V where W: "add_tx 2 tx False (sy_validator s) = VOk (ok, V)"
    using assms(1) by (cases "add_tx 2 tx False (sy_validator s)") (auto simp: process_tx_def)
  have V: "sy_validator s' = V" using assms(1) False W by (auto simp: process_tx_def Let_def split: if_splits)
  have "\<not> validator_has (sy_validator s) (txid tx)" using False by simp
  note n = add_tx_new(2) [OF W this]
  have "transaction_map (sy_validator s) \<subseteq>\<^sub>m transaction_map V" using n False by (auto simp: validator_has_def map_le_def)
  with n False assms(2,3) show ?thesis by (auto simp: V known_txs_def learned_def)
qed


section \<open>The outputs in the database\<close>

text \<open>An outpoint of the database names an output of a transaction the validator has.\<close>

definition backed :: "(txid \<Rightarrow> transaction) \<Rightarrow> slp_validator \<Rightarrow> outpoint \<Rightarrow> bool" where
  "backed X V p \<longleftrightarrow> op_txid p \<in> dom (transaction_map V) \<and> unat (op_vout p) < length (outputs (X (op_txid p)))"

definition db_ok :: "(txid \<Rightarrow> transaction) \<Rightarrow> slp_validator \<Rightarrow> utxodb \<Rightarrow> bool" where
  "db_ok X V db \<longleftrightarrow> utxo_ok (output_named X) db
     \<and> (\<forall>p \<in> dom (u_outpoint_map db) \<union> dom (u_mempool_outpoint_map db). backed X V p)"

lemma backed_learned: "backed X V p \<Longrightarrow> learned V txs V' \<Longrightarrow> backed X V' p"
  by (auto simp: backed_def learned_def dest: map_le_Some)

lemma output_at_set: "output_at tx i = Ok u \<Longrightarrow> u \<in> set (outputs tx)"
  by (auto simp: output_at_def split: if_splits)

lemma slp_outputs_set: "slp_outputs tx = Ok os \<Longrightarrow> u \<in> set os \<Longrightarrow> u \<in> set (outputs tx) \<and> slp_tx (slp tx) \<noteq> SlpInvalid"
  by (auto simp: slp_outputs_def minting_outputs_def res_bind_Ok dest: output_at_set in_set_dropD in_set_takeD
      split: slp_tx_variant.splits if_splits)

text \<open>A token output of a placed transaction.\<close>

lemma placed_output:
  assumes "placed_tx X tx" and "slp_outputs tx = Ok os" and "u \<in> set os"
  shows "genuine (output_named X) u \<and> op_txid (outpoint_of u) = txid tx \<and> slp_type (slp tx) \<noteq> TInvalid
    \<and> unat (op_vout (outpoint_of u)) < length (outputs (X (txid tx)))"
proof -
  have u: "u \<in> set (outputs tx)" "slp_tx (slp tx) \<noteq> SlpInvalid" using slp_outputs_set [OF assms(2,3)] by auto
  then obtain i where i: "i < length (outputs tx)" "u = outputs tx ! i" by (auto simp: in_set_conv_nth)
  have p: "X (txid tx) = tx" "slp_wf tx" "length (outputs tx) < MAX_TX_SIZE"
    "outpoint_of u = \<lparr>op_txid = txid tx, op_vout = of_nat i\<rparr>" using assms(1) i by (auto simp: placed_tx_def)
  then have "unat (of_nat i :: u32) = i" using i(1) by (simp add: unat_of_nat MAX_TX_SIZE_def)
  moreover have "slp_type (slp tx) \<noteq> TInvalid" using u(2) p(2) by (auto simp: slp_wf_def split: slp_tx_variant.splits)
  ultimately show ?thesis using i p by (simp add: genuine_def output_named_def)
qed

lemma placed_genuine: "placed_tx X tx \<Longrightarrow> genuine_tx (output_named X) tx"
  by (auto simp: genuine_tx_def dest: placed_output)

lemma block_outputs_set: "block_outputs txs = Ok os \<Longrightarrow> u \<in> set os \<Longrightarrow> \<exists>tx \<in> set txs. \<exists>os'. slp_outputs tx = Ok os' \<and> u \<in> set os'"
  by (induction txs arbitrary: os) (auto simp: res_bind_Ok)

text \<open>A block only removes from the mempool part.\<close>

lemma add_output_mempool:
  "u_mempool_outpoint_map (fst (add_output m st)) \<subseteq>\<^sub>m u_mempool_outpoint_map (fst st)"
  by (cases st) (auto simp: add_output_def Let_def map_le_def)

lemma spend_input_mempool:
  "u_mempool_outpoint_map (fst (fst (spend_input m st))) \<subseteq>\<^sub>m u_mempool_outpoint_map (fst (fst st))"
proof -
  have "u_mempool_outpoint_map (fst (spend_confirmed m y)) = u_mempool_outpoint_map (fst y)" for y
    by (cases y) (simp add: spend_confirmed_def split: option.split)
  moreover have "u_mempool_outpoint_map (fst (spend_mempool m y)) \<subseteq>\<^sub>m u_mempool_outpoint_map (fst y)" for y
    by (cases y) (auto simp: spend_mempool_def map_le_def split: option.split)
  ultimately show ?thesis by (metis fst_conv spend_input_def)
qed

lemma fold_map_le:
  assumes "\<And>m st. f (g m st) \<subseteq>\<^sub>m f st"
  shows "f (fold g ms st) \<subseteq>\<^sub>m f st"
proof (induction ms arbitrary: st)
  case (Cons m ms)
  show ?case using map_le_trans [OF Cons.IH [of "g m st"] assms] by simp
qed simp

lemma process_block_mempool:
  assumes "bch_process_block txs save b = Ok b'"
  shows "u_mempool_outpoint_map (b_utxodb b') \<subseteq>\<^sub>m u_mempool_outpoint_map (b_utxodb b)"
proof -
  have a: "u_mempool_outpoint_map (fst (fold add_output ms st)) \<subseteq>\<^sub>m u_mempool_outpoint_map (fst st)" for ms st
    by (rule fold_map_le [where f = "\<lambda>st. u_mempool_outpoint_map (fst st)"]) (rule add_output_mempool)
  have c: "u_mempool_outpoint_map (fst (fst (fold spend_input ms st))) \<subseteq>\<^sub>m u_mempool_outpoint_map (fst (fst st))" for ms st
    by (rule fold_map_le [where f = "\<lambda>st. u_mempool_outpoint_map (fst (fst st))"]) (rule spend_input_mempool)
  let ?d0 = "(b_utxodb b)\<lparr>u_current_block_height := u_current_block_height (b_utxodb b) + 1\<rparr>"
  from process_block_parts [OF assms] obtain os db1 added slp1 st where
    p: "fold add_output os (?d0, []) = (db1, added)" "st = fold spend_input (block_inputs txs) ((db1, []), slp1)"
    and u: "b_utxodb b' = (let db = fst (fst st) in if save then db\<lparr>
         u_last_block_added := push_rollback added (u_last_block_added db),
         u_last_block_removed := push_rollback (snd (fst st)) (u_last_block_removed db)\<rparr> else db)" by blast
  have "u_mempool_outpoint_map (b_utxodb b') = u_mempool_outpoint_map (fst (fst st))" by (simp add: u Let_def)
  moreover have "u_mempool_outpoint_map (fst (fst st)) \<subseteq>\<^sub>m u_mempool_outpoint_map db1"
    using c [of "block_inputs txs" "((db1, []), slp1)"] p(2) by simp
  moreover have "u_mempool_outpoint_map db1 \<subseteq>\<^sub>m u_mempool_outpoint_map (b_utxodb b)" using a [of os "(?d0, [])"] p(1) by simp
  ultimately show ?thesis by (simp add: map_le_trans)
qed


lemma bch_block_db_ok:
  assumes "db_ok X V (b_utxodb b)" and "list_all (placed_tx X) txs" and "bch_process_block txs save b = Ok b'" and "learned V txs V'"
  shows "db_ok X V' (b_utxodb b')"
proof -
  have g: "\<forall>tx \<in> set txs. genuine_tx (output_named X) tx" using assms(2) by (auto simp: list_all_iff placed_genuine)
  obtain os where p: "utxo_ok (output_named X) (b_utxodb b')" "block_outputs txs = Ok os"
    "utxo_set b' = (utxo_set b \<union> block_added os) - set (block_inputs txs)"
    using process_block_ok [OF _ g assms(3)] assms(1) by (auto simp: db_ok_def)
  have "backed X V' p" if "p \<in> block_added os" for p
  proof -
    obtain u where "u \<in> set os" "p = outpoint_of u" using \<open>p \<in> block_added os\<close> unfolding block_added_def by blast
    then obtain tx os' where "tx \<in> set txs" "slp_outputs tx = Ok os'" "u \<in> set os'" "p = outpoint_of u"
      using block_outputs_set [OF p(2)] by blast
    with placed_output [of X tx os' u] assms(2,4) show ?thesis by (auto simp: backed_def learned_def list_all_iff)
  qed
  moreover have "backed X V' p" if "p \<in> utxo_set b" for p
    using that assms(1) backed_learned [OF _ assms(4)] unfolding db_ok_def utxo_set_def by blast
  moreover have "backed X V' p" if "p \<in> dom (u_mempool_outpoint_map (b_utxodb b'))" for p
  proof -
    have "p \<in> dom (u_mempool_outpoint_map (b_utxodb b))" using that map_le_implies_dom_le [OF process_block_mempool [OF assms(3)]] by blast
    then show ?thesis using assms(1) backed_learned [OF _ assms(4)] unfolding db_ok_def by blast
  qed
  ultimately show ?thesis using p(1,3) unfolding db_ok_def utxo_set_def by blast
qed

lemma bch_mempool_tx_db_ok:
  assumes "db_ok X V (b_utxodb b)" and "placed_tx X tx" and "bch_process_mempool_tx tx b = Ok b'" and "learned V [tx] V'"
  shows "db_ok X V' (b_utxodb b')"
proof -
  have m: "utxo_ok (output_named X) (b_utxodb b')" "utxo_set b' = utxo_set b"
    using process_mempool_tx_ok [OF _ placed_genuine [OF assms(2)] assms(3)] assms(1) by (auto simp: db_ok_def)
  obtain os where os: "slp_outputs tx = Ok os" using assms(3) by (auto simp: bch_process_mempool_tx_def res_bind_Ok)
  then have b': "b_utxodb b' = fold spend_in_mempool (inputs tx) (fold add_mempool_output os (b_utxodb b))"
    using assms(3) by (auto simp: bch_process_mempool_tx_def Let_def split: if_splits vres.splits)
  have "dom (u_mempool_outpoint_map (add_mempool_output m db)) \<subseteq> dom (u_mempool_outpoint_map db) \<union> {outpoint_of m}" for m db
    by (auto simp: add_mempool_output_def Let_def map_insert_def split: option.splits if_splits)
  then have "dom (u_mempool_outpoint_map (fold add_mempool_output ms db)) \<subseteq> dom (u_mempool_outpoint_map db) \<union> outpoint_of ` set ms" for ms db
    by (induction ms arbitrary: db) (auto; blast)+
  moreover have "u_mempool_outpoint_map (fold spend_in_mempool ps db) = u_mempool_outpoint_map db" for ps db
    by (induction ps arbitrary: db) (simp_all add: spend_in_mempool_def split: option.split)
  ultimately have d: "dom (u_mempool_outpoint_map (b_utxodb b')) \<subseteq> dom (u_mempool_outpoint_map (b_utxodb b)) \<union> outpoint_of ` set os"
    by (simp add: b')
  have B1: "backed X V' p" if "p \<in> outpoint_of ` set os" for p
    using that placed_output [OF assms(2) os] assms(4) by (auto simp: backed_def learned_def)
  have B2: "backed X V' p" if "p \<in> utxo_set b \<union> dom (u_mempool_outpoint_map (b_utxodb b))" for p
    using that assms(1) backed_learned [OF _ assms(4)] unfolding db_ok_def utxo_set_def by blast
  have "backed X V' p" if p: "p \<in> utxo_set b \<union> dom (u_mempool_outpoint_map (b_utxodb b'))" for p
  proof (cases "p \<in> outpoint_of ` set os")
    case False
    then have "p \<in> utxo_set b \<union> dom (u_mempool_outpoint_map (b_utxodb b))" using subsetD [OF d, of p] p by auto
    then show ?thesis by (rule B2)
  qed (rule B1)
  then show ?thesis using m by (simp add: db_ok_def utxo_set_def)
qed

lemma mempool_txs_db_ok:
  "mempool_txs txs b = Ok b' \<Longrightarrow> db_ok X V (b_utxodb b) \<Longrightarrow> list_all (placed_tx X) txs \<Longrightarrow> learned V txs V \<Longrightarrow> db_ok X V (b_utxodb b')"
proof (induction txs arbitrary: b)
  case (Cons tx txs)
  then obtain c where c: "bch_process_mempool_tx tx b = Ok c" "mempool_txs txs c = Ok b'" by (auto simp: res_bind_Ok)
  have "learned V [tx] V" "learned V txs V" using Cons.prems(4) by (auto simp: learned_def)
  moreover from this have "db_ok X V (b_utxodb c)" using bch_mempool_tx_db_ok [OF Cons.prems(2) _ c(1)] Cons.prems(3) by simp
  ultimately show ?case using Cons.IH [OF c(2)] Cons.prems(3) by simp
qed simp

section \<open>The invariant of the server\<close>

definition server_inv :: "(txid \<Rightarrow> transaction) \<Rightarrow> server \<Rightarrow> bool" where
  "server_inv X s \<longleftrightarrow> known_txs X (sy_validator (sv_sync s)) \<and> db_ok X (sy_validator (sv_sync s)) (b_utxodb (sv_bch s))"

lemma server_inv_new: "server_inv X server_new"
  by (simp add: server_inv_def server_new_def sync_new_def known_txs_def validator_new_def db_ok_def bch_new_def utxo_ok_new)
    (simp add: utxodb_new_def)

lemma learned_refl_iff: "learned V txs V \<longleftrightarrow> (\<forall>tx \<in> set txs. slp_type (slp tx) \<noteq> TInvalid \<longrightarrow> txid tx \<in> dom (transaction_map V))"
  by (simp add: learned_def)

lemma db_ok_learned: "db_ok X V db \<Longrightarrow> learned V txs V' \<Longrightarrow> db_ok X V' db"
  using backed_learned unfolding db_ok_def by blast

lemma block_inv:
  assumes "slpsync_process_block utxosync ord trusted txs s = Some (l, s')" and "server_inv X s" and "list_all (placed_tx X) txs"
  shows "server_inv X s' \<and> learned (sy_validator (sv_sync s)) txs (sy_validator (sv_sync s'))"
proof -
  have k: "known_txs X (sy_validator (sv_sync s'))" "learned (sy_validator (sv_sync s)) txs (sy_validator (sv_sync s'))"
    using process_block_known [OF block_sync [OF assms(1)] _ assms(3)] assms(2) by (simp_all add: server_inv_def)
  have "db_ok X (sy_validator (sv_sync s')) (b_utxodb (sv_bch s'))"
  proof (cases utxosync)
    case True
    then have "bch_process_block txs True (sv_bch s) = Ok (sv_bch s')"
      using assms(1) by (cases "process_block ord trusted txs (sv_sync s)")
        (auto simp: slpsync_process_block_def when_utxosync_def bind_eq_Some_conv split: res.splits)
    then show ?thesis by (rule bch_block_db_ok [OF _ assms(3) _ k(2), rotated]) (use assms(2) in \<open>simp add: server_inv_def\<close>)
  next
    case False
    then have "sv_bch s' = sv_bch s"
      using assms(1) by (cases "process_block ord trusted txs (sv_sync s)")
        (auto simp: slpsync_process_block_def when_utxosync_def bind_eq_Some_conv)
    then show ?thesis using assms(2) db_ok_learned [OF _ k(2)] by (simp add: server_inv_def)
  qed
  with k show ?thesis by (simp add: server_inv_def)
qed

lemma chain_block_inv:
  assumes "process_chain_block utxosync ord trusted txs s = Some (l, s')" and "server_inv X s" and "list_all (placed_tx X) txs"
  shows "server_inv X s'"
proof -
  obtain s1 b where s1: "slpsync_process_block utxosync ord trusted txs s = Some (l, s1)"
    "when_utxosync utxosync (bch_process_block txs True) (sv_bch s1) = Some b" "s' = s1\<lparr>sv_bch := b\<rparr>"
    using assms(1) by (auto simp: process_chain_block_def bind_eq_Some_conv)
  note i = block_inv [OF s1(1) assms(2,3)]
  show ?thesis
  proof (cases utxosync)
    case True
    then have b: "bch_process_block txs True (sv_bch s1) = Ok b" using s1(2) by (auto simp: when_utxosync_def split: res.splits)
    have "learned (sy_validator (sv_sync s1)) txs (sy_validator (sv_sync s1))" using i by (simp add: learned_def)
    then have "db_ok X (sy_validator (sv_sync s1)) (b_utxodb b)"
      by (rule bch_block_db_ok [OF _ assms(3) b, rotated]) (use i in \<open>simp add: server_inv_def\<close>)
    with i show ?thesis by (simp add: s1(3) server_inv_def)
  next
    case False
    then show ?thesis using i s1(2,3) by (simp add: when_utxosync_def server_inv_def)
  qed
qed

lemma tx_inv:
  assumes "slpsync_process_tx utxosync tx s = Some (ok, s')" and "server_inv X s" and "placed_tx X tx"
  shows "server_inv X s'"
proof -
  have k: "known_txs X (sy_validator (sv_sync s'))" "learned (sy_validator (sv_sync s)) [tx] (sy_validator (sv_sync s'))"
    using process_tx_known [OF tx_sync [OF assms(1)] _ assms(3)] assms(2) by (simp_all add: server_inv_def)
  have "(if utxosync then bch_process_mempool_tx tx (sv_bch s) = Ok (sv_bch s') else sv_bch s' = sv_bch s)"
    using assms(1) by (cases "process_tx tx (sv_sync s)")
      (auto simp: slpsync_process_tx_def when_utxosync_def bind_eq_Some_conv split: res.splits if_splits)
  then have "db_ok X (sy_validator (sv_sync s')) (b_utxodb (sv_bch s'))"
    using bch_mempool_tx_db_ok [OF _ assms(3) _ k(2)] db_ok_learned [OF _ k(2)] assms(2) by (auto simp: server_inv_def split: if_splits)
  with k show ?thesis by (simp add: server_inv_def)
qed

lemma mempool_inv:
  assumes "slpsync_process_mempool utxosync ord txs s = Some s'" and "server_inv X s" and "list_all (placed_tx X) txs" and "enumerates ord"
  shows "server_inv X s'"
proof -
  let ?V = "sy_validator (sv_sync s)"
  obtain V m l where a: "accept_txs False txs ?V (grouped []) [] = VOk (V, m, l)"
    using assms(1) by (cases "accept_txs False txs ?V (grouped []) []") (auto simp: slpsync_process_mempool_def Let_def grouped_Nil)
  obtain b where b: "when_utxosync utxosync (mempool_txs (concat (map (\<lambda>k. the (m k)) (ord (dom m))))) (sv_bch s) = Some b"
    "sy_validator (sv_sync s') = V" "sv_bch s' = b"
    using assms(1) a by (auto simp: slpsync_process_mempool_def Let_def bind_eq_Some_conv grouped_Nil)
  have k: "known_txs X V" "learned ?V txs V" using accept_txs_known [OF a _ assms(3)] assms(2) by (simp_all add: server_inv_def)
  have db: "db_ok X V (b_utxodb (sv_bch s))" using assms(2) db_ok_learned [OF _ k(2)] by (simp add: server_inv_def)
  obtain A where A: "m = grouped A" "set A \<subseteq> set txs" using accept_txs_spec [OF a] by auto
  have "set (ord (dom m)) = dom m" using assms(4) by (simp add: enumerates_def A(1) dom_grouped)
  moreover have "set (the (m k)) \<subseteq> set A" if "k \<in> dom m" for k
    using that by (auto simp: A(1) grouped_def of_token_def split: if_splits)
  ultimately have "set (concat (map (\<lambda>k. the (m k)) (ord (dom m)))) \<subseteq> set txs" using A(2) by fastforce
  then have "list_all (placed_tx X) (concat (map (\<lambda>k. the (m k)) (ord (dom m))))"
    "learned V (concat (map (\<lambda>k. the (m k)) (ord (dom m)))) V"
    using assms(3) k(2) unfolding list_all_iff learned_def by (blast, auto)
  then have "db_ok X V (b_utxodb b)"
    using b(1) db mempool_txs_db_ok by (cases utxosync) (auto simp: when_utxosync_def split: res.splits)
  with k b show ?thesis by (simp add: server_inv_def)
qed

interpretation full: refinement "\<lambda>st. st = (server_new, {})" "server_step utxosync X" "\<lambda>(s, T). server_inv X s"
  "map_prod sv_sync id" sync_step for utxosync X
proof
  show "case st of (s, T) \<Rightarrow> server_inv X s" if "st = (server_new, {})" for st :: "server \<times> txid set" using that by (simp add: server_inv_new)
  show "case st' of (s, T) \<Rightarrow> server_inv X s" if "case st of (s, T) \<Rightarrow> server_inv X s" and "server_step utxosync X st st'" for st st'
    using that(2,1) by cases (auto dest: block_inv chain_block_inv mempool_inv tx_inv)
  show "sync_step (map_prod sv_sync id st) (map_prod sv_sync id st')"
    if "case st of (s, T) \<Rightarrow> server_inv X s" and "server_step utxosync X st st'" for st st'
    using that(2) by (rule server_step_sync)
qed

end
