(* ===== verification/CashAddr.thy ===== *)
theory CashAddr
  imports Transaction
begin

text \<open>
  Addresses: the CashAddr text format of \<open>src/cashaddr/cashaddr.cpp\<close> and its use for scripts in
  \<open>include/gs++/scriptpubkey.hpp\<close>. The assertions are compiled out, as in a release build. The result
  length of \<open>convertBits\<close>, which the code computes in floating point, is exact for the sizes of
  addresses and written in integers. Moving an iterator before the start of its buffer and reading
  an element that does not exist are the outcome \<open>Oob\<close>.
\<close>

section \<open>The checksum\<close>

definition CHARSET :: bytes where
  "CHARSET = ascii ''qpzry9x8gf2tvdw0s3jn54khce6mua7l''"

definition CHARSET_REV :: "int list" where
  "CHARSET_REV = [
    -1, -1, -1, -1, -1, -1, -1, -1, -1, -1, -1, -1, -1, -1, -1, -1, -1, -1, -1,
    -1, -1, -1, -1, -1, -1, -1, -1, -1, -1, -1, -1, -1, -1, -1, -1, -1, -1, -1,
    -1, -1, -1, -1, -1, -1, -1, -1, -1, -1, 15, -1, 10, 17, 21, 20, 26, 30, 7,
    5,  -1, -1, -1, -1, -1, -1, -1, 29, -1, 24, 13, 25, 9,  8,  23, -1, 18, 22,
    31, 27, 19, -1, 1,  0,  3,  16, 11, 28, 12, 14, 6,  4,  2,  -1, -1, -1, -1,
    -1, -1, 29, -1, 24, 13, 25, 9,  8,  23, -1, 18, 22, 31, 27, 19, -1, 1,  0,
    3,  16, 11, 28, 12, 14, 6,  4,  2,  -1, -1, -1, -1, -1]"

text \<open>One round of \<open>PolyMod\<close>: multiply by x modulo the generator, and add the symbol.\<close>

definition polymod_step :: "byte \<Rightarrow> u64 \<Rightarrow> u64" where
  "polymod_step d c = (let
       c0 = (ucast (drop_bit 35 c) :: byte);
       c = push_bit 5 (c AND 0x07FFFFFFFF) XOR ucast d;
       c = (if c0 AND 0x01 \<noteq> 0 then c XOR 0x98F2BC8E61 else c);
       c = (if c0 AND 0x02 \<noteq> 0 then c XOR 0x79B76D99E2 else c);
       c = (if c0 AND 0x04 \<noteq> 0 then c XOR 0xF33E5FB3C4 else c);
       c = (if c0 AND 0x08 \<noteq> 0 then c XOR 0xAE2EABE2A8 else c);
       c = (if c0 AND 0x10 \<noteq> 0 then c XOR 0x1E4F43E470 else c)
     in c)"

definition polymod :: "bytes \<Rightarrow> u64" where
  "polymod v = fold polymod_step v 1 XOR 1"

definition lower_case :: "byte \<Rightarrow> byte" where
  "lower_case c = c OR 0x20"

definition expand_prefix :: "bytes \<Rightarrow> bytes" where
  "expand_prefix prefix = map (\<lambda>c. c AND 0x1F) prefix @ [0]"

definition verify_checksum :: "bytes \<Rightarrow> bytes \<Rightarrow> bool" where
  "verify_checksum prefix payload \<longleftrightarrow> polymod (expand_prefix prefix @ payload) = 0"

definition create_checksum :: "bytes \<Rightarrow> bytes \<Rightarrow> bytes" where
  "create_checksum prefix payload = (let md = polymod (expand_prefix prefix @ payload @ replicate 8 0)
     in map (\<lambda>i. ucast (drop_bit (5 * (7 - i)) md) AND 0x1F) [0..<8])"

section \<open>Encoding and decoding\<close>

text \<open>A character of the set, which is a C string: behind its end stands a zero.\<close>

definition charset_at :: "byte \<Rightarrow> byte parse" where
  "charset_at c = (if unat c < 32 then Ok (CHARSET ! unat c) else if unat c = 32 then Ok 0 else Oob)"

fun encode_chars :: "bytes \<Rightarrow> bytes parse" where
  "encode_chars [] = Ok []"
| "encode_chars (c # cs) = res_bind (charset_at c) (\<lambda>x. res_bind (encode_chars cs) (\<lambda>r. Ok (x # r)))"

definition addr_encode :: "bytes \<Rightarrow> bytes \<Rightarrow> bytes parse" where
  "addr_encode prefix payload =
     res_bind (encode_chars (payload @ create_checksum prefix payload)) (\<lambda>r. Ok (prefix @ [58] @ r))"

text \<open>The sanity checks; the result is the size of the prefix and which cases occur.\<close>

fun decode_scan :: "nat \<Rightarrow> bool \<Rightarrow> bool \<Rightarrow> nat \<Rightarrow> bytes \<Rightarrow> (nat \<times> bool \<times> bool) option" where
  "decode_scan i lower upper prefixSize [] = Some (prefixSize, lower, upper)"
| "decode_scan i lower upper prefixSize (c # str) =
     (if 97 \<le> c \<and> c \<le> 122 then decode_scan (Suc i) True upper prefixSize str
      else if 65 \<le> c \<and> c \<le> 90 then decode_scan (Suc i) lower True prefixSize str
      else if 48 \<le> c \<and> c \<le> 57 then (if prefixSize = 0 then None else decode_scan (Suc i) lower upper prefixSize str)
      else if c = 58 then (if i = 0 \<or> prefixSize \<noteq> 0 then None else decode_scan (Suc i) lower upper i str)
      else None)"

fun decode_values :: "bytes \<Rightarrow> bytes option" where
  "decode_values [] = Some []"
| "decode_values (c # str) = (if c > 127 \<or> CHARSET_REV ! unat c = -1 then None
     else map_option (\<lambda>values. word_of_int (CHARSET_REV ! unat c) # values) (decode_values str))"

text \<open>A rejected string gives the empty pair.\<close>

definition addr_decode :: "bytes \<Rightarrow> (bytes \<times> bytes) parse" where
  "addr_decode str = (case decode_scan 0 False False 0 str of
       None \<Rightarrow> Ok ([], [])
     | Some (prefixSize, lower, upper) \<Rightarrow>
         if prefixSize = 0 \<or> upper \<and> lower then Ok ([], [])
         else (let prefix = map lower_case (take prefixSize str) in case decode_values (drop (Suc prefixSize) str) of
             None \<Rightarrow> Ok ([], [])
           | Some values \<Rightarrow> if \<not> verify_checksum prefix values then Ok ([], [])
               else if length values < 8 then Oob
               else Ok (prefix, take (length values - 8) values)))"

section \<open>Scripts and addresses\<close>

text \<open>
  \<open>convertBits\<close> regroups \<open>from\<close>-bit values into \<open>to\<close>-bit values. The state of its loops is the result,
  the index of its next element (which has 8 bits), and the number of bits at hand.
\<close>

definition store_bits :: "nat \<Rightarrow> u32 \<Rightarrow> bytes \<times> byte \<times> nat \<Rightarrow> bytes \<times> byte \<times> nat" where
  "store_bits to acc st = (case st of (result, index, bits) \<Rightarrow>
     (result[unat index := ucast (drop_bit bits acc) AND of_nat (2 ^ to - 1)], index + 1, bits))"

function emit_bits :: "nat \<Rightarrow> u32 \<Rightarrow> bytes \<times> byte \<times> nat \<Rightarrow> bytes \<times> byte \<times> nat" where
  "emit_bits to acc (result, index, bits) =
     (if to = 0 \<or> bits < to then (result, index, bits)
      else emit_bits to acc (store_bits to acc (result, index, bits - to)))"
  by pat_completeness auto
termination
  by (relation "measure (\<lambda>(_, _, _, _, bits). bits)") (auto simp: store_bits_def)

definition convert_step :: "nat \<Rightarrow> nat \<Rightarrow> byte \<Rightarrow> (bytes \<times> byte \<times> nat) \<times> u32 \<Rightarrow> (bytes \<times> byte \<times> nat) \<times> u32" where
  "convert_step from to value st = (case st of ((result, index, bits), acc) \<Rightarrow>
     let acc = push_bit from acc OR ucast value in (emit_bits to acc (result, index, bits + from), acc))"

definition convert_bits :: "bytes \<Rightarrow> nat \<Rightarrow> nat \<Rightarrow> bool \<Rightarrow> bytes" where
  "convert_bits data from to strictMode = (let
       len = (if strictMode then length data * from div to else (length data * from + (to - 1)) div to);
       ((result, index, bits), acc) = fold (convert_step from to) data ((replicate len 0, 0, 0), 0)
     in if \<not> strictMode \<and> bits > 0
        then result[unat index := ucast (push_bit (to - bits) acc) AND of_nat (2 ^ to - 1)] else result)"

definition to_address :: "scriptpubkey \<Rightarrow> string \<times> bytes" where
  "to_address v =
     (if length v > 5 \<and> v ! 0 = 0x76 \<and> v ! 1 = 0xA9 \<and> length v = 3 + unat (v ! 2) + 2
      then (''P2PKH'', take (length v - 5) (drop 3 v))
      else if length v = 23 \<and> v ! 0 = 0xA9 \<and> v ! 22 = 0x87 then (''P2SH'', take 20 (drop 1 v))
      else ([], []))"

definition get_type_bits :: "string \<Rightarrow> byte" where
  "get_type_bits ty = (if ty = ''P2PKH'' then 0 else if ty = ''P2SH'' then 8 else 0)"

definition get_hash_size_bits :: "bytes \<Rightarrow> u16" where
  "get_hash_size_bits h = (let n = length h * 8 in
     if n = 160 then 0 else if n = 192 then 1 else if n = 224 then 2 else if n = 256 then 3
     else if n = 320 then 4 else if n = 384 then 5 else if n = 448 then 6 else if n = 512 then 7 else 0)"

definition to_cashaddr :: "bytes \<Rightarrow> scriptpubkey \<Rightarrow> bytes parse" where
  "to_cashaddr prefix v = (let
       address = to_address v;
       versionByte = ucast (ucast (get_type_bits (fst address)) + get_hash_size_bits (snd address)) :: byte
     in addr_encode prefix (convert_bits (versionByte # snd address) 8 5 False))"

text \<open>The empty script stands for a string that is no address.\<close>

definition from_cashaddr :: "bytes \<Rightarrow> scriptpubkey parse" where
  "from_cashaddr cashaddr = res_bind (addr_decode cashaddr) (\<lambda>(prefix, payload).
     if prefix = [] then Ok []
     else (case convert_bits payload 5 8 True of
         [] \<Rightarrow> Oob
       | h # hs \<Rightarrow>
           if h AND 120 = 0 then Ok ([0x76, 0xA9, of_nat (length hs)] @ hs @ [0x88, 0xAC])
           else if h AND 120 = 8 then Ok ([0xA9, of_nat (length hs)] @ hs @ [0x87])
           else Ok []))"


section \<open>The checksum is linear\<close>

definition genpart :: "u64 \<Rightarrow> u64" where
  "genpart c = (if bit c 35 then 0x98F2BC8E61 else 0) XOR (if bit c 36 then 0x79B76D99E2 else 0)
     XOR (if bit c 37 then 0xF33E5FB3C4 else 0) XOR (if bit c 38 then 0xAE2EABE2A8 else 0)
     XOR (if bit c 39 then 0x1E4F43E470 else 0)"

lemma flag_bits:
  fixes x :: byte
  shows "x AND 1 \<noteq> 0 \<longleftrightarrow> bit x 0" "x AND 2 \<noteq> 0 \<longleftrightarrow> bit x 1" "x AND 4 \<noteq> 0 \<longleftrightarrow> bit x 2"
    "x AND 8 \<noteq> 0 \<longleftrightarrow> bit x 3" "x AND 16 \<noteq> 0 \<longleftrightarrow> bit x 4"
  using bit_iff_and_push_bit_not_eq_0 [of x 0] bit_iff_and_push_bit_not_eq_0 [of x 1]
    bit_iff_and_push_bit_not_eq_0 [of x 2] bit_iff_and_push_bit_not_eq_0 [of x 3] bit_iff_and_push_bit_not_eq_0 [of x 4]
  by simp_all

lemma xor_if: "(if b then c XOR g else c) = c XOR (if b then g else (0 :: u64))"
  by simp

lemma polymod_step_eq: "polymod_step d c = push_bit 5 (take_bit 35 c) XOR ucast d XOR genpart c"
proof -
  have m: "c AND 0x07FFFFFFFF = take_bit 35 c" by (simp add: take_bit_eq_mask mask_numeral)
  have "bit (ucast (drop_bit 35 c) :: byte) n \<longleftrightarrow> n < 8 \<and> bit c (35 + n)" for n
    by (simp add: bit_simps)
  then show ?thesis
    unfolding polymod_step_def genpart_def Let_def flag_bits xor_if m by (simp add: xor.assoc)
qed

lemma genpart_xor: "genpart (c XOR c') = genpart c XOR genpart c'"
proof -
  have "(if bit (c XOR c') n then g else 0) = (if bit c n then g else 0) XOR (if bit c' n then g else (0 :: u64))" for n g
    by (simp add: bit_simps)
  then show ?thesis by (simp only: genpart_def xor.assoc xor.left_commute xor.commute)
qed

lemma polymod_step_xor: "polymod_step (d XOR d') (c XOR c') = polymod_step d c XOR polymod_step d' c'"
  by (simp add: polymod_step_eq genpart_xor push_bit_xor take_bit_xor unsigned_xor_eq xor.assoc xor.left_commute xor.commute)

lemma fold_xor:
  "length v = length w \<Longrightarrow> fold polymod_step (map2 (XOR) v w) (c XOR c') = fold polymod_step v c XOR fold polymod_step w c'"
proof (induction v w arbitrary: c c' rule: list_induct2)
  case (Cons d v d' w)
  then show ?case by (simp add: polymod_step_xor)
qed simp

lemma xor_zero: "a XOR b = 0 \<longleftrightarrow> a = (b :: 'a :: len word)"
  by (metis xor.assoc xor.left_neutral xor.right_neutral xor_self_eq)

text \<open>A symbol has five bits.\<close>

lemma symbol_and: "d < 32 \<longleftrightarrow> d AND 0x1F = (d :: byte)"
proof
  assume "d < 32"
  moreover have "(0x1F :: byte) = mask 5" by (simp add: mask_numeral)
  ultimately show "d AND 0x1F = d"
    by (simp only: take_bit_eq_mask [symmetric]) (simp add: take_bit_eq_mod word_less_nat_alt word_arith_nat_mod unat_mod)
next
  assume "d AND 0x1F = d"
  then have "d \<le> 0x1F" by (metis word_and_le1)
  then show "d < 32" by (rule le_less_trans) simp
qed

lemma map2_xor_self: "map2 (XOR) v v = replicate (length v) (0 :: byte)"
  by (induction v) simp_all

text \<open>The states have 40 bits.\<close>

definition width :: "nat \<Rightarrow> u64 \<Rightarrow> bool" where
  "width n c \<longleftrightarrow> (\<forall>i. bit c i \<longrightarrow> i < n)"

lemma width_mono: "width m c \<Longrightarrow> m \<le> n \<Longrightarrow> width n c"
  by (auto simp: width_def dest: less_le_trans)

lemma width_genpart: "width 40 (genpart c)"
proof -
  have "width 40 (0x98F2BC8E61)" "width 40 (0x79B76D99E2)" "width 40 (0xF33E5FB3C4)" "width 40 (0xAE2EABE2A8)" "width 40 (0x1E4F43E470)"
  proof -
    have "take_bit 40 (0x98F2BC8E61 :: u64) = 0x98F2BC8E61" "take_bit 40 (0x79B76D99E2 :: u64) = 0x79B76D99E2"
      "take_bit 40 (0xF33E5FB3C4 :: u64) = 0xF33E5FB3C4" "take_bit 40 (0xAE2EABE2A8 :: u64) = 0xAE2EABE2A8"
      "take_bit 40 (0x1E4F43E470 :: u64) = 0x1E4F43E470" by simp_all
    then show "width 40 (0x98F2BC8E61)" "width 40 (0x79B76D99E2)" "width 40 (0xF33E5FB3C4)" "width 40 (0xAE2EABE2A8)" "width 40 (0x1E4F43E470)"
      unfolding width_def by (metis bit_take_bit_iff)+
  qed
  moreover have "width 40 (a XOR b)" if "width 40 a" "width 40 b" for a b
    using that by (auto simp: width_def bit_xor_iff)
  moreover have "width 40 (if b then g else 0)" if "width 40 g" for b g
    using that by (simp add: width_def)
  ultimately show ?thesis unfolding genpart_def by (intro \<open>\<And>a b. width 40 a \<Longrightarrow> width 40 b \<Longrightarrow> width 40 (a XOR b)\<close>) simp_all
qed

lemma width_step: "width 40 (polymod_step d c)"
  using width_genpart [of c] by (auto simp: polymod_step_eq width_def bit_simps dest: bit_imp_le_length)

lemma width_fold: "width 40 c \<Longrightarrow> width 40 (fold polymod_step v c)"
  by (induction v arbitrary: c) (simp_all add: width_step)

text \<open>A round loses nothing.\<close>

lemma polymod_step_zero:
  assumes "polymod_step 0 c = 0" and "width 40 c"
  shows "c = 0"
proof -
  have s: "push_bit 5 (take_bit 35 c) XOR genpart c = 0" using assms(1) by (simp add: polymod_step_eq)
  have low: "bit (push_bit 5 (take_bit 35 c) XOR genpart c) n \<longleftrightarrow> bit (genpart c) n" if "n < 5" for n
    using that by (simp add: bit_simps)
  have g: "bit (genpart c) 0 = bit c 35" "bit (genpart c) 1 = bit c 36" "bit (genpart c) 2 = bit c 37"
    "bit (genpart c) 3 = bit c 38" "bit (genpart c) 4 = bit c 39"
    by (simp_all add: genpart_def bit_xor_iff)
  have hi: "\<not> bit c 35" "\<not> bit c 36" "\<not> bit c 37" "\<not> bit c 38" "\<not> bit c 39"
    using low [of 0] low [of 1] low [of 2] low [of 3] low [of 4] s g by simp_all
  then have "genpart c = 0" by (simp add: genpart_def)
  with s have z: "push_bit 5 (take_bit 35 c) = 0" by simp
  have "\<not> bit c i" for i
  proof (cases "i < 35")
    case True
    have "bit (push_bit 5 (take_bit 35 c)) (i + 5) \<longleftrightarrow> bit c i" using True by (simp add: bit_simps)
    with z show ?thesis by simp
  next
    case False
    then have "i = 35 \<or> i = 36 \<or> i = 37 \<or> i = 38 \<or> i = 39 \<or> 40 \<le> i" by linarith
    then show ?thesis using hi assms(2) by (auto simp: width_def)
  qed
  then show "c = 0" by (intro bit_eqI) simp
qed

lemma fold_zeros_zero: "fold polymod_step (replicate n 0) c = 0 \<Longrightarrow> width 40 c \<Longrightarrow> c = 0"
proof (induction n arbitrary: c)
  case (Suc n)
  then have "polymod_step 0 c = 0" by (simp add: width_step)
  then show ?case using Suc.prems(2) by (rule polymod_step_zero)
qed simp

text \<open>While at most eight symbols have been read from 0, nothing is reduced.\<close>

lemma polymod_step_short:
  assumes "width (5 * k) c" and "k \<le> 7" and "d < 32"
  shows "polymod_step d c = push_bit 5 c XOR ucast d" and "width (5 * Suc k) (polymod_step d c)"
    and "polymod_step d c = 0 \<longleftrightarrow> c = 0 \<and> d = 0"
proof -
  have w: "\<not> bit c i" if "35 \<le> i" for i using assms(1,2) that by (auto simp: width_def)
  have "take_bit 35 c = c" using w by (intro bit_eqI) (auto simp: bit_simps not_le [symmetric])
  moreover have "genpart c = 0" using w by (simp add: genpart_def)
  ultimately show e: "polymod_step d c = push_bit 5 c XOR ucast d" by (simp add: polymod_step_eq)
  have d: "\<not> bit d i" if "5 \<le> i" for i
  proof -
    have "take_bit 5 d = d" using assms(3) by (simp add: take_bit_eq_mod word_less_nat_alt word_arith_nat_mod unat_mod)
    then show ?thesis using that by (metis bit_take_bit_iff not_le)
  qed
  have bits: "bit (polymod_step d c) i \<longleftrightarrow> (if i < 5 then bit d i else bit c (i - 5))" for i
  proof (cases "i < 5")
    case True
    then show ?thesis by (auto simp: e bit_simps)
  next
    case False
    have "bit c (i - 5) \<Longrightarrow> i < 64" using w [of "i - 5"] by (cases "i < 64") auto
    with False d [of i] show ?thesis by (auto simp: e bit_simps)
  qed
  show "width (5 * Suc k) (polymod_step d c)"
    using assms(1) by (fastforce simp: width_def bits split: if_splits)
  show "polymod_step d c = 0 \<longleftrightarrow> c = 0 \<and> d = 0"
  proof
    assume "polymod_step d c = 0"
    then have b: "\<not> (if i < 5 then bit d i else bit c (i - 5))" for i using bits [of i] by simp
    have "\<not> bit c i" for i using b [of "i + 5"] by simp
    moreover have "\<not> bit d i" for i using b [of i] d [of i] by (cases "i < 5") auto
    ultimately show "c = 0 \<and> d = 0" by (auto intro!: bit_eqI)
  qed (simp add: polymod_step_eq genpart_def)
qed

lemma fold_short_zero:
  "fold polymod_step v c = 0 \<Longrightarrow> width (5 * k) c \<Longrightarrow> k + length v \<le> 8 \<Longrightarrow> \<forall>d \<in> set v. d < 32 \<Longrightarrow>
     c = 0 \<and> v = replicate (length v) 0"
proof (induction v arbitrary: c k)
  case (Cons d v)
  have p: "k \<le> 7" "d < 32" using Cons.prems(3,4) by simp_all
  note s = polymod_step_short [OF Cons.prems(2) p]
  have "polymod_step d c = 0 \<and> v = replicate (length v) 0"
    using Cons.IH [OF _ s(2)] Cons.prems(1,3,4) by simp
  with s(3) show ?case by simp
qed simp


text \<open>C37: the checksum detects every error burst: two payloads of the same length that differ only within
  eight neighbouring symbols cannot both carry a correct checksum for a prefix, as the comment on
  \<open>PolyMod\<close> promises.\<close>

theorem checksum_detects_bursts:
  assumes "length x = length y" and "length x \<le> 8" and "\<forall>d \<in> set x \<union> set y. d < 32"
    and "verify_checksum prefix (a @ x @ b)" and "verify_checksum prefix (a @ y @ b)"
  shows "x = y"
proof -
  let ?c = "fold polymod_step (expand_prefix prefix @ a) 1" and ?z = "map2 (XOR) x y"
  have "fold polymod_step (x @ b) ?c = 1" "fold polymod_step (y @ b) ?c = 1"
    using assms(4,5) by (simp_all add: verify_checksum_def polymod_def xor_zero)
  then have "fold polymod_step (map2 (XOR) (x @ b) (y @ b)) (?c XOR ?c) = 0"
    by (subst fold_xor) (simp_all add: assms(1))
  moreover have "map2 (XOR) (x @ b) (y @ b) = ?z @ replicate (length b) 0"
    using assms(1) by (simp add: map2_xor_self)
  ultimately have "fold polymod_step (replicate (length b) 0) (fold polymod_step ?z 0) = 0" by simp
  moreover have "width 40 0" by (simp add: width_def)
  ultimately have 0: "fold polymod_step ?z 0 = 0" using fold_zeros_zero width_fold by blast
  have "d XOR e < 32" if "d < 32" "e < (32 :: byte)" for d e
    using that by (simp add: symbol_and bit.conj_xor_distrib2)
  then have "\<forall>d \<in> set ?z. d < 32" using assms(3) by (auto dest: set_zip_leftD set_zip_rightD)
  then have z: "?z = replicate (length ?z) 0"
    using fold_short_zero [OF 0, of 0] assms(1,2) by (simp add: width_def)
  have "x ! i = y ! i" if "i < length x" for i
  proof -
    have "?z ! i = 0" using z that assms(1) by (metis length_map length_zip min.idem nth_replicate)
    then show ?thesis using that assms(1) by (simp add: xor_zero)
  qed
  then show ?thesis using assms(1) by (simp add: list_eq_iff_nth_eq)
qed


text \<open>A checksum makes the state 1.\<close>

lemma push_bit_refill:
  assumes "width 40 m" and "k \<le> 7"
  shows "push_bit 5 (drop_bit (5 * Suc k) m) XOR ucast (ucast (drop_bit (5 * k) m) AND 0x1F :: byte) = drop_bit (5 * k) (m :: u64)"
proof -
  have "0x1F = (mask 5 :: byte)" by (simp add: mask_numeral)
  then have d: "ucast (drop_bit (5 * k) m) AND 0x1F = take_bit 5 (ucast (drop_bit (5 * k) m) :: byte)"
    by (simp only: take_bit_eq_mask)
  show ?thesis
  proof (rule bit_word_eqI)
    fix i assume "i < LENGTH(64)"
    then have i: "i < 64" by simp
    show "bit (push_bit 5 (drop_bit (5 * Suc k) m) XOR ucast (ucast (drop_bit (5 * k) m) AND 0x1F :: byte)) i = bit (drop_bit (5 * k) m) i"
      unfolding d using i by (cases "i < 5") (auto simp: bit_simps add.commute)
  qed
qed

lemma fold_checksum:
  assumes "width 40 m"
  shows "fold polymod_step (map (\<lambda>i. ucast (drop_bit (5 * (7 - i)) m) AND 0x1F) [0..<8]) 0 = m"
proof -
  let ?s = "\<lambda>i. ucast (drop_bit (5 * (7 - i)) m) AND 0x1F :: byte"
  have lt: "?s i < 32" for i by (simp add: symbol_and and.assoc)
  have w: "width (5 * k) (drop_bit (5 * (8 - k)) m)" if "k \<le> 8" for k
    using assms that by (auto simp: width_def bit_simps)
  have "fold polymod_step (map ?s [0..<k]) 0 = drop_bit (5 * (8 - k)) m" if "k \<le> 8" for k
    using that
  proof (induction k)
    case 0
    have "drop_bit 40 m = 0" using assms by (intro bit_eqI) (auto simp: width_def bit_simps)
    then show ?case by simp
  next
    case (Suc k)
    then have k: "k \<le> 7" "8 - k = Suc (7 - k)" by simp_all
    have "fold polymod_step (map ?s [0..<Suc k]) 0 = polymod_step (?s k) (drop_bit (5 * (8 - k)) m)" using Suc by simp
    also have "\<dots> = push_bit 5 (drop_bit (5 * Suc (7 - k)) m) XOR ucast (?s k)"
      using polymod_step_short(1) [OF w [of k] k(1) lt] k by simp
    also have "\<dots> = drop_bit (5 * (7 - k)) m" by (rule push_bit_refill [OF assms]) simp
    finally show ?case by simp
  qed
  from this [of 8] show ?thesis by simp
qed

lemma polymod_checksum: "verify_checksum prefix (payload @ create_checksum prefix payload)"
proof -
  let ?v = "expand_prefix prefix @ payload" and ?cs = "create_checksum prefix payload"
  let ?c = "fold polymod_step ?v 1" and ?m = "polymod (?v @ replicate 8 0)"
  have "width 40 1" by (auto simp: width_def bit_simps)
  then have w: "width 40 (fold polymod_step (?v @ replicate 8 0) 1)" by (rule width_fold)
  then have w: "width 40 ?m" by (auto simp: polymod_def width_def bit_simps)
  have cs: "?cs = map (\<lambda>i. ucast (drop_bit (5 * (7 - i)) ?m) AND 0x1F) [0..<8]"
    by (simp add: create_checksum_def Let_def)
  have len: "length (replicate 8 0) = length ?cs" by (simp add: cs)
  have "map2 (XOR) (replicate 8 0) ?cs = ?cs" using len by (intro nth_equalityI) simp_all
  then have "fold polymod_step ?cs ?c = fold polymod_step (replicate 8 0) ?c XOR fold polymod_step ?cs 0"
    using fold_xor [OF len, of ?c 0] by simp
  also have "fold polymod_step ?cs 0 = ?m" unfolding cs by (rule fold_checksum [OF w])
  also have "fold polymod_step (replicate 8 0) ?c = ?m XOR 1" by (simp add: polymod_def xor.assoc)
  finally have "fold polymod_step (?v @ ?cs) 1 = (?m XOR 1) XOR ?m" by simp
  also have "\<dots> = 1" by (subst xor.commute [of ?m 1]) (simp add: xor.assoc)
  finally show ?thesis by (simp add: verify_checksum_def polymod_def)
qed


section \<open>Decoding undoes encoding\<close>

definition letters :: "bytes \<Rightarrow> bool" where
  "letters s \<longleftrightarrow> list_all (\<lambda>c. 97 \<le> c \<and> c \<le> 122) s"

definition symbols :: "bytes \<Rightarrow> bool" where
  "symbols v \<longleftrightarrow> list_all (\<lambda>d. d < 32) v"

lemma charset_table:
  "list_all (\<lambda>n. CHARSET ! n \<le> 127 \<and> CHARSET_REV ! unat (CHARSET ! n) = int n
     \<and> (97 \<le> CHARSET ! n \<and> CHARSET ! n \<le> 122 \<or> 48 \<le> CHARSET ! n \<and> CHARSET ! n \<le> 57)) [0..<32]"
  by code_simp

lemma charset_char:
  assumes "d < (32 :: byte)"
  shows "CHARSET ! unat d \<le> 127" "CHARSET_REV ! unat (CHARSET ! unat d) = int (unat d)"
    "97 \<le> CHARSET ! unat d \<and> CHARSET ! unat d \<le> 122 \<or> 48 \<le> CHARSET ! unat d \<and> CHARSET ! unat d \<le> 57"
  using charset_table assms by (simp_all add: list_all_upt_iff word_less_nat_alt)

lemma lower_case_letter: "97 \<le> c \<Longrightarrow> c \<le> 122 \<Longrightarrow> lower_case c = c"
proof -
  assume "97 \<le> c" "c \<le> 122"
  then have "97 \<le> unat c" "unat c < 123" by (simp_all add: word_le_nat_alt)
  moreover have t: "list_all (\<lambda>n. lower_case (of_nat n) = of_nat n) [97..<123]" by code_simp
  have "lower_case (of_nat n) = of_nat n" if "97 \<le> n" "n < 123" for n
    using t that unfolding list_all_iff by (metis atLeastLessThan_iff set_upt)
  ultimately have "lower_case (of_nat (unat c)) = of_nat (unat c)" by blast
  then show ?thesis by simp
qed

lemma encode_chars_symbols: "symbols v \<Longrightarrow> encode_chars v = Ok (map (\<lambda>d. CHARSET ! unat d) v)"
  by (induction v) (simp_all add: symbols_def charset_at_def word_less_nat_alt)

lemma decode_scan_letters:
  "letters p \<Longrightarrow> decode_scan i lo up 0 (p @ s) = decode_scan (i + length p) (lo \<or> p \<noteq> []) up 0 s"
  by (induction p arbitrary: i lo) (simp_all add: letters_def)

lemma decode_scan_symbols:
  "symbols v \<Longrightarrow> n \<noteq> 0 \<Longrightarrow> \<exists>lo'. decode_scan i lo False n (map (\<lambda>d. CHARSET ! unat d) v) = Some (n, lo', False)"
proof (induction v arbitrary: i lo)
  case (Cons d v)
  let ?c = "CHARSET ! unat d"
  have d: "d < 32" "symbols v" using Cons.prems(1) by (simp_all add: symbols_def)
  consider "97 \<le> ?c" "?c \<le> 122" | "48 \<le> ?c" "?c \<le> 57" using charset_char(3) [OF d(1)] by blast
  then show ?case
  proof cases
    case 2
    then have "\<not> 97 \<le> ?c" "\<not> 65 \<le> ?c" by (simp_all add: word_le_nat_alt)
    then show ?thesis using Cons.IH [OF d(2) Cons.prems(2)] 2 Cons.prems(2) by simp
  qed (use Cons.IH [OF d(2) Cons.prems(2)] in simp)
qed simp

lemma decode_values_symbols: "symbols v \<Longrightarrow> decode_values (map (\<lambda>d. CHARSET ! unat d) v) = Some v"
proof (induction v)
  case (Cons d v)
  then have d: "d < 32" "symbols v" by (simp_all add: symbols_def)
  have "CHARSET_REV ! unat (CHARSET ! unat d) \<noteq> -1" unfolding charset_char(2) [OF d(1)] by linarith
  then show ?case using Cons.IH [OF d(2)] charset_char(1,2) [OF d(1)] by (simp add: not_less)
qed simp

lemma symbols_append [simp]: "symbols (v @ w) \<longleftrightarrow> symbols v \<and> symbols w"
  by (simp add: symbols_def)

lemma create_checksum_symbols: "symbols (create_checksum prefix payload) \<and> length (create_checksum prefix payload) = 8"
  by (simp add: symbols_def create_checksum_def Let_def list_all_iff symbol_and and.assoc)

lemma encode_symbols:
  "symbols payload \<Longrightarrow> addr_encode prefix payload
     = Ok (prefix @ 58 # map (\<lambda>d. CHARSET ! unat d) (payload @ create_checksum prefix payload))"
  using create_checksum_symbols by (simp add: addr_encode_def encode_chars_symbols)

lemma decode_encoded:
  assumes "letters prefix" and "prefix \<noteq> []" and "symbols payload"
  shows "res_bind (addr_encode prefix payload) addr_decode = Ok (prefix, payload)"
proof -
  let ?v = "payload @ create_checksum prefix payload" and ?f = "\<lambda>d. CHARSET ! unat d"
  have v: "symbols ?v" using assms(3) create_checksum_symbols by simp
  have "decode_scan 0 False False 0 (prefix @ 58 # map ?f ?v)
    = decode_scan (Suc (length prefix)) True False (length prefix) (map ?f ?v)"
    using assms(1,2) by (simp add: decode_scan_letters)
  then obtain lo where s: "decode_scan 0 False False 0 (prefix @ 58 # map ?f ?v) = Some (length prefix, lo, False)"
    using decode_scan_symbols [OF v, of "length prefix"] assms(2) by auto
  have p: "map lower_case prefix = prefix"
    using assms(1) by (induction prefix) (simp_all add: letters_def lower_case_letter)
  have "addr_decode (prefix @ 58 # map ?f ?v) = Ok (prefix, payload)"
    unfolding addr_decode_def s using assms(2) create_checksum_symbols [of prefix payload]
    by (simp add: p Let_def decode_values_symbols [OF v] polymod_checksum del: map_append)
  then show ?thesis by (simp add: encode_symbols [OF assms(3)] del: map_append)
qed


section \<open>Regrouping bits\<close>

text \<open>The number a list of \<open>f\<close>-bit values spells, highest first.\<close>

definition big_endian :: "nat \<Rightarrow> bytes \<Rightarrow> nat" where
  "big_endian f v = foldl (\<lambda>n d. n * 2 ^ f + unat d) 0 v"

lemma big_endian_snoc [simp]: "big_endian f (v @ [d]) = big_endian f v * 2 ^ f + unat d" "big_endian f [] = 0"
  by (simp_all add: big_endian_def)

text \<open>After reading \<open>n\<close> bits that spell \<open>N\<close>, the result holds their complete groups of \<open>t\<close> bits.\<close>

definition regrouped :: "nat \<Rightarrow> nat \<Rightarrow> nat \<Rightarrow> nat \<Rightarrow> nat \<Rightarrow> bytes \<times> byte \<times> nat \<Rightarrow> bool" where
  "regrouped t L n k N st = (case st of (result, index, bits) \<Rightarrow>
     length result = L \<and> n = t * k + bits \<and> index = of_nat k
     \<and> (\<forall>j < k. unat (result ! j) = (N div 2 ^ (n - t * (j + 1))) mod 2 ^ t))"

lemma unat_masked:
  assumes "acc = of_nat N" and "b + t \<le> 32" and "t \<le> 8"
  shows "unat (ucast (drop_bit b (acc :: u32)) AND of_nat (2 ^ t - 1) :: byte) = (N div 2 ^ b) mod 2 ^ t"
proof -
  have m: "of_nat (2 ^ t - 1) = (mask t :: byte)" by (simp add: mask_eq_exp_minus_1 of_nat_diff)
  have "unat (ucast (drop_bit b acc) AND of_nat (2 ^ t - 1) :: byte) = take_bit t (take_bit 8 (drop_bit b (take_bit 32 N)))"
    unfolding m take_bit_eq_mask [symmetric]
    by (simp add: assms(1) unsigned_take_bit_eq unsigned_ucast_eq unsigned_drop_bit_eq unsigned_of_nat)
  also have "\<dots> = take_bit t (drop_bit b N)"
  proof -
    have "t \<le> 32 - b" using assms(2) by simp
    then show ?thesis using assms(3) by (simp add: drop_bit_take_bit min_def)
  qed
  finally show ?thesis by (simp add: take_bit_eq_mod drop_bit_eq_div)
qed


declare emit_bits.simps [simp del]

lemma emit_regrouped:
  assumes "acc = (of_nat N :: u32)" and "0 < t" and "t \<le> 8" and "n div t \<le> L" and "L \<le> 256"
  shows "regrouped t L n k N (result, index, bits) \<Longrightarrow> bits \<le> 32 \<Longrightarrow>
    regrouped t L n (n div t) N (emit_bits t acc (result, index, bits)) \<and> snd (snd (emit_bits t acc (result, index, bits))) < t"
proof (induction bits arbitrary: result index k rule: less_induct)
  case (less bits)
  from less.prems(1) have g: "length result = L" "n = t * k + bits" "index = of_nat k"
    "\<forall>j < k. unat (result ! j) = (N div 2 ^ (n - t * (j + 1))) mod 2 ^ t" by (simp_all add: regrouped_def)
  show ?case
  proof (cases "bits < t")
    case True
    then have "n div t = k" using g(2) assms(2) by simp
    then show ?thesis using True less.prems(1) by (simp add: emit_bits.simps [of t acc result])
  next
    case False
    let ?w = "ucast (drop_bit (bits - t) acc) AND of_nat (2 ^ t - 1) :: byte"
    have "t * (k + 1) \<le> n" using False g(2) by simp
    then have "k + 1 \<le> n div t" using assms(2) by (metis div_le_mono nonzero_mult_div_cancel_left not_gr_zero)
    then have k: "k < L" "k < 256" using assms(4,5) by simp_all
    then have i: "unat index = k" by (simp add: g(3))
    have st: "store_bits t acc (result, index, bits - t) = (result[k := ?w], of_nat (Suc k), bits - t)"
      by (simp add: store_bits_def i) (simp add: g(3) add.commute)
    have w: "unat ?w = (N div 2 ^ (bits - t)) mod 2 ^ t"
      using unat_masked [OF assms(1) _ assms(3), of "bits - t"] False less.prems(2) by simp
    have nk: "n - t * (k + 1) = bits - t" using g(2) False by simp
    have "regrouped t L n (Suc k) N (result[k := ?w], of_nat (Suc k), bits - t)"
    proof -
      have "unat (result[k := ?w] ! j) = (N div 2 ^ (n - t * (j + 1))) mod 2 ^ t" if "j < Suc k" for j
        using that g(1,4) k w nk by (cases "j = k") simp_all
      then show ?thesis using g(1,2) False by (simp add: regrouped_def)
    qed
    from less.IH [OF _ this] less.prems(2) assms(2) False show ?thesis
      by (simp add: emit_bits.simps [of t acc result] st)
  qed
qed

lemma convert_step_regrouped:
  assumes "0 < t" and "t \<le> 8" and "f \<le> 8" and "(n + f) div t \<le> L" and "L \<le> 256" and "unat d < 2 ^ f"
    and "regrouped t L n k N st" and "snd (snd st) < t"
  shows "case convert_step f t d (st, of_nat N) of (st', acc) \<Rightarrow> acc = of_nat (N * 2 ^ f + unat d)
    \<and> regrouped t L (n + f) ((n + f) div t) (N * 2 ^ f + unat d) st' \<and> snd (snd st') < t"
proof -
  obtain result index bits where st: "st = (result, index, bits)" by (cases st)
  let ?N = "N * 2 ^ f + unat d"
  have "push_bit f (of_nat N) AND (ucast d :: u32) = 0"
  proof -
    have "\<not> bit d i" if "f \<le> i" for i
    proof -
      have "take_bit f (unat d) = unat d" using assms(6) by (simp add: take_bit_nat_eq_self)
      then have "\<not> bit (unat d) i" using that by (metis bit_take_bit_iff not_le)
      then show ?thesis by (simp add: bit_unsigned_iff)
    qed
    then show ?thesis by (intro bit_word_eqI) (auto simp: bit_simps not_le [symmetric])
  qed
  then have "push_bit f (of_nat N) OR (ucast d :: u32) = push_bit f (of_nat N) + ucast d" by (rule disjunctive_add_eq_or [symmetric])
  also have "\<dots> = of_nat ?N" by (simp add: push_bit_eq_mult)
  finally have acc: "push_bit f (of_nat N) OR (ucast d :: u32) = of_nat ?N" .
  have "regrouped t L (n + f) k ?N (result, index, bits + f)"
  proof -
    have "?N div 2 ^ (n + f - (t + t * j)) = N div 2 ^ (n - (t + t * j))" if "j < k" for j
    proof -
      have "t * (j + 1) \<le> t * k" using that by (intro mult_le_mono2) simp
      then have le: "t + t * j \<le> n" using assms(7) by (simp add: regrouped_def st)
      then have "n + f - (t + t * j) = f + (n - (t + t * j))" by simp
      then have "?N div 2 ^ (n + f - (t + t * j)) = ?N div 2 ^ f div 2 ^ (n - (t + t * j))" by (simp only: power_add div_mult2_eq)
      also have "?N div 2 ^ f = N" using assms(6) by simp
      finally show ?thesis .
    qed
    then show ?thesis using assms(7) by (simp add: regrouped_def st)
  qed
  from emit_regrouped [OF refl assms(1,2,4,5) this] assms(2,3,8)
  have e: "regrouped t L (n + f) ((n + f) div t) ?N (emit_bits t (of_nat ?N) (result, index, bits + f))
    \<and> snd (snd (emit_bits t (of_nat ?N) (result, index, bits + f))) < t" by (simp add: st)
  then show ?thesis by (simp only: convert_step_def st acc prod.case Let_def simp_thms)
qed

lemma convert_fold_regrouped:
  assumes "0 < t" and "t \<le> 8" and "f \<le> 8" and "L \<le> 256"
  shows "length data * f div t \<le> L \<Longrightarrow> \<forall>d \<in> set data. unat d < 2 ^ f \<Longrightarrow>
    (case fold (convert_step f t) data ((replicate L 0, 0, 0), 0) of (st, acc) \<Rightarrow> acc = of_nat (big_endian f data)
      \<and> regrouped t L (length data * f) (length data * f div t) (big_endian f data) st \<and> snd (snd st) < t)"
proof (induction data rule: rev_induct)
  case Nil
  then show ?case using assms(1) by (simp add: regrouped_def)
next
  case (snoc d data)
  have "length data * f div t \<le> length (data @ [d]) * f div t" by (intro div_le_mono) simp
  then have "length data * f div t \<le> L" using snoc.prems(1) by linarith
  from snoc.IH [OF this] snoc.prems(2) obtain st where
    st: "fold (convert_step f t) data ((replicate L 0, 0, 0), 0) = (st, of_nat (big_endian f data))"
      "regrouped t L (length data * f) (length data * f div t) (big_endian f data) st" "snd (snd st) < t"
    by (cases "fold (convert_step f t) data ((replicate L 0, 0, 0), 0)") auto
  have "(length data * f + f) div t \<le> L" "unat d < 2 ^ f" using snoc.prems by (simp_all add: add.commute)
  from convert_step_regrouped [OF assms(1-3) this(1) assms(4) this(2) st(2,3)]
  show ?case by (simp add: st(1) add.commute)
qed


text \<open>The digits of a number determine it, and the other way round.\<close>

lemma big_endian_digits:
  "\<forall>j < length r. unat (r ! j) = (M div 2 ^ (t * (length r - 1 - j))) mod 2 ^ t \<Longrightarrow> M < 2 ^ (t * length r) \<Longrightarrow>
     big_endian t r = M"
proof (induction r arbitrary: M rule: rev_induct)
  case (snoc d r)
  have "unat (r ! j) = (M div 2 ^ t div 2 ^ (t * (length r - 1 - j))) mod 2 ^ t" if "j < length r" for j
  proof -
    have "length r - j = Suc (length r - 1 - j)" using that by simp
    then have e: "t * (length r - j) = t + t * (length r - 1 - j)" by simp
    have "unat (r ! j) = (M div 2 ^ (t * (length r - j))) mod 2 ^ t"
      using snoc.prems(1) [rule_format, of j] that by (simp add: nth_append)
    then show ?thesis by (simp only: e power_add div_mult2_eq)
  qed
  moreover have "M div 2 ^ t < 2 ^ (t * length r)"
    using snoc.prems(2) by (simp add: less_mult_imp_div_less power_add mult.commute)
  ultimately have "big_endian t r = M div 2 ^ t" using snoc.IH by blast
  moreover have "unat d = M mod 2 ^ t" using snoc.prems(1) [rule_format, of "length r"] by simp
  ultimately show ?case by (simp only: big_endian_snoc div_mult_mod_eq)
qed simp

lemma digits_big_endian:
  "\<forall>d \<in> set v. unat d < 2 ^ t \<Longrightarrow> big_endian t v < 2 ^ (t * length v) \<and>
     (\<forall>j < length v. unat (v ! j) = (big_endian t v div 2 ^ (t * (length v - 1 - j))) mod 2 ^ t)"
proof (induction v rule: rev_induct)
  case (snoc d v)
  then have IH: "big_endian t v < 2 ^ (t * length v)"
    "\<And>j. j < length v \<Longrightarrow> unat (v ! j) = (big_endian t v div 2 ^ (t * (length v - 1 - j))) mod 2 ^ t"
    and d: "unat d < 2 ^ t" by simp_all
  have "big_endian t v * 2 ^ t + unat d < (big_endian t v + 1) * 2 ^ t" using d by (simp add: algebra_simps)
  also have "\<dots> \<le> 2 ^ (t * length v) * 2 ^ t" using IH(1) by (intro mult_le_mono1) simp
  finally have lt: "big_endian t (v @ [d]) < 2 ^ (t * length (v @ [d]))" by (simp add: power_add mult.commute)
  have "unat ((v @ [d]) ! j) = (big_endian t (v @ [d]) div 2 ^ (t * (length v - j))) mod 2 ^ t" if "j < Suc (length v)" for j
  proof (cases "j = length v")
    case False
    with that have j: "j < length v" by simp
    then have "length v - j = Suc (length v - 1 - j)" by simp
    with j have e: "t * (length v - j) = t + t * (length v - 1 - j)" "j < length v" by simp_all
    have "big_endian t (v @ [d]) div 2 ^ t = big_endian t v" using d by simp
    then show ?thesis using IH(2) [OF e(2)] e(2) by (simp only: e(1) power_add div_mult2_eq nth_append) simp
  qed (use d in simp)
  with lt show ?case by simp
qed simp

lemma convert_bits_pad:
  assumes "\<forall>d \<in> set data. unat d < 2 ^ f" and "0 < t" and "t \<le> 8" and "f \<le> 8" and "(length data * f + (t - 1)) div t \<le> 256"
  defines "m \<equiv> (length data * f + (t - 1)) div t"
  shows "length (convert_bits data f t False) = m \<and> (\<forall>j < m. unat (convert_bits data f t False ! j)
    = (big_endian f data * 2 ^ (t * m - length data * f) div 2 ^ (t * (m - 1 - j))) mod 2 ^ t)"
proof -
  let ?n = "length data * f" and ?N = "big_endian f data"
  have "?n div t \<le> m" unfolding m_def by (intro div_le_mono) simp
  moreover have "m \<le> 256" using assms(5) by (simp add: m_def)
  ultimately obtain result index bits where
    s: "fold (convert_step f t) data ((replicate m 0, 0, 0), 0) = ((result, index, bits), of_nat ?N)"
      "regrouped t m ?n (?n div t) ?N (result, index, bits)" "bits < t"
    using convert_fold_regrouped [OF assms(2-4), of m data] assms(1)
    by (cases "fold (convert_step f t) data ((replicate m 0, 0, 0), 0)") (auto simp: split_paired_all)
  then have g: "length result = m" "?n = t * (?n div t) + bits" "index = of_nat (?n div t)"
    "\<forall>j < ?n div t. unat (result ! j) = (?N div 2 ^ (?n - t * (j + 1))) mod 2 ^ t" by (simp_all add: regrouped_def)
  let ?q = "?n div t" and ?M = "?N * 2 ^ (t * m - ?n)"
  have m: "m = (if bits = 0 then ?q else Suc ?q)" and le: "?n \<le> t * m" and pad: "bits \<noteq> 0 \<Longrightarrow> t * m - ?n = t - bits"
  proof -
    have "?n + (t - 1) = t * ?q + (bits + (t - 1))" using g(2) by simp
    then have "m = ?q + (bits + (t - 1)) div t" unfolding m_def using assms(2) by (metis add.commute div_mult_self2 not_gr_zero)
    moreover have "(bits + (t - 1)) div t = (if bits = 0 then 0 else 1)"
    proof (cases "bits = 0")
      case False
      then have "bits + (t - 1) = t + (bits - 1)" using assms(2) by simp
      then have "(bits + (t - 1)) div t = Suc ((bits - 1) div t)" using assms(2) by (simp only: div_add_self1)
      then show ?thesis using False s(3) by simp
    qed (use assms(2) in simp)
    ultimately show m: "m = (if bits = 0 then ?q else Suc ?q)" by simp
    show "?n \<le> t * m" using g(2) s(3) by (simp add: m)
    show "t * m - ?n = t - bits" if "bits \<noteq> 0" using that g(2) by (simp add: m)
  qed
  have old: "unat (result ! j) = (?M div 2 ^ (t * (m - 1 - j))) mod 2 ^ t" if "j < ?q" for j
  proof -
    have "t * (j + 1) \<le> t * ?q" using that by (intro mult_le_mono2) simp
    then have le': "t * (j + 1) \<le> ?n" using g(2) by linarith
    have "t * (m - 1 - j) = t * m - t * (j + 1)" by (simp add: diff_mult_distrib2 diff_diff_add)
    then have "t * (m - 1 - j) = (t * m - ?n) + (?n - t * (j + 1))" using le le' by linarith
    then have "?M div 2 ^ (t * (m - 1 - j)) = ?N div 2 ^ (?n - t * (j + 1))" by (simp only: power_add div_mult2_eq) simp
    then show ?thesis using g(4) that by simp
  qed
  have cb: "convert_bits data f t False = (case fold (convert_step f t) data ((replicate m 0, 0, 0), 0) of ((result, index, bits), acc) \<Rightarrow>
      if bits > 0 then result[unat index := ucast (push_bit (t - bits) acc) AND of_nat (2 ^ t - 1)] else result)"
    by (simp only: convert_bits_def m_def Let_def if_False simp_thms) (simp split: prod.split)
  show ?thesis
  proof (cases "bits = 0")
    case True
    then have "convert_bits data f t False = result" by (simp add: cb s(1))
    with True m old g(1) show ?thesis by simp
  next
    case False
    let ?w = "ucast (push_bit (t - bits) (of_nat ?N :: u32)) AND of_nat (2 ^ t - 1) :: byte"
    have i: "unat index = ?q" "?q < m" using False m \<open>m \<le> 256\<close> g(3) by (simp_all add: unat_of_nat)
    have "convert_bits data f t False = result[?q := ?w]"
      using False i(1) by (simp add: cb s(1))
    moreover have "unat ?w = ?M mod 2 ^ t"
      using unat_masked [of "of_nat (?N * 2 ^ (t - bits))" "?N * 2 ^ (t - bits)" 0 t] assms(3) pad [OF False]
      by (simp add: push_bit_eq_mult)
    moreover have "m - 1 = ?q" using m False by simp
    ultimately show ?thesis using old g(1) i(2) by (auto simp: nth_list_update less_Suc_eq m False)
  qed
qed

lemma convert_bits_strict:
  assumes "\<forall>d \<in> set data. unat d < 2 ^ f" and "0 < t" and "t \<le> 8" and "f \<le> 8" and "length data * f div t \<le> 256"
  defines "m \<equiv> length data * f div t"
  shows "length (convert_bits data f t True) = m \<and> (\<forall>j < m. unat (convert_bits data f t True ! j)
    = (big_endian f data div 2 ^ (length data * f - t * (j + 1))) mod 2 ^ t)"
proof -
  have "m \<le> 256" using assms(5) by (simp add: m_def)
  then obtain result index bits where
    s: "fold (convert_step f t) data ((replicate m 0, 0, 0), 0) = ((result, index, bits), of_nat (big_endian f data))"
      "regrouped t m (length data * f) m (big_endian f data) (result, index, bits)"
    using convert_fold_regrouped [OF assms(2-4), of m data] assms(1)
    by (cases "fold (convert_step f t) data ((replicate m 0, 0, 0), 0)") (auto simp: split_paired_all m_def)
  have "convert_bits data f t True = (case fold (convert_step f t) data ((replicate m 0, 0, 0), 0) of ((result, index, bits), acc) \<Rightarrow> result)"
    by (simp only: convert_bits_def m_def Let_def if_True simp_thms if_False) (simp split: prod.split)
  then have "convert_bits data f t True = result" by (simp add: s(1))
  with s(2) show ?thesis by (simp add: regrouped_def)
qed

lemma convert_bits_roundtrip:
  assumes "length data \<le> 150"
  shows "symbols (convert_bits data 8 5 False) \<and> convert_bits (convert_bits data 8 5 False) 5 8 True = data"
proof -
  let ?n = "length data * 8" and ?r = "convert_bits data 8 5 False" and ?N = "big_endian 8 data"
  let ?m = "(?n + 4) div 5"
  let ?M = "?N * 2 ^ (5 * ?m - ?n)"
  have bytes: "\<forall>d \<in> set data. unat d < 2 ^ 8" using unat_byte_lt by simp
  have r: "length ?r = ?m" "\<forall>j < ?m. unat (?r ! j) = (?M div 2 ^ (5 * (?m - 1 - j))) mod 2 ^ 5"
    using convert_bits_pad [OF bytes, of 5] assms by simp_all
  then have lt: "\<forall>d \<in> set ?r. unat d < 2 ^ 5" by (auto simp: in_set_conv_nth)
  have pad: "?n \<le> 5 * ?m" "5 * ?m < ?n + 8" by simp_all
  have "?N < 2 ^ (8 * length data)" using digits_big_endian [OF bytes] by blast
  then have "?M < 2 ^ (8 * length data) * 2 ^ (5 * ?m - ?n)" by simp
  also have "\<dots> = 2 ^ (5 * ?m)" using pad(1) by (simp add: power_add [symmetric] mult.commute)
  finally have M: "big_endian 5 ?r = ?M" using big_endian_digits [of ?r ?M 5] r by simp
  have L: "length ?r * 5 div 8 = length data" using pad by (simp add: r(1) div_nat_eqI mult.commute)
  have "length ?r * 5 div 8 \<le> 256" using L assms by simp
  note st = convert_bits_strict [OF lt _ _ _ this, simplified L, simplified]
  have "convert_bits ?r 5 8 True ! j = data ! j" if "j < length data" for j
  proof -
    have e: "length ?r * 5 - 8 * (j + 1) = (5 * ?m - ?n) + 8 * (length data - 1 - j)"
      using pad that by (simp add: r(1) mult.commute)
    have "unat (convert_bits ?r 5 8 True ! j) = (?M div 2 ^ (length ?r * 5 - 8 * (j + 1))) mod 2 ^ 8"
      using st that M by simp
    also have "?M div 2 ^ (length ?r * 5 - 8 * (j + 1)) = ?N div 2 ^ (8 * (length data - 1 - j))"
      unfolding e by (simp only: power_add div_mult2_eq) simp
    also have "\<dots> mod 2 ^ 8 = unat (data ! j)" using digits_big_endian [OF bytes] that by simp
    finally show ?thesis by (rule unsigned_word_eqI)
  qed
  then show ?thesis using st lt by (simp add: list_eq_iff_nth_eq symbols_def list_all_iff word_less_nat_alt)
qed


section \<open>Addresses of scripts\<close>

lemma address_of_hash:
  assumes "letters prefix" and "prefix \<noteq> []" and "length h = 20"
    and "ucast (ucast (get_type_bits (fst (to_address v))) + get_hash_size_bits (snd (to_address v)) :: u16) = (b :: byte)"
    and "snd (to_address v) = h"
  shows "\<exists>s. to_cashaddr prefix v = Ok s \<and> from_cashaddr s
    = (if b AND 120 = 0 then Ok ([0x76, 0xA9, 20] @ h @ [0x88, 0xAC]) else if b AND 120 = 8 then Ok ([0xA9, 20] @ h @ [0x87]) else Ok [])"
proof -
  let ?p = "convert_bits (b # h) 8 5 False"
  have rt: "symbols ?p" "convert_bits ?p 5 8 True = b # h" using convert_bits_roundtrip [of "b # h"] assms(3) by simp_all
  obtain s where s: "addr_encode prefix ?p = Ok s" "addr_decode s = Ok (prefix, ?p)"
    using decode_encoded [OF assms(1,2) rt(1)] encode_symbols [OF rt(1), of prefix] by auto
  then have "to_cashaddr prefix v = Ok s" using assms(4,5) by (simp add: to_cashaddr_def Let_def)
  moreover have "from_cashaddr s = (if b AND 120 = 0 then Ok ([0x76, 0xA9, 20] @ h @ [0x88, 0xAC])
      else if b AND 120 = 8 then Ok ([0xA9, 20] @ h @ [0x87]) else Ok [])"
    using assms(2,3) s(2) rt(2) by (simp add: from_cashaddr_def)
  ultimately show ?thesis by blast
qed

text \<open>C38: the address of a pay-to-public-key-hash script names that script: written with any lower-case
  prefix and read back, it gives the script with the same hash.\<close>

theorem p2pkh_address_roundtrip:
  assumes "letters prefix" and "prefix \<noteq> []" and "length h = 20"
  shows "res_bind (to_cashaddr prefix ([0x76, 0xA9, 20] @ h @ [0x88, 0xAC])) from_cashaddr = Ok ([0x76, 0xA9, 20] @ h @ [0x88, 0xAC])"
proof -
  have a: "to_address ([0x76, 0xA9, 20] @ h @ [0x88, 0xAC]) = (''P2PKH'', h)" using assms(3) by (simp add: to_address_def)
  then show ?thesis
    using address_of_hash [OF assms, of "[0x76, 0xA9, 20] @ h @ [0x88, 0xAC]" 0] assms(3)
    by (auto simp: get_type_bits_def get_hash_size_bits_def)
qed

text \<open>C39: the address of a pay-to-script-hash script names another script: \<open>to_address\<close> takes the length byte
  for the first byte of the hash and drops the last, so that reading the address back gives a script
  whose hash is shifted by one byte, and the original only if all bytes of the hash are 20.\<close>

theorem p2sh_address_shifted:
  assumes "letters prefix" and "prefix \<noteq> []" and "length h = 20"
  shows "res_bind (to_cashaddr prefix ([0xA9, 20] @ h @ [0x87])) from_cashaddr = Ok ([0xA9, 20] @ (20 # butlast h) @ [0x87])
    \<and> (20 # butlast h = h \<longleftrightarrow> h = replicate 20 20)"
proof -
  have "drop 1 ([0xA9, 20] @ h @ [0x87]) = (20 # butlast h) @ [last h, 0x87]"
    using assms(3) by (cases h rule: rev_cases) simp_all
  moreover have l: "length (20 # butlast h) = 20" using assms(3) by simp
  ultimately have "take 20 (drop 1 ([0xA9, 20] @ h @ [0x87])) = 20 # butlast h" by (metis append_eq_conv_conj)
  moreover have "([0xA9, 20] @ h @ [0x87]) ! 22 = 0x87" using assms(3) by (simp add: nth_append)
  ultimately have a: "to_address ([0xA9, 20] @ h @ [0x87]) = (''P2SH'', 20 # butlast h)" using assms(3) by (simp add: to_address_def)
  have "h = replicate 20 20" if e: "20 # butlast h = h"
  proof -
    have "h ! i = 20" if "i < 20" for i
      using that
    proof (induction i)
      case 0
      then show ?case by (subst e [symmetric]) simp
    next
      case (Suc i)
      then have "(20 # butlast h) ! Suc i = h ! i" using assms(3) by (simp add: nth_butlast)
      with Suc show ?case by (simp only: e)
    qed
    then show ?thesis using assms(3) by (simp add: list_eq_iff_nth_eq)
  qed
  moreover have "butlast (replicate 20 20) = replicate 19 (20 :: byte)" by (simp add: butlast_conv_take)
  then have "20 # butlast h = h" if "h = replicate 20 20" using that by (simp add: numeral_eq_Suc)
  moreover have "res_bind (to_cashaddr prefix ([0xA9, 20] @ h @ [0x87])) from_cashaddr = Ok ([0xA9, 20] @ (20 # butlast h) @ [0x87])"
  proof -
    have "ucast (ucast (get_type_bits ''P2SH'') + get_hash_size_bits (20 # butlast h) :: u16) = (8 :: byte)"
      using l by (simp add: get_type_bits_def get_hash_size_bits_def)
    then obtain s where "to_cashaddr prefix ([0xA9, 20] @ h @ [0x87]) = Ok s" "from_cashaddr s = Ok ([0xA9, 20] @ (20 # butlast h) @ [0x87])"
      using address_of_hash [OF assms(1,2) l, of "[0xA9, 20] @ h @ [0x87]" 8] a by auto
    then show ?thesis by simp
  qed
  ultimately show ?thesis by blast
qed

text \<open>An address can make the server read outside its data: an address without a payload, which has a
  correct checksum for every prefix, reads the first element of an empty buffer, and there are
  texts with a correct checksum and fewer than eight symbols, for which the end of the payload lies
  before its start.\<close>

theorem empty_address_oob:
  assumes "letters prefix" and "prefix \<noteq> []"
  shows "res_bind (addr_encode prefix []) from_cashaddr = Oob \<and> addr_decode (ascii ''c:qvdy2z3'') = Oob"
proof
  obtain s where "addr_encode prefix [] = Ok s" "addr_decode s = Ok (prefix, [])"
    using decode_encoded [OF assms, of "[]"] encode_symbols [of "[]" prefix] by (auto simp: symbols_def)
  then show "res_bind (addr_encode prefix []) from_cashaddr = Oob"
    using assms(2) by (simp add: from_cashaddr_def convert_bits_def)
  show "addr_decode (ascii ''c:qvdy2z3'') = Oob" by code_simp
qed

text \<open>The prefix the server starts with.\<close>

lemma example_prefix: "letters (ascii ''simpleledger'')" "ascii ''simpleledger'' \<noteq> []"
  by code_simp+

theorem p2pkh_address_roundtrip_witness:
  "res_bind (to_cashaddr (ascii ''simpleledger'') ([0x76, 0xA9, 20] @ replicate 20 7 @ [0x88, 0xAC])) from_cashaddr
    = Ok ([0x76, 0xA9, 20] @ replicate 20 7 @ [0x88, 0xAC])"
  by (rule p2pkh_address_roundtrip [OF example_prefix]) simp

theorem p2sh_address_shifted_witness:
  "res_bind (to_cashaddr (ascii ''simpleledger'') ([0xA9, 20] @ replicate 20 7 @ [0x87])) from_cashaddr
    = Ok ([0xA9, 20] @ (20 # butlast (replicate 20 7)) @ [0x87])"
  using p2sh_address_shifted [OF example_prefix, of "replicate 20 7"] by simp

theorem empty_address_oob_witness:
  "res_bind (addr_encode (ascii ''simpleledger'') []) from_cashaddr = Oob"
  using empty_address_oob [OF example_prefix] by simp

theorem checksum_detects_bursts_witness:
  "verify_checksum [97] ([] @ [] @ create_checksum [97] []) \<and> \<not> verify_checksum [97] ([] @ [1] @ tl (create_checksum [97] []))"
proof -
  have "verify_checksum [97] ([] @ [hd (create_checksum [97] [])] @ tl (create_checksum [97] []))" "hd (create_checksum [97] []) = 17"
    by code_simp+
  then show ?thesis
    using checksum_detects_bursts [of "[17]" "[1]" "[97]" "[]" "tl (create_checksum [97] [])"] polymod_checksum [of "[97]" "[]"] by auto
qed

end
