(* ===== verification/TokenService.thy ===== *)
theory TokenService
  imports UtxoSync CashAddr
begin

text \<open>
  The handlers of \<open>server/gs++.cpp\<close> that read the database of unspent outputs: \<open>SlpOutpoints\<close>,
  \<open>SlpUtxos\<close>, \<open>SlpTokenInfo\<close>, \<open>SlpTokenBalance\<close> and \<open>SlpAllTokenBalances\<close> of the graph search
  service, and the \<open>UtxoService\<close>. Each is one step under the processing lock. An exception that leaves
  a handler is the outcome \<open>Fail\<close>, reading outside the data is \<open>Oob\<close>; \<open>ord\<close> is the order in which a
  hash set is walked.
\<close>

section \<open>Looking up transactions\<close>

type_synonym output_order = "gs_output list \<Rightarrow> gs_output list"

definition get_tx :: "slp_validator \<Rightarrow> txid \<Rightarrow> transaction parse" where
  "get_tx V t = (case validator_get V t of VOk tx \<Rightarrow> Ok tx | _ \<Rightarrow> Fail ''std::out_of_range'')"

definition genesis_info :: "transaction \<Rightarrow> slp_transaction_genesis parse" where
  "genesis_info tx = (case slp_tx (slp tx) of SlpGenesis g \<Rightarrow> Ok g | _ \<Rightarrow> Fail ''absl::bad_variant_access'')"

text \<open>The limit \<open>1e5\<close> the handlers ask for.\<close>

definition all_utxos :: "output_order \<Rightarrow> utxodb \<Rightarrow> scriptpubkey \<Rightarrow> gs_output list" where
  "all_utxos ord db k = get_outputs_by_scriptpubkey ord db k 100000"

definition with_script :: "bytes \<Rightarrow> 'a \<Rightarrow> (scriptpubkey \<Rightarrow> (grpc_status \<times> 'a) parse) \<Rightarrow> (grpc_status \<times> 'a) parse" where
  "with_script cashaddr reply f = res_bind (from_cashaddr cashaddr) (\<lambda>k.
     if k = [] then Ok (InvalidArgument ''invalid cashaddr'', reply) else f k)"

definition read_tokenid :: "bytes \<Rightarrow> tokenid parse" where
  "read_tokenid s = bhash (rev (unhex s))"

fun to_string :: "nat \<Rightarrow> bytes" where
  "to_string n = (if n < 10 then [of_nat (48 + n)] else to_string (n div 10) @ [of_nat (48 + n mod 10)])"

section \<open>The token handlers\<close>

definition slp_outpoints :: "output_order \<Rightarrow> utxodb \<Rightarrow> bytes \<Rightarrow> (grpc_status \<times> bytes list) parse" where
  "slp_outpoints ord db cashaddr = with_script cashaddr [] (\<lambda>k. Ok (StatusOK,
     map (\<lambda>u. bhash_decompress True (prev_tx_id u) @ ascii '':'' @ to_string (unat (prev_out_idx u))) (all_utxos ord db k)))"

record slp_utxo =
  su_txid :: bytes
  su_vout :: u32
  su_satoshis :: u64
  su_value :: u64
  su_decimals :: u32
  su_ticker :: bytes
  su_tokenid :: bytes
  su_type :: u16
  su_isbaton :: bool

definition slp_utxo_of :: "slp_validator \<Rightarrow> gs_output \<Rightarrow> slp_utxo parse" where
  "slp_utxo_of V u = res_bind (get_tx V (prev_tx_id u)) (\<lambda>tx.
     res_bind (get_tx V (slp_tokenid (slp tx))) (\<lambda>genesis_tx.
     res_bind (genesis_info genesis_tx) (\<lambda>g.
     res_bind (output_at tx (unat (prev_out_idx u))) (\<lambda>out.
     Ok \<lparr>su_txid = bhash_decompress True (prev_tx_id u), su_vout = prev_out_idx u, su_satoshis = out_value out,
         su_value = output_slp_amount tx (ucast (prev_out_idx u)), su_decimals = decimals g, su_ticker = ticker g,
         su_tokenid = bhash_decompress True (txid genesis_tx), su_type = slp_token_type (slp tx),
         su_isbaton = (op_vout (mint_baton_outpoint tx) = prev_out_idx u)\<rparr>))))"

fun slp_utxo_list :: "slp_validator \<Rightarrow> gs_output list \<Rightarrow> slp_utxo list parse" where
  "slp_utxo_list V [] = Ok []"
| "slp_utxo_list V (u # us) = res_bind (slp_utxo_of V u) (\<lambda>el. res_bind (slp_utxo_list V us) (\<lambda>els. Ok (el # els)))"

definition slp_utxos :: "output_order \<Rightarrow> slp_validator \<Rightarrow> utxodb \<Rightarrow> bytes \<Rightarrow> (grpc_status \<times> slp_utxo list) parse" where
  "slp_utxos ord V db cashaddr = with_script cashaddr [] (\<lambda>k.
     res_bind (slp_utxo_list V (all_utxos ord db k)) (\<lambda>utxos. Ok (StatusOK, utxos)))"

record token_info =
  ti_name :: bytes
  ti_ticker :: bytes
  ti_tokenid :: bytes
  ti_initialamount :: u64
  ti_decimals :: u32
  ti_documenthash :: bytes
  ti_documenturl :: bytes
  ti_type :: u16
  ti_groupid :: bytes

definition token_info_of :: "transaction \<Rightarrow> slp_transaction_genesis \<Rightarrow> bytes \<Rightarrow> token_info" where
  "token_info_of genesis_tx g groupid = \<lparr>ti_name = name g, ti_ticker = ticker g, ti_tokenid = bhash_decompress True (txid genesis_tx),
     ti_initialamount = genesis_qty g, ti_decimals = decimals g, ti_documenthash = gs_hex (document_hash g),
     ti_documenturl = document_uri g, ti_type = slp_token_type (slp genesis_tx), ti_groupid = groupid\<rparr>"

text \<open>The group of an NFT child: the token of the transaction its GENESIS spends.\<close>

definition group_of :: "slp_validator \<Rightarrow> transaction \<Rightarrow> bytes parse" where
  "group_of V genesis_tx = (if slp_token_type (slp genesis_tx) = 0x41 then (case inputs genesis_tx of
         [] \<Rightarrow> Oob
       | i # _ \<Rightarrow> res_bind (get_tx V (op_txid i)) (\<lambda>txi. Ok (bhash_decompress True (slp_tokenid (slp txi)))))
     else Ok [])"

definition slp_token_info :: "slp_validator \<Rightarrow> bytes \<Rightarrow> (grpc_status \<times> token_info option) parse" where
  "slp_token_info V s =
     (if \<not> txid_regex s then Ok (InvalidArgument (''invalid tokenId'' @ map char_of_byte s), None)
      else res_bind (read_tokenid s) (\<lambda>t.
        if \<not> validator_has V t then Ok (NotFound (''token '' @ map char_of_byte s @ '' not found''), None)
        else res_bind (get_tx V t) (\<lambda>genesis_tx. res_bind (genesis_info genesis_tx) (\<lambda>g.
          res_bind (group_of V genesis_tx) (\<lambda>groupid. Ok (StatusOK, Some (token_info_of genesis_tx g groupid)))))))"

record token_balance =
  tb_value :: u64
  tb_decimals :: u32
  tb_ticker :: bytes
  tb_name :: bytes
  tb_tokenid :: bytes
  tb_type :: u16

definition token_balance_new :: token_balance where
  "token_balance_new = \<lparr>tb_value = 0, tb_decimals = 0, tb_ticker = [], tb_name = [], tb_tokenid = [], tb_type = 0\<rparr>"

text \<open>A balance with what the GENESIS of the token says about it.\<close>

definition token_balance_of :: "slp_validator \<Rightarrow> tokenid \<Rightarrow> u64 \<Rightarrow> token_balance parse" where
  "token_balance_of V t balance = res_bind (get_tx V t) (\<lambda>genesis_tx. res_bind (genesis_info genesis_tx) (\<lambda>g.
     Ok \<lparr>tb_value = balance, tb_decimals = decimals g, tb_ticker = ticker g, tb_name = name g,
         tb_tokenid = bhash_decompress True (txid genesis_tx), tb_type = slp_token_type (slp genesis_tx)\<rparr>))"

fun balance_loop :: "slp_validator \<Rightarrow> tokenid \<Rightarrow> gs_output list \<Rightarrow> u64 \<Rightarrow> u64 parse" where
  "balance_loop V t [] balance = Ok balance"
| "balance_loop V t (u # us) balance = res_bind (get_tx V (prev_tx_id u)) (\<lambda>tx.
     if slp_tokenid (slp tx) \<noteq> t then balance_loop V t us balance
     else balance_loop V t us (balance + output_slp_amount tx (ucast (prev_out_idx u))))"

definition slp_token_balance ::
    "output_order \<Rightarrow> slp_validator \<Rightarrow> utxodb \<Rightarrow> bytes \<Rightarrow> bytes \<Rightarrow> (grpc_status \<times> token_balance) parse" where
  "slp_token_balance ord V db cashaddr s = with_script cashaddr token_balance_new (\<lambda>k.
     if \<not> txid_regex s then Ok (InvalidArgument (''invalid tokenId'' @ map char_of_byte s), token_balance_new)
     else res_bind (read_tokenid s) (\<lambda>t. res_bind (balance_loop V t (all_utxos ord db k) 0) (\<lambda>balance.
       if balance = 0 then Ok (StatusOK, token_balance_new\<lparr>tb_tokenid := s\<rparr>)
       else res_bind (token_balance_of V t balance) (\<lambda>reply. Ok (StatusOK, reply)))))"

fun balances_loop :: "slp_validator \<Rightarrow> gs_output list \<Rightarrow> (tokenid \<rightharpoonup> u64) \<Rightarrow> (tokenid \<rightharpoonup> u64) parse" where
  "balances_loop V [] balances = Ok balances"
| "balances_loop V (u # us) balances = res_bind (get_tx V (prev_tx_id u)) (\<lambda>tx. let t = slp_tokenid (slp tx) in
     balances_loop V us (balances(t \<mapsto> (case balances t of None \<Rightarrow> 0 | Some b \<Rightarrow> b) + output_slp_amount tx (ucast (prev_out_idx u)))))"

fun balance_list :: "slp_validator \<Rightarrow> (tokenid \<rightharpoonup> u64) \<Rightarrow> tokenid list \<Rightarrow> token_balance list parse" where
  "balance_list V balances [] = Ok []"
| "balance_list V balances (t # ts) = res_bind (token_balance_of V t (the (balances t))) (\<lambda>el.
     res_bind (balance_list V balances ts) (\<lambda>els. Ok (el # els)))"

definition slp_all_token_balances ::
    "output_order \<Rightarrow> (tokenid set \<Rightarrow> tokenid list) \<Rightarrow> slp_validator \<Rightarrow> utxodb \<Rightarrow> bytes \<Rightarrow> (grpc_status \<times> token_balance list) parse" where
  "slp_all_token_balances ord tord V db cashaddr = with_script cashaddr [] (\<lambda>k.
     res_bind (balances_loop V (all_utxos ord db k) Map.empty) (\<lambda>balances.
     res_bind (balance_list V balances (tord (dom balances))) (\<lambda>els. Ok (StatusOK, els))))"

section \<open>The UTXO service\<close>

record utxo_output =
  uo_prev_tx_id :: bytes
  uo_prev_out_idx :: u32
  uo_value :: u64
  uo_scriptpubkey :: bytes

definition utxo_output_of :: "gs_output \<Rightarrow> utxo_output" where
  "utxo_output_of u = \<lparr>uo_prev_tx_id = prev_tx_id u, uo_prev_out_idx = prev_out_idx u, uo_value = out_value u, uo_scriptpubkey = out_script u\<rparr>"

fun read_outpoints :: "(bytes \<times> u32) list \<Rightarrow> outpoint list parse" where
  "read_outpoints [] = Ok []"
| "read_outpoints ((t, v) # os) = res_bind (bhash t) (\<lambda>h. res_bind (read_outpoints os) (\<lambda>ps. Ok (\<lparr>op_txid = h, op_vout = v\<rparr> # ps)))"

definition utxo_search_by_outpoints :: "utxodb \<Rightarrow> (bytes \<times> u32) list \<Rightarrow> (grpc_status \<times> utxo_output list) parse" where
  "utxo_search_by_outpoints db request = res_bind (read_outpoints request) (\<lambda>outpoints.
     Ok (StatusOK, map utxo_output_of (get_outputs_by_outpoints db outpoints)))"

definition utxo_search_by_scriptpubkey ::
    "output_order \<Rightarrow> utxodb \<Rightarrow> scriptpubkey \<Rightarrow> u32 \<Rightarrow> grpc_status \<times> utxo_output list" where
  "utxo_search_by_scriptpubkey ord db k limit = (StatusOK, map utxo_output_of (get_outputs_by_scriptpubkey ord db k limit))"

definition balance_by_scriptpubkey :: "output_order \<Rightarrow> utxodb \<Rightarrow> scriptpubkey \<Rightarrow> grpc_status \<times> u64" where
  "balance_by_scriptpubkey ord db k = (StatusOK, get_balance_by_scriptpubkey ord db k)"


section \<open>What the listed outputs claim\<close>

text \<open>
  A walk gives all elements, in any order. A listed output claims the token and the amount its
  transaction's message names, and a script holds of a token what its outputs claim, modulo \<open>2^64\<close>.
\<close>

definition walks :: "output_order \<Rightarrow> bool" where
  "walks ord \<longleftrightarrow> (\<forall>S. mset (ord S) = mset S)"

definition creator :: "slp_validator \<Rightarrow> gs_output \<Rightarrow> transaction" where
  "creator V u = the (transaction_map V (prev_tx_id u))"

definition claimed_token :: "slp_validator \<Rightarrow> gs_output \<Rightarrow> tokenid" where
  "claimed_token V u = slp_tokenid (slp (creator V u))"

definition holds :: "slp_validator \<Rightarrow> tokenid \<Rightarrow> gs_output list \<Rightarrow> u64" where
  "holds V t us = (\<Sum>u \<leftarrow> filter (\<lambda>u. claimed_token V u = t) us. output_slp_amount (creator V u) (ucast (prev_out_idx u)))"

definition token_genesis :: "slp_validator \<Rightarrow> tokenid \<Rightarrow> (transaction \<times> slp_transaction_genesis) option" where
  "token_genesis V t = (case transaction_map V t of None \<Rightarrow> None
     | Some tx \<Rightarrow> (case slp_tx (slp tx) of SlpGenesis g \<Rightarrow> Some (tx, g) | _ \<Rightarrow> None))"

definition has_creator :: "slp_validator \<Rightarrow> gs_output \<Rightarrow> bool" where
  "has_creator V u \<longleftrightarrow> prev_tx_id u \<in> dom (transaction_map V) \<and> unat (prev_out_idx u) < length (outputs (creator V u))"

lemma holds_simps [simp]:
  "holds V t [] = 0"
  "holds V t (u # us) = (if claimed_token V u = t then output_slp_amount (creator V u) (ucast (prev_out_idx u)) else 0) + holds V t us"
  by (simp_all add: holds_def)

lemma holds_none: "t \<notin> claimed_token V ` set us \<Longrightarrow> holds V t us = 0"
  by (induction us) auto

lemma get_creator: "has_creator V u \<Longrightarrow> get_tx V (prev_tx_id u) = Ok (creator V u)"
  by (auto simp: has_creator_def creator_def get_tx_def validator_get_def)

lemma balance_loop_holds: "list_all (has_creator V) us \<Longrightarrow> balance_loop V t us b = Ok (b + holds V t us)"
  by (induction us arbitrary: b) (simp_all add: get_creator claimed_token_def add.assoc)

lemma balances_loop_holds:
  "list_all (has_creator V) us \<Longrightarrow> balances_loop V us B = Ok (\<lambda>t. if t \<in> claimed_token V ` set us
     then Some ((case B t of None \<Rightarrow> 0 | Some b \<Rightarrow> b) + holds V t us) else B t)"
proof (induction us arbitrary: B)
  case (Cons u us)
  then show ?case
    by (auto simp: get_creator Let_def claimed_token_def [symmetric] fun_eq_iff add.assoc holds_none image_iff split: option.split)
qed simp

text \<open>What a GENESIS says, once for the replies that quote it.\<close>

definition balance_entry :: "transaction \<Rightarrow> slp_transaction_genesis \<Rightarrow> u64 \<Rightarrow> token_balance" where
  "balance_entry tx g b = \<lparr>tb_value = b, tb_decimals = decimals g, tb_ticker = ticker g, tb_name = name g,
     tb_tokenid = bhash_decompress True (txid tx), tb_type = slp_token_type (slp tx)\<rparr>"

lemma token_genesis_read:
  "token_genesis V t = Some (tx, g) \<Longrightarrow> get_tx V t = Ok tx \<and> genesis_info tx = Ok g"
  "token_genesis V t = None \<Longrightarrow> \<exists>e. res_bind (get_tx V t) (\<lambda>tx. res_bind (genesis_info tx) (f tx)) = Fail e"
  by (auto simp: token_genesis_def get_tx_def validator_get_def genesis_info_def split: option.splits slp_tx_variant.splits)

lemma token_balance_of_eq:
  "token_genesis V t = Some (tx, g) \<Longrightarrow> token_balance_of V t b = Ok (balance_entry tx g b)"
  "token_genesis V t = None \<Longrightarrow> \<exists>e. token_balance_of V t b = Fail e"
  using token_genesis_read(1) [of V t tx g] token_genesis_read(2) [of V t] by (simp_all add: token_balance_of_def balance_entry_def)

lemma balance_list_eq:
  "if \<forall>t \<in> set ts. token_genesis V t \<noteq> None
   then balance_list V B ts = Ok (map (\<lambda>t. case_prod balance_entry (the (token_genesis V t)) (the (B t))) ts)
   else \<exists>e. balance_list V B ts = Fail e"
proof (induction ts)
  case (Cons t ts)
  show ?case
  proof (cases "token_genesis V t")
    case None
    then show ?thesis using token_balance_of_eq(2) [OF None, of "the (B t)"] by auto
  next
    case (Some p)
    then obtain tx g where "token_genesis V t = Some (tx, g)" by (cases p) simp
    with Cons.IH show ?thesis by (auto simp: token_balance_of_eq split: if_splits)
  qed
qed simp


section \<open>Listings of a reachable server\<close>

abbreviation server_reach :: "bool \<Rightarrow> (txid \<Rightarrow> transaction) \<Rightarrow> server \<times> txid set \<Rightarrow> bool" where
  "server_reach utxosync X \<equiv> reach (\<lambda>st. st = (server_new, {})) (server_step utxosync X)"

abbreviation sv_validator :: "server \<Rightarrow> slp_validator" where
  "sv_validator s \<equiv> sy_validator (sv_sync s)"

abbreviation sv_utxodb :: "server \<Rightarrow> utxodb" where
  "sv_utxodb s \<equiv> b_utxodb (sv_bch s)"

lemma push_outputs_set: "u \<in> set (push_outputs P limit us ret) \<Longrightarrow> u \<in> set ret \<or> u \<in> set us"
proof (induction us arbitrary: ret)
  case (Cons v us)
  then show ?case by (cases "P v") (fastforce simp: Let_def split: if_splits)+
qed simp

lemma walks_set: "walks ord \<Longrightarrow> set (ord S) = set S"
  unfolding walks_def by (metis set_mset_mset)

lemma listed_entries:
  assumes "walks ord" and "u \<in> set (get_outputs_by_scriptpubkey ord db k limit)"
  shows "u \<in> set (entries (u_scriptpubkey_to_output db) k) \<union> set (entries (u_mempool_scriptpubkey_to_output db) k)"
proof -
  let ?ret = "case u_scriptpubkey_to_output db k of None \<Rightarrow> [] | Some S \<Rightarrow> push_outputs (unspent db) (unat limit) (ord S) []"
  have c: "u \<in> set (entries (u_scriptpubkey_to_output db) k)" if "u \<in> set ?ret"
    using that by (cases "u_scriptpubkey_to_output db k") (auto simp: entries_def walks_set [OF assms(1)] dest: push_outputs_set)
  have "u \<in> set ?ret \<or> u \<in> set (entries (u_mempool_scriptpubkey_to_output db) k)"
  proof (cases "u_mempool_scriptpubkey_to_output db k")
    case (Some S)
    then show ?thesis using assms(2) push_outputs_set [of u "\<lambda>_. True" _ "ord S" ?ret]
      by (auto simp: get_outputs_by_scriptpubkey_def entries_def Let_def walks_set [OF assms(1)] simp del: push_outputs.simps split: if_splits)
  qed (use assms(2) in \<open>simp add: get_outputs_by_scriptpubkey_def Let_def split: if_splits\<close>)
  with c show ?thesis by blast
qed

lemma listed_created:
  assumes "server_inv X s" and "walks ord" and "u \<in> set (get_outputs_by_scriptpubkey ord (sv_utxodb s) k limit)"
  shows "has_creator (sv_validator s) u \<and> out_script u = k \<and> placed_tx X (creator (sv_validator s) u)
    \<and> outputs (creator (sv_validator s) u) ! unat (prev_out_idx u) = u \<and> txid (creator (sv_validator s) u) = prev_tx_id u"
proof -
  let ?db = "sv_utxodb s"
  have ok: "utxo_ok (output_named X) ?db" "\<And>p. p \<in> dom (u_outpoint_map ?db) \<union> dom (u_mempool_outpoint_map ?db) \<Longrightarrow> backed X (sv_validator s) p"
    using assms(1) by (simp_all add: server_inv_def db_ok_def)
  then have i: "index_sound (u_outpoint_map ?db) (u_scriptpubkey_to_output ?db)"
    "index_sound (u_mempool_outpoint_map ?db) (u_mempool_scriptpubkey_to_output ?db)" by (simp_all add: utxo_ok_def)
  have "(u_outpoint_map ?db (outpoint_of u) = Some u \<or> u_mempool_outpoint_map ?db (outpoint_of u) = Some u) \<and> out_script u = k"
    using listed_entries [OF assms(2,3)] index_sound_D(1) [OF i(1)] index_sound_D(1) [OF i(2)] by blast
  moreover have "table_ok (output_named X) (u_outpoint_map ?db)" "table_ok (output_named X) (u_mempool_outpoint_map ?db)"
    using ok(1) by (simp_all add: utxo_ok_def)
  ultimately have u: "backed X (sv_validator s) (outpoint_of u)" "out_script u = k" "u = output_named X (outpoint_of u)"
    using ok(2) table_ok_D by blast+
  then obtain tx where "transaction_map (sv_validator s) (prev_tx_id u) = Some tx" by (auto simp: backed_def outpoint_of_def)
  moreover from this have "txid tx = prev_tx_id u \<and> placed_tx X tx" using assms(1) unfolding server_inv_def known_txs_def by blast
  moreover from this have "X (prev_tx_id u) = tx" by (auto simp: placed_tx_def)
  ultimately show ?thesis using u(1,2) u(3) [symmetric]
    by (simp add: has_creator_def creator_def backed_def output_named_def outpoint_of_def domI)
qed

lemma server_reach_inv: "server_reach utxosync X (s, T) \<Longrightarrow> server_inv X s"
  using full.reach_inv by fastforce

lemma server_reach_sync: "server_reach utxosync X (s, T) \<Longrightarrow> sync_reach (sv_sync s, T)"
proof -
  assume "server_reach utxosync X (s, T)"
  then have "sync_step\<^sup>*\<^sup>* (sync_new, {}) (sv_sync s, T)"
    using full.reach_refines by (fastforce simp: server_new_def)
  moreover have "sync_reach (sync_new, {})" by (rule reach_init) simp
  ultimately show ?thesis by (rule sv.reach_rtranclp [rotated])
qed

lemma listed_all_created:
  "server_reach utxosync X (s, T) \<Longrightarrow> walks ord \<Longrightarrow> list_all (has_creator (sv_validator s)) (all_utxos ord (sv_utxodb s) k)"
  using listed_created [OF server_reach_inv] by (auto simp: list_all_iff all_utxos_def)

lemma length_unhex: "length (unhex s) = length s div 2"
  by (induction s rule: unhex.induct) auto

lemma tokenid_text: "txid_regex s \<Longrightarrow> read_tokenid s = Ok (rev (unhex s))"
  by (simp add: txid_regex_def read_tokenid_def bhash_def length_unhex)

lemma with_script_known: "from_cashaddr addr = Ok k \<Longrightarrow> k \<noteq> [] \<Longrightarrow> with_script addr reply f = f k"
  by (simp add: with_script_def)

text \<open>C5: the balance of an address in a token is what its listed outputs claim: on a server that has only
  run, the handler sums, modulo 2^64, the amounts that the messages of the creating transactions
  name for the listed outputs of the address, and answers with the data of the GENESIS, or with
  zero; it fails exactly when the sum is not zero and the token id is not that of a GENESIS the server
  has. Whether a creating transaction is valid has no part in it.\<close>

theorem token_balance_claimed:
  assumes "server_reach utxosync X (s, T)" and "walks ord"
    and "from_cashaddr addr = Ok k" and "k \<noteq> []" and "txid_regex tokenid"
    and "holds (sv_validator s) (rev (unhex tokenid)) (all_utxos ord (sv_utxodb s) k) = balance"
  shows "if balance = 0 then slp_token_balance ord (sv_validator s) (sv_utxodb s) addr tokenid = Ok (StatusOK, token_balance_new\<lparr>tb_tokenid := tokenid\<rparr>)
    else case token_genesis (sv_validator s) (rev (unhex tokenid)) of
        Some (tx, g) \<Rightarrow> slp_token_balance ord (sv_validator s) (sv_utxodb s) addr tokenid = Ok (StatusOK, balance_entry tx g balance)
      | None \<Rightarrow> \<exists>e. slp_token_balance ord (sv_validator s) (sv_utxodb s) addr tokenid = Fail e"
proof -
  have "slp_token_balance ord (sv_validator s) (sv_utxodb s) addr tokenid
      = (if balance = 0 then Ok (StatusOK, token_balance_new\<lparr>tb_tokenid := tokenid\<rparr>)
         else res_bind (token_balance_of (sv_validator s) (rev (unhex tokenid)) balance) (\<lambda>reply. Ok (StatusOK, reply)))"
    using assms(6) balance_loop_holds [OF listed_all_created [OF assms(1,2)]]
    by (simp add: slp_token_balance_def with_script_known [OF assms(3,4)] tokenid_text assms(5))
  then show ?thesis
    using token_balance_of_eq(2) [of "sv_validator s" "rev (unhex tokenid)" balance]
    by (auto simp: token_balance_of_eq(1) split: option.split)
qed


section \<open>All balances and all outputs\<close>

definition all_named :: "slp_validator \<Rightarrow> gs_output list \<Rightarrow> bool" where
  "all_named V us \<longleftrightarrow> list_all (\<lambda>u. token_genesis V (claimed_token V u) \<noteq> None) us"

text \<open>The list of balances has one entry for every token some listed output claims.\<close>

lemma all_balances_eq:
  assumes "list_all (has_creator V) (all_utxos ord db k)" and "from_cashaddr addr = Ok k" and "k \<noteq> []" and "enumerates tord"
  shows "if all_named V (all_utxos ord db k)
    then slp_all_token_balances ord tord V db addr = Ok (StatusOK,
      map (\<lambda>t. case_prod balance_entry (the (token_genesis V t)) (holds V t (all_utxos ord db k)))
        (tord (claimed_token V ` set (all_utxos ord db k))))
    else \<exists>e. slp_all_token_balances ord tord V db addr = Fail e"
proof -
  let ?us = "all_utxos ord db k"
  let ?K = "claimed_token V ` set ?us" and ?B = "\<lambda>t. if t \<in> claimed_token V ` set ?us then Some (holds V t ?us) else None"
  have "slp_all_token_balances ord tord V db addr = res_bind (balance_list V ?B (tord ?K)) (\<lambda>els. Ok (StatusOK, els))"
    by (simp add: slp_all_token_balances_def with_script_known [OF assms(2,3)] balances_loop_holds [OF assms(1)] dom_if cong: if_cong)
  moreover have "set (tord ?K) = ?K" using assms(4) by (simp add: enumerates_def)
  moreover have "map (\<lambda>t. case_prod balance_entry (the (token_genesis V t)) (the (?B t))) (tord ?K)
      = map (\<lambda>t. case_prod balance_entry (the (token_genesis V t)) (holds V t ?us)) (tord ?K)"
    using \<open>set (tord ?K) = ?K\<close> by (intro map_cong) auto
  ultimately show ?thesis using balance_list_eq [of "tord ?K" V ?B] by (auto simp: all_named_def list_all_iff split: if_splits)
qed

lemma slp_utxo_list_total:
  "list_all (has_creator V) us \<Longrightarrow> if all_named V us then \<exists>els. slp_utxo_list V us = Ok els else \<exists>e. slp_utxo_list V us = Fail e"
proof (induction us)
  case (Cons u us)
  then have u: "get_tx V (prev_tx_id u) = Ok (creator V u)" "\<exists>x. output_at (creator V u) (unat (prev_out_idx u)) = Ok x"
    by (simp_all add: get_creator) (simp add: has_creator_def output_at_def)
  show ?case
  proof (cases "token_genesis V (claimed_token V u)")
    case None
    then obtain e where "slp_utxo_of V u = Fail e"
      using token_genesis_read(2) [OF None] u(1) unfolding slp_utxo_of_def claimed_token_def by fastforce
    with None show ?thesis by (auto simp: all_named_def)
  next
    case (Some p)
    then have "\<exists>el. slp_utxo_of V u = Ok el"
      using token_genesis_read(1) [of V "claimed_token V u" "fst p" "snd p"] u by (auto simp: slp_utxo_of_def claimed_token_def)
    with Some Cons show ?thesis by (auto simp: all_named_def split: if_splits)
  qed
qed (simp add: all_named_def)

text \<open>C11: one output of an unknown token hides a whole address: the list of all balances and the list of all
  outputs of an address fail with an exception as soon as a single listed output names a token
  whose GENESIS the server does not have, and only then; neither ever reads outside its data.\<close>

theorem unknown_token_hides_address:
  assumes "server_reach utxosync X (s, T)" and "walks ord" and "enumerates tord"
    and "from_cashaddr addr = Ok k" and "k \<noteq> []"
  shows "((\<exists>e. slp_all_token_balances ord tord (sv_validator s) (sv_utxodb s) addr = Fail e) \<longleftrightarrow>
      \<not> all_named (sv_validator s) (all_utxos ord (sv_utxodb s) k))
    \<and> ((\<exists>e. slp_utxos ord (sv_validator s) (sv_utxodb s) addr = Fail e) \<longleftrightarrow>
      \<not> all_named (sv_validator s) (all_utxos ord (sv_utxodb s) k))
    \<and> slp_all_token_balances ord tord (sv_validator s) (sv_utxodb s) addr \<noteq> Oob
    \<and> slp_utxos ord (sv_validator s) (sv_utxodb s) addr \<noteq> Oob"
proof -
  let ?V = "sv_validator s" and ?us = "all_utxos ord (sv_utxodb s) k"
  have c: "list_all (has_creator ?V) ?us" by (rule listed_all_created [OF assms(1,2)])

  have "slp_utxos ord ?V (sv_utxodb s) addr = res_bind (slp_utxo_list ?V ?us) (\<lambda>utxos. Ok (StatusOK, utxos))"
    by (simp add: slp_utxos_def with_script_known [OF assms(4,5)])
  then show ?thesis using slp_utxo_list_total [OF c] all_balances_eq [OF c assms(4,5,3)]
    by (cases "all_named ?V ?us") auto
qed

text \<open>The two balance requests agree: when the list of all balances of an address is given, the balance
  of any single token is given too, and it is the list's entry of that token, or zero with no entry
  of another amount.\<close>

theorem balances_agree:
  assumes "server_reach utxosync X (s, T)" and "walks ord" and "enumerates tord"
    and "from_cashaddr addr = Ok k" and "k \<noteq> []" and "txid_regex tokenid"
    and "slp_all_token_balances ord tord (sv_validator s) (sv_utxodb s) addr = Ok (StatusOK, els)"
  shows "\<exists>r. slp_token_balance ord (sv_validator s) (sv_utxodb s) addr tokenid = Ok (StatusOK, r)
    \<and> (if tb_value r = 0 then \<forall>el \<in> set els. tb_tokenid el = bhash_decompress True (rev (unhex tokenid)) \<longrightarrow> tb_value el = 0 else r \<in> set els)"
proof -
  let ?V = "sv_validator s" and ?us = "all_utxos ord (sv_utxodb s) k" and ?t = "rev (unhex tokenid)"
  have c: "list_all (has_creator ?V) ?us" by (rule listed_all_created [OF assms(1,2)])
  let ?K = "claimed_token ?V ` set ?us" and ?e = "\<lambda>t. case_prod balance_entry (the (token_genesis ?V t)) (holds ?V t ?us)"
  have g: "\<And>u. u \<in> set ?us \<Longrightarrow> token_genesis ?V (claimed_token ?V u) \<noteq> None" and els: "set els = ?e ` ?K"
    using all_balances_eq [OF c assms(4,5,3)] assms(3,7) by (auto simp: enumerates_def all_named_def list_all_iff split: if_splits)
  have id: "txid (fst p) = t" if "token_genesis ?V t = Some p" for t p
    using that server_reach_inv [OF assms(1)]
    by (auto simp: token_genesis_def server_inv_def known_txs_def split: option.splits slp_tx_variant.splits)
  have inj: "t = ?t" if "bhash_decompress True t = bhash_decompress True ?t" for t
    using arg_cong [OF that, of unhex] by (simp add: bhash_decompress_def unhex_gs_hex rev_swap)
  have b: "slp_token_balance ord ?V (sv_utxodb s) addr tokenid
      = (if holds ?V ?t ?us = 0 then Ok (StatusOK, token_balance_new\<lparr>tb_tokenid := tokenid\<rparr>)
         else res_bind (token_balance_of ?V ?t (holds ?V ?t ?us)) (\<lambda>reply. Ok (StatusOK, reply)))"
    using balance_loop_holds [OF c] by (simp add: slp_token_balance_def with_script_known [OF assms(4,5)] tokenid_text assms(6))
  show ?thesis
  proof (cases "holds ?V ?t ?us = 0")
    case True
    have "tb_value el = 0" if "el \<in> set els" "tb_tokenid el = bhash_decompress True ?t" for el
    proof -
      have "el \<in> ?e ` ?K" using that(1) by (simp only: els)
      then obtain u where u: "u \<in> set ?us" "el = ?e (claimed_token ?V u)" by (elim imageE) simp
      then obtain p where p: "token_genesis ?V (claimed_token ?V u) = Some p" using g by blast
      have el: "el = balance_entry (fst p) (snd p) (holds ?V (claimed_token ?V u) ?us)" by (simp only: u(2) p option.sel split_beta)
      have "tb_tokenid el = bhash_decompress True (txid (fst p))" by (simp add: el balance_entry_def)
      then have "bhash_decompress True (claimed_token ?V u) = bhash_decompress True ?t" by (simp only: that(2) id [OF p])
      then have "claimed_token ?V u = ?t" by (rule inj)
      then show ?thesis using True by (simp add: el balance_entry_def)
    qed
    then show ?thesis using True by (simp add: b token_balance_new_def)
  next
    case False
    then have t: "?t \<in> ?K" using holds_none by blast
    then have "token_genesis ?V ?t \<noteq> None" by (elim imageE) (simp only: g not_False_eq_True)
    then obtain tx gi where "token_genesis ?V ?t = Some (tx, gi)" by fast
    moreover have "?e ?t \<in> set els" unfolding els using t by (rule imageI)
    ultimately have "token_genesis ?V ?t = Some (tx, gi)" "balance_entry tx gi (holds ?V ?t ?us) \<in> set els" by simp_all
    then show ?thesis using False by (simp add: b token_balance_of_eq balance_entry_def)
  qed
qed


text \<open>C12: what a listing gives is typed: on a server that has only run, with whatever switch, every output
  listed for a script is an output of a transaction the validator has, found there under its id at
  the output's number, with a message that fits its type, and paying that script; and the token
  state is one the machine without the database of outputs also reaches.\<close>

theorem listed_outputs_genuine:
  assumes "server_reach utxosync X (s, T)" and "walks ord"
    and "u \<in> set (get_outputs_by_scriptpubkey ord (sv_utxodb s) k limit)"
  shows "sync_reach (sv_sync s, T) \<and> out_script u = k
    \<and> (\<exists>tx. transaction_map (sv_validator s) (prev_tx_id u) = Some tx \<and> slp_wf tx \<and> txid tx = prev_tx_id u
        \<and> unat (prev_out_idx u) < length (outputs tx) \<and> outputs tx ! unat (prev_out_idx u) = u)"
proof -
  note c = listed_created [OF server_reach_inv [OF assms(1)] assms(2,3)]
  then have "transaction_map (sv_validator s) (prev_tx_id u) = Some (creator (sv_validator s) u)"
    by (auto simp: has_creator_def creator_def)
  with c show ?thesis using server_reach_sync [OF assms(1)] by (simp add: has_creator_def placed_tx_def)
qed

section \<open>Forged tokens\<close>

lemma distinct_single: "distinct xs \<Longrightarrow> set xs = {x} \<Longrightarrow> xs = [x]"
  by (cases xs; cases "tl xs") auto

lemma only_output_listed:
  assumes "utxo_ok W db" and "walks ord" and "u_outpoint_map db p = Some u" and "out_script u = k" and "unspent db u"
    and "\<And>q x. u_outpoint_map db q = Some x \<Longrightarrow> out_script x = k \<Longrightarrow> q = p"
    and "\<And>q x. u_mempool_outpoint_map db q = Some x \<Longrightarrow> out_script x \<noteq> k"
  shows "all_utxos ord db k = [u]"
proof -
  have t: "table_ok W (u_outpoint_map db)" "index_sound (u_outpoint_map db) (u_scriptpubkey_to_output db)"
    "index_complete (u_outpoint_map db) (u_scriptpubkey_to_output db)"
    "index_sound (u_mempool_outpoint_map db) (u_mempool_scriptpubkey_to_output db)" using assms(1) by (simp_all add: utxo_ok_def)
  have "x = u" if x: "x \<in> set (entries (u_scriptpubkey_to_output db) k)" for x
  proof -
    note s = index_sound_D(1) [OF t(2) x]
    then have "outpoint_of x = p" using assms(6) by blast
    then show ?thesis using s assms(3) by simp
  qed
  moreover have "u \<in> set (entries (u_scriptpubkey_to_output db) k)" using t(3) assms(3,4) by (auto simp: index_complete_def)
  ultimately have S: "set (entries (u_scriptpubkey_to_output db) k) = {u}" by blast
  moreover have "distinct (entries (u_scriptpubkey_to_output db) k)" using index_sound_D(2) [OF t(2)] distinct_map by blast
  ultimately have "entries (u_scriptpubkey_to_output db) k = [u]" by (rule distinct_single [rotated])
  then have c: "u_scriptpubkey_to_output db k = Some [u]" by (simp add: entries_def split: option.splits)
  have m: "entries (u_mempool_scriptpubkey_to_output db) k = []"
  proof (rule ccontr)
    assume "entries (u_mempool_scriptpubkey_to_output db) k \<noteq> []"
    then have "hd (entries (u_mempool_scriptpubkey_to_output db) k) \<in> set (entries (u_mempool_scriptpubkey_to_output db) k)" by simp
    from index_sound_D(1) [OF t(4) this] assms(7) show False by blast
  qed
  have "mset (ord [u]) = mset [u]" "mset (ord []) = mset []" using assms(2) unfolding walks_def by blast+
  then have o: "ord [u] = [u]" "ord [] = []" by simp_all
  show ?thesis using m
    by (cases "u_mempool_scriptpubkey_to_output db k") (simp_all add: all_utxos_def get_outputs_by_scriptpubkey_def c o assms(5) entries_def)
qed

text \<open>Adding an output clears the mark that the mempool has spent it, and no spending of a block sets one.\<close>

lemma block_adds_unspent:
  assumes "bch_process_block txs save b = Ok b'" and "block_outputs txs = Ok [u]" and "\<not> is_op_return u"
    and "utxo_ok W (b_utxodb b)" and "genuine W u"
  shows "unspent (b_utxodb b') u"
proof -
  have sp: "u_mempool_spent_confirmed_outpoints (fst (fst (fold spend_input ms st))) \<subseteq> u_mempool_spent_confirmed_outpoints (fst (fst st))" for ms st
  proof (induction ms arbitrary: st)
    case (Cons m ms)
    have "u_mempool_spent_confirmed_outpoints (fst (spend_confirmed m y)) \<subseteq> u_mempool_spent_confirmed_outpoints (fst y)" for y
      by (cases y) (auto simp: spend_confirmed_def split: option.split)
    moreover have "u_mempool_spent_confirmed_outpoints (fst (spend_mempool m y)) = u_mempool_spent_confirmed_outpoints (fst y)" for y
      by (cases y) (auto simp: spend_mempool_def split: option.split)
    ultimately have "u_mempool_spent_confirmed_outpoints (fst (fst (spend_input m st))) \<subseteq> u_mempool_spent_confirmed_outpoints (fst (fst st))"
      by (simp add: spend_input_def)
    then show ?case using Cons.IH [of "spend_input m st"] by simp
  qed simp
  let ?d0 = "(b_utxodb b)\<lparr>u_current_block_height := u_current_block_height (b_utxodb b) + 1\<rparr>"
  from process_block_parts [OF assms(1)] obtain os db1 added slp1 st where
    p': "block_outputs txs = Ok os" "fold add_output os (?d0, []) = (db1, added)" "st = fold spend_input (block_inputs txs) ((db1, []), slp1)"
    and e: "b_utxodb b' = (let db = fst (fst st) in if save then db\<lparr>
         u_last_block_added := push_rollback added (u_last_block_added db),
         u_last_block_removed := push_rollback (snd (fst st)) (u_last_block_removed db)\<rparr> else db)" by blast
  then have p: "add_output u (?d0, []) = (db1, added)" "st = fold spend_input (block_inputs txs) ((db1, []), slp1)"
    using assms(2) by auto
  have "outpoint_of (the (map_insert (outpoint_of u) u (u_outpoint_map (b_utxodb b)) (outpoint_of u))) = outpoint_of u"
    using assms(4) by (auto simp: utxo_ok_def map_insert_def dest: table_ok_D split: option.split)
  then have "outpoint_of u \<notin> u_mempool_spent_confirmed_outpoints db1"
    using p(1) assms(3) by (auto simp: add_output_def Let_def)
  moreover have "u_mempool_spent_confirmed_outpoints (b_utxodb b') = u_mempool_spent_confirmed_outpoints (fst (fst st))"
    by (simp add: e Let_def)
  ultimately show ?thesis using sp [of "block_inputs txs" "((db1, []), slp1)"] p(2) by (auto simp: unspent_def)
qed


text \<open>A block with one SEND of an unknown id that its inputs do not cover is processed without accepting it.\<close>

lemma forged_not_valid:
  assumes "server_reach utxosync X (s, T)" and "slpsync_process_block utxosync tord False [tx] s = Some (l, s')"
    and "slp_wf tx" and "slp_tx (slp tx) = SlpSend m" and "send_total (sv_validator s) tx < sent (amounts m)"
    and "transaction_map (sv_validator s) (txid tx) = None" and "\<not> has_valid (sv_validator s) (txid tx)"
  shows "\<not> has_valid (sv_validator s') (txid tx) \<and> transaction_map (sv_validator s') = (transaction_map (sv_validator s))(txid tx \<mapsto> tx)"
proof -
  let ?V = "sv_validator s"
  have v: "validator_inv ?V" using sync_reach_inv(3) [OF server_reach_sync [OF assms(1)]] by (simp add: validator_sound.simps)
  have nh: "\<not> validator_has ?V (txid tx)" using assms(6) by (simp add: validator_has_def)
  have ty: "slp_type (slp tx) = TSend" using assms(3,4) by (simp add: slp_wf_def)
  have "add_tx 2 tx False ?V = VOk (False, with_tx tx ?V)"
    using send_judged [OF v assms(3,4) order_refl assms(6,7)] assms(5,6) ty by (simp add: add_tx_unfold validate_txid_def)
      (simp add: with_tx_def)
  then have "sv_validator s' = with_tx tx ?V"
    using block_sync [OF assms(2)] nh by (auto simp: process_block_def dest: arg_cong [of _ _ sy_validator])
  then show ?thesis using assms(6,7) by (simp add: with_tx_def has_valid_def)
qed

lemma paid_found:
  assumes "server_inv X s" and "server_inv X s'" and "bch_process_block [tx] True (sv_bch s) = Ok (sv_bch s')"
    and "slp_outputs tx = Ok [u]" and "\<not> is_op_return u" and "txid tx \<notin> op_txid ` set (inputs tx)" and "placed_tx X tx"
  shows "u_outpoint_map (sv_utxodb s') (outpoint_of u) = Some u \<and> unspent (sv_utxodb s') u
    \<and> dom (u_outpoint_map (sv_utxodb s')) \<subseteq> insert (outpoint_of u) (dom (u_outpoint_map (sv_utxodb s)))"
proof -
  let ?db = "sv_utxodb s" and ?db' = "sv_utxodb s'" and ?W = "output_named X"
  have ok: "utxo_ok ?W ?db" "utxo_ok ?W ?db'" using assms(1,2) by (simp_all add: server_inv_def db_ok_def)
  then have t: "table_ok ?W (u_outpoint_map ?db')" by (simp add: utxo_ok_def)
  have bo: "block_outputs [tx] = Ok [u]" by (simp add: assms(4))
  have g: "genuine ?W u" "op_txid (outpoint_of u) = txid tx" using placed_output [OF assms(7,4), of u] by simp_all
  have "\<forall>tx \<in> set [tx]. genuine_tx ?W tx" using placed_genuine [OF assms(7)] by simp
  from process_block_ok [OF ok(1) this assms(3)] bo
  have d: "dom (u_outpoint_map ?db') = insert (outpoint_of u) (dom (u_outpoint_map ?db)) - set (inputs tx)"
    using assms(5) by (simp add: utxo_set_def block_inputs_def)
  have "outpoint_of u \<notin> set (inputs tx)" using g(2) assms(6) by (metis imageI)
  then have "outpoint_of u \<in> dom (u_outpoint_map ?db')" by (simp add: d)
  then obtain y where y: "u_outpoint_map ?db' (outpoint_of u) = Some y" by blast
  have "y = u" using conjunct1 [OF table_ok_D [OF t y]] g(1) unfolding genuine_def by (rule trans)
  with y block_adds_unspent [OF assms(3) bo assms(5) ok(1) g(1)] show ?thesis by (simp add: d)
qed

lemma paid_once_listed:
  assumes "server_inv X s" and "server_inv X s'" and "bch_process_block [tx] True (sv_bch s) = Ok (sv_bch s')"
    and "slp_outputs tx = Ok [u]" and "\<not> is_op_return u" and "txid tx \<notin> op_txid ` set (inputs tx)" and "walks ord"
    and "out_script u \<notin> out_script ` (ran (u_outpoint_map (sv_utxodb s)) \<union> ran (u_mempool_outpoint_map (sv_utxodb s)))"
    and "placed_tx X tx"
  shows "all_utxos ord (sv_utxodb s') (out_script u) = [u]"
proof -
  let ?db = "sv_utxodb s" and ?db' = "sv_utxodb s'" and ?W = "output_named X"
  have ok: "utxo_ok ?W ?db" "utxo_ok ?W ?db'" using assms(1,2) by (simp_all add: server_inv_def db_ok_def)
  then have t: "table_ok ?W (u_outpoint_map ?db)" "table_ok ?W (u_outpoint_map ?db')" by (simp_all add: utxo_ok_def)
  have f: "u_outpoint_map ?db' (outpoint_of u) = Some u" "unspent ?db' u"
    and d: "dom (u_outpoint_map ?db') \<subseteq> insert (outpoint_of u) (dom (u_outpoint_map ?db))"
    using paid_found [OF assms(1-6,9)] by blast+
  show ?thesis
  proof (rule only_output_listed [OF ok(2) assms(7) f(1) refl f(2)])
    show "q = outpoint_of u" if q: "u_outpoint_map ?db' q = Some x" "out_script x = out_script u" for q x
    proof (rule ccontr)
      assume "q \<noteq> outpoint_of u"
      then have "q \<in> dom (u_outpoint_map ?db)" using d q(1) by blast
      then obtain y where y: "u_outpoint_map ?db q = Some y" by blast
      then have "y = x" using table_ok_D [OF t(1) y] table_ok_D [OF t(2) q(1)] by simp
      then show False using y q(2) assms(8) by (metis UnI1 imageI ranI)
    qed
    show "out_script x \<noteq> out_script u" if "u_mempool_outpoint_map ?db' q = Some x" for q x
      using map_le_Some [OF process_block_mempool [OF assms(3)] that] assms(8) by (metis UnI2 imageI ranI)
  qed
qed

text \<open>C4: forged tokens are counted: when a block confirms a SEND of one amount, with one output after the
  OP_RETURN, of a token whose GENESIS is known, and its inputs do not carry the amount, the validator does
  not accept it, but the balance of the script it pays, which received
  nothing else, is from then on reported as the full forged amount.\<close>

theorem forged_send_counts:
  assumes "server_reach True X (s, T)" and "walks ord" and "placed_tx X tx"
    and "slp_tx (slp tx) = SlpSend \<lparr>amounts = [a]\<rparr>" and "outputs tx = [o0, o1]" and "\<not> is_op_return o1"
    and "send_total (sv_validator s) tx < unat a" and "txid tx \<notin> op_txid ` set (inputs tx)"
    and "transaction_map (sv_validator s) (txid tx) = None" and "\<not> has_valid (sv_validator s) (txid tx)"
    and "out_script o1 \<notin> out_script ` (ran (u_outpoint_map (sv_utxodb s)) \<union> ran (u_mempool_outpoint_map (sv_utxodb s)))"
    and "slpsync_process_block True tord False [tx] s = Some (l, s')"
    and "token_genesis (sv_validator s) (slp_tokenid (slp tx)) = Some (gtx, g)"
    and "from_cashaddr addr = Ok (out_script o1)" and "out_script o1 \<noteq> []"
    and "txid_regex tokenid" and "rev (unhex tokenid) = slp_tokenid (slp tx)"
  shows "\<not> has_valid (sv_validator s') (txid tx)
    \<and> slp_token_balance ord (sv_validator s') (sv_utxodb s') addr tokenid = Ok (StatusOK, balance_entry gtx g a)"
proof -
  let ?V' = "sv_validator s'" and ?db = "sv_utxodb s" and ?db' = "sv_utxodb s'" and ?k = "out_script o1"
  have wf: "slp_wf tx" using assms(3) by (simp add: placed_tx_def)
  have nv: "\<not> has_valid ?V' (txid tx)" and tm: "transaction_map ?V' = (transaction_map (sv_validator s))(txid tx \<mapsto> tx)"
    using forged_not_valid [OF assms(1,12) wf assms(4) _ assms(9,10)] assms(7) by (simp_all add: sent_def)
  have inv: "server_inv X s" by (rule server_reach_inv [OF assms(1)])
  then have inv': "server_inv X s'" using block_inv [OF assms(12)] assms(3) by simp
  have os: "slp_outputs tx = Ok [o1]" by (simp add: slp_outputs_def assms(4,5))
  have o1: "outpoint_of o1 = \<lparr>op_txid = txid tx, op_vout = 1\<rparr>"
    using assms(3,5) unfolding placed_tx_def by (auto dest!: spec [of _ "Suc 0"])
  then have idx: "prev_tx_id o1 = txid tx" "prev_out_idx o1 = 1" by (simp_all add: outpoint_of_def)
  have b: "bch_process_block [tx] True (sv_bch s) = Ok (sv_bch s')"
    using assms(12) by (cases "process_block tord False [tx] (sv_sync s)")
      (auto simp: slpsync_process_block_def when_utxosync_def bind_eq_Some_conv split: res.splits)
  have "all_utxos ord ?db' ?k = [o1]" by (rule paid_once_listed [OF inv inv' b os assms(6,8,2,11) assms(3)])
  then have "holds ?V' (slp_tokenid (slp tx)) (all_utxos ord ?db' ?k) = a" "list_all (has_creator ?V') (all_utxos ord ?db' ?k)"
    by (simp_all add: claimed_token_def creator_def has_creator_def idx tm output_slp_amount_def assms(4,5))
  moreover have "a \<noteq> 0" using assms(7) by auto
  moreover have "token_genesis ?V' (slp_tokenid (slp tx)) = Some (gtx, g)"
    using assms(9,13) by (auto simp: token_genesis_def tm split: option.splits)
  ultimately have "slp_token_balance ord ?V' ?db' addr tokenid = Ok (StatusOK, balance_entry gtx g a)"
    by (simp add: slp_token_balance_def with_script_known [OF assms(14,15)] tokenid_text assms(16,17) balance_loop_holds token_balance_of_eq)
  with nv show ?thesis by simp
qed


section \<open>Examples\<close>

text \<open>A SEND of 1000 tokens out of nothing, paid to a public key hash.\<close>

definition forged_script :: scriptpubkey where
  "forged_script = [0x76, 0xA9, 20] @ replicate 20 7 @ [0x88, 0xAC]"

definition forged_out :: gs_output where
  "forged_out = \<lparr>prev_tx_id = replicate 32 2, prev_out_idx = 1, out_value = 546, out_script = forged_script\<rparr>"

definition forged_tx :: transaction where
  "forged_tx = \<lparr>txid = replicate 32 2, version = 1, lock_time = 0, inputs = [],
     outputs = [\<lparr>prev_tx_id = replicate 32 2, prev_out_idx = 0, out_value = 0, out_script = [0x6A]\<rparr>, forged_out],
     slp = \<lparr>slp_tokenid = replicate 32 1, slp_token_type = 1, slp_type = TSend, slp_tx = SlpSend \<lparr>amounts = [1000]\<rparr>\<rparr>, serialized = [3]\<rparr>"

definition forged_X :: "txid \<Rightarrow> transaction" where
  "forged_X t = (if t = replicate 32 1 then example_genesis_tx else forged_tx)"

lemma forged_facts [simp]:
  "txid forged_tx = replicate 32 2" "inputs forged_tx = []" "slp_tokenid (slp forged_tx) = replicate 32 1"
  "slp_tx (slp forged_tx) = SlpSend \<lparr>amounts = [1000]\<rparr>" "slp_type (slp forged_tx) = TSend" "slp_wf forged_tx"
  "\<not> is_op_return forged_out" "out_script forged_out = forged_script" "forged_script \<noteq> []"
  "slp_outputs forged_tx = Ok [forged_out]" "send_total V forged_tx = 0"
  by (simp_all add: forged_tx_def forged_out_def forged_script_def is_op_return_def slp_wf_def MAX_TX_SIZE_def slp_outputs_def send_total_def)

lemma forged_placed: "placed_tx forged_X example_genesis_tx" "placed_tx forged_X forged_tx"
  using replicate_neq_sym
  by (auto simp: placed_tx_def forged_X_def example_defs forged_tx_def forged_out_def outpoint_of_def less_Suc_eq)

lemma forged_address: "\<exists>addr. from_cashaddr addr = Ok forged_script"
proof -
  have "to_address forged_script = (''P2PKH'', replicate 20 7)" by (simp add: forged_script_def to_address_def)
  then show ?thesis
    using address_of_hash [OF example_prefix, of "replicate 20 7" forged_script 0]
    by (auto simp: get_type_bits_def get_hash_size_bits_def forged_script_def)
qed

lemma forged_sort: "topological_sort [forged_tx] = Some [forged_tx]" "topological_sort [example_genesis_tx] = Some [example_genesis_tx]"
  by (simp_all add: topological_sort_def topological_sort_internal_def forged_tx_def example_genesis_tx_def)

lemma forged_bch: "\<exists>b'. bch_process_block [forged_tx] True b = Ok b'" "\<exists>b'. bch_process_block [example_genesis_tx] True b = Ok b'"
proof -
  have "block_outputs [forged_tx] = Ok [forged_out]" by simp
  then show "\<exists>b'. bch_process_block [forged_tx] True b = Ok b'"
    by (rule process_block_total [where l = "[forged_tx]"]) (simp_all add: block_slp_txs_def forged_sort)
  have "slp_outputs example_genesis_tx = Ok [outputs example_genesis_tx ! 1]"
    by (simp add: slp_outputs_def minting_outputs_def output_at_def example_defs)
  then have "block_outputs [example_genesis_tx] = Ok [outputs example_genesis_tx ! 1]" by simp
  then show "\<exists>b'. bch_process_block [example_genesis_tx] True b = Ok b'"
    by (rule process_block_total [where l = "[example_genesis_tx]"]) (simp_all add: block_slp_txs_def forged_sort example_genesis_facts example_wf)
qed

lemma block_steps:
  "process_block ord trusted txs (sv_sync s) = VOk (l, y) \<Longrightarrow> bch_process_block txs True (sv_bch s) = Ok b \<Longrightarrow>
     slpsync_process_block True ord trusted txs s = Some (l, \<lparr>sv_sync = y, sv_bch = b\<rparr>)"
  by (simp add: slpsync_process_block_def when_utxosync_def)

text \<open>The block with the forged SEND, on a server that knows the token or none.\<close>

lemma forged_block:
  assumes "sv_validator s = example_state \<or> sv_validator s = validator_new"
  shows "\<exists>s'. slpsync_process_block True example_order False [forged_tx] s = Some ([], s')"
proof -
  let ?V = "sv_validator s"
  have v: "validator_inv ?V" "transaction_map ?V (txid forged_tx) = None" "\<not> has_valid ?V (txid forged_tx)"
    using assms example_inv replicate_neq_sym
    by (auto simp: validator_inv_def validator_new_def has_valid_def example_state_def)
  have "add_tx 2 forged_tx False ?V = VOk (False, with_tx forged_tx ?V)"
    using send_judged [OF v(1) forged_facts(6,4) order_refl v(2,3)] v(2)
    by (simp add: add_tx_unfold validate_txid_def sent_def) (simp add: with_tx_def)
  then obtain y where "process_block example_order False [forged_tx] (sv_sync s) = VOk ([], y)"
    using v(2) by (simp add: process_block_def validator_has_def)
  then show ?thesis using forged_bch(1) block_steps by blast
qed

lemma forged_reach_step:
  assumes "server_reach True forged_X (s, T)" and "slpsync_process_block True example_order False [tx] s = Some (l, s')"
    and "placed_tx forged_X tx"
  shows "server_reach True forged_X (s', T)"
proof -
  have "server_step True forged_X (s, T) (s', trust False [tx] T)"
    using assms(2,3) by (intro server_block [OF example_order_enumerates]) simp_all
  with assms(1) show ?thesis by (auto simp: trust_def intro: reach_step)
qed


text \<open>A server that has the token, before and after the forged SEND.\<close>

lemma forged_token_server:
  "\<exists>s. server_reach True forged_X (s, {}) \<and> sv_validator s = example_state
    \<and> forged_script \<notin> out_script ` (ran (u_outpoint_map (sv_utxodb s)) \<union> ran (u_mempool_outpoint_map (sv_utxodb s)))"
proof -
  obtain b where b: "bch_process_block [example_genesis_tx] True (sv_bch server_new) = Ok b" using forged_bch(2) by blast
  let ?s = "\<lparr>sv_sync = example_mined, sv_bch = b\<rparr>"
  have s: "slpsync_process_block True example_order False [example_genesis_tx] server_new = Some ([example_genesis_tx], ?s)"
    by (rule block_steps [OF _ b]) (simp add: server_new_def example_mined_step)
  have "server_reach True forged_X (server_new, {})" by (rule reach_init) simp
  from forged_reach_step [OF this s forged_placed(1)] have r: "server_reach True forged_X (?s, {})" .
  have "utxo_ok (output_named forged_X) (b_utxodb (sv_bch server_new))" "\<forall>tx \<in> set [example_genesis_tx]. genuine_tx (output_named forged_X) tx"
    using server_inv_new [of forged_X] placed_genuine [OF forged_placed(1)] by (simp_all add: server_inv_def db_ok_def)
  from process_block_ok [OF this b]
  have t: "table_ok (output_named forged_X) (u_outpoint_map (b_utxodb b))"
    and d: "dom (u_outpoint_map (b_utxodb b)) = {outpoint_of (outputs example_genesis_tx ! 1)}"
    by (auto simp: utxo_ok_def utxo_set_def server_new_def bch_new_def utxodb_new_def slp_outputs_def minting_outputs_def
        output_at_def example_defs is_op_return_def block_inputs_def)
  have "out_script x = [0x51]" if "u_outpoint_map (b_utxodb b) p = Some x" for p x
  proof -
    have "p = outpoint_of (outputs example_genesis_tx ! 1)" using d that by blast
    then have "x = output_named forged_X (outpoint_of (outputs example_genesis_tx ! 1))" using table_ok_D [OF t that] by simp
    then show ?thesis by (simp add: output_named_def forged_X_def example_genesis_tx_def outpoint_of_def)
  qed
  moreover have "u_mempool_outpoint_map (b_utxodb b) = Map.empty"
    using map_le_implies_dom_le [OF process_block_mempool [OF b]] by (simp add: server_new_def bch_new_def utxodb_new_def)
  ultimately have "forged_script \<notin> out_script ` (ran (u_outpoint_map (b_utxodb b)) \<union> ran (u_mempool_outpoint_map (b_utxodb b)))"
    by (auto simp: ran_def forged_script_def)
  with r show ?thesis by (intro exI [of _ ?s]) (simp add: example_mined_def)
qed

lemma forged_listed:
  assumes "server_reach True forged_X (s, T)" and "slpsync_process_block True example_order False [forged_tx] s = Some (l, s')"
    and "forged_script \<notin> out_script ` (ran (u_outpoint_map (sv_utxodb s)) \<union> ran (u_mempool_outpoint_map (sv_utxodb s)))"
  shows "all_utxos id (sv_utxodb s') forged_script = [forged_out]
    \<and> lookup_outpoint (sv_utxodb s') \<lparr>op_txid = replicate 32 2, op_vout = 1\<rparr> = Some forged_out"
proof -
  have b: "bch_process_block [forged_tx] True (sv_bch s) = Ok (sv_bch s')"
    using assms(2) by (cases "process_block example_order False [forged_tx] (sv_sync s)")
      (auto simp: slpsync_process_block_def when_utxosync_def bind_eq_Some_conv split: res.splits)
  have i: "server_inv forged_X s" "server_inv forged_X s'"
    using server_reach_inv assms(1) forged_reach_step [OF assms(1,2) forged_placed(2)] by blast+
  have p: "outpoint_of forged_out = \<lparr>op_txid = replicate 32 2, op_vout = 1\<rparr>" by (simp add: outpoint_of_def forged_out_def)
  show ?thesis
    using paid_once_listed [OF i b forged_facts(10,7) _ _ _ forged_placed(2), of id] assms(3)
      paid_found [OF i b forged_facts(10,7) _ forged_placed(2)]
    by (simp add: walks_def lookup_outpoint_def unspent_def p)
qed

lemma forged_tokenid: "txid_regex (gs_hex (replicate 32 1))" "rev (unhex (gs_hex (replicate 32 1))) = replicate 32 1"
  by (simp_all add: printed_txid unhex_gs_hex)

lemma forged_unknown: "transaction_map example_state (replicate 32 2) = None" "\<not> has_valid example_state (replicate 32 2)"
  by (simp_all add: example_facts)

lemma forged_genesis:
  "token_genesis example_state (replicate 32 1) = Some (example_genesis_tx, case slp_tx (slp example_genesis_tx) of SlpGenesis g \<Rightarrow> g)"
  by (simp add: token_genesis_def example_defs)

theorem forged_send_counts_witness:
  "\<exists>s s' addr. slpsync_process_block True example_order False [forged_tx] s = Some ([], s') \<and> \<not> has_valid (sv_validator s') (replicate 32 2)
    \<and> (\<exists>r. slp_token_balance id (sv_validator s') (sv_utxodb s') addr (gs_hex (replicate 32 1)) = Ok (StatusOK, r) \<and> tb_value r = 1000)"
proof -
  obtain s where s: "server_reach True forged_X (s, {})" "sv_validator s = example_state"
    "forged_script \<notin> out_script ` (ran (u_outpoint_map (sv_utxodb s)) \<union> ran (u_mempool_outpoint_map (sv_utxodb s)))"
    using forged_token_server by blast
  obtain s' where s': "slpsync_process_block True example_order False [forged_tx] s = Some ([], s')"
    using forged_block s(2) by blast
  obtain addr where a: "from_cashaddr addr = Ok forged_script" using forged_address by blast
  have o: "outputs forged_tx = [\<lparr>prev_tx_id = replicate 32 2, prev_out_idx = 0, out_value = 0, out_script = [0x6A]\<rparr>, forged_out]"
    by (simp add: forged_tx_def)
  have "walks id" by (simp add: walks_def)
  from forged_send_counts [OF s(1) this forged_placed(2) forged_facts(4) o forged_facts(7) _ _ _ _ _ s' _ _ _ forged_tokenid(1)]
  show ?thesis using s s' a forged_tokenid(2) forged_unknown forged_genesis by (fastforce simp: balance_entry_def)
qed


lemma forged_server:
  "\<exists>s addr. server_reach True forged_X (s, {}) \<and> from_cashaddr addr = Ok forged_script
    \<and> all_utxos id (sv_utxodb s) forged_script = [forged_out]
    \<and> lookup_outpoint (sv_utxodb s) \<lparr>op_txid = replicate 32 2, op_vout = 1\<rparr> = Some forged_out
    \<and> transaction_map (sv_validator s) = [replicate 32 1 \<mapsto> example_genesis_tx, replicate 32 2 \<mapsto> forged_tx]"
proof -
  obtain s where s: "server_reach True forged_X (s, {})" "sv_validator s = example_state"
    "forged_script \<notin> out_script ` (ran (u_outpoint_map (sv_utxodb s)) \<union> ran (u_mempool_outpoint_map (sv_utxodb s)))"
    using forged_token_server by blast
  obtain s' where s': "slpsync_process_block True example_order False [forged_tx] s = Some ([], s')"
    using forged_block s(2) by blast
  have "transaction_map (sv_validator s') = [replicate 32 1 \<mapsto> example_genesis_tx, replicate 32 2 \<mapsto> forged_tx]"
    using forged_not_valid [OF s(1) s' forged_facts(6,4)] forged_unknown by (simp add: s(2) sent_def) (simp add: example_state_def)
  with forged_listed [OF s(1) s' s(3)] forged_reach_step [OF s(1) s' forged_placed(2)] forged_address show ?thesis by blast
qed

text \<open>A server that never saw the token.\<close>

lemma orphan_server:
  "\<exists>s addr. server_reach True forged_X (s, {}) \<and> from_cashaddr addr = Ok forged_script
    \<and> all_utxos id (sv_utxodb s) forged_script = [forged_out] \<and> transaction_map (sv_validator s) = [replicate 32 2 \<mapsto> forged_tx]"
proof -
  have n: "sv_validator server_new = validator_new" by (simp add: server_new_def sync_new_def)
  have r: "server_reach True forged_X (server_new, {})" by (rule reach_init) simp
  obtain s' where s': "slpsync_process_block True example_order False [forged_tx] server_new = Some ([], s')"
    using forged_block n by blast
  have "transaction_map (sv_validator s') = [replicate 32 2 \<mapsto> forged_tx]"
    using forged_not_valid [OF r s' forged_facts(6,4)] by (simp add: n validator_new_def has_valid_def sent_def)
  with forged_listed [OF r s'] forged_reach_step [OF r s' forged_placed(2)] forged_address show ?thesis
    by (auto simp: server_new_def bch_new_def utxodb_new_def)
qed

lemma forged_claims:
  assumes "transaction_map V (replicate 32 2) = Some forged_tx"
  shows "creator V forged_out = forged_tx" "claimed_token V forged_out = replicate 32 1" "holds V (replicate 32 1) [forged_out] = 1000"
  using assms by (simp_all add: creator_def claimed_token_def forged_out_def output_slp_amount_def)

theorem token_balance_claimed_witness:
  "\<exists>s addr r. slp_token_balance id (sv_validator s) (sv_utxodb s) addr (gs_hex (replicate 32 1)) = Ok (StatusOK, r) \<and> tb_value r = 1000"
proof -
  obtain s addr where s: "server_reach True forged_X (s, {})" "from_cashaddr addr = Ok forged_script"
    "all_utxos id (sv_utxodb s) forged_script = [forged_out]"
    "transaction_map (sv_validator s) = [replicate 32 1 \<mapsto> example_genesis_tx, replicate 32 2 \<mapsto> forged_tx]" using forged_server by blast
  have w: "walks id" by (simp add: walks_def)
  have "holds (sv_validator s) (replicate 32 1) [forged_out] = 1000" using s(4) by (intro forged_claims(3)) simp
  then have h: "holds (sv_validator s) (rev (unhex (gs_hex (replicate 32 1)))) (all_utxos id (sv_utxodb s) forged_script) = 1000"
    by (simp only: forged_tokenid(2) s(3))
  obtain g where "token_genesis (sv_validator s) (replicate 32 1) = Some (example_genesis_tx, g)"
    by (simp add: token_genesis_def s(4) replicate_neq example_genesis_tx_def)
  then show ?thesis
    using token_balance_claimed [OF s(1) w s(2) forged_facts(9) forged_tokenid(1) h]
    by (fastforce simp: forged_tokenid(2) balance_entry_def)
qed

theorem unknown_token_hides_address_witness:
  "\<exists>s addr e. slp_all_token_balances id example_order (sv_validator s) (sv_utxodb s) addr = Fail e"
proof -
  obtain s addr where s: "server_reach True forged_X (s, {})" "from_cashaddr addr = Ok forged_script"
    "all_utxos id (sv_utxodb s) forged_script = [forged_out]" "transaction_map (sv_validator s) = [replicate 32 2 \<mapsto> forged_tx]"
    using orphan_server by blast
  have "claimed_token (sv_validator s) forged_out = replicate 32 1" using s(4) by (intro forged_claims(2)) simp
  then have "\<not> all_named (sv_validator s) (all_utxos id (sv_utxodb s) forged_script)"
    by (simp add: s(3,4) all_named_def token_genesis_def replicate_neq)
  then show ?thesis
    using unknown_token_hides_address [OF s(1) _ example_order_enumerates s(2) forged_facts(9), of id] by (auto simp: walks_def)
qed

theorem balances_agree_witness:
  "\<exists>s addr els r. slp_all_token_balances id example_order (sv_validator s) (sv_utxodb s) addr = Ok (StatusOK, els)
    \<and> slp_token_balance id (sv_validator s) (sv_utxodb s) addr (gs_hex (replicate 32 1)) = Ok (StatusOK, r)
    \<and> (tb_value r = 0 \<or> r \<in> set els)"
proof -
  obtain s addr where s: "server_reach True forged_X (s, {})" "from_cashaddr addr = Ok forged_script"
    "all_utxos id (sv_utxodb s) forged_script = [forged_out]"
    "transaction_map (sv_validator s) = [replicate 32 1 \<mapsto> example_genesis_tx, replicate 32 2 \<mapsto> forged_tx]" using forged_server by blast
  have w: "walks id" by (simp add: walks_def)
  have "claimed_token (sv_validator s) forged_out = replicate 32 1" using s(4) by (intro forged_claims(2)) simp
  then have "all_named (sv_validator s) (all_utxos id (sv_utxodb s) forged_script)"
    by (simp add: s(3,4) all_named_def token_genesis_def replicate_neq example_genesis_tx_def)
  then obtain els where els: "slp_all_token_balances id example_order (sv_validator s) (sv_utxodb s) addr = Ok (StatusOK, els)"
    using all_balances_eq [OF listed_all_created [OF s(1) w] s(2) forged_facts(9) example_order_enumerates] by auto
  with balances_agree [OF s(1) w example_order_enumerates s(2) forged_facts(9) forged_tokenid(1) els] show ?thesis
    by (metis (no_types, lifting))
qed

theorem listed_outputs_genuine_witness:
  "\<exists>s. forged_out \<in> set (all_utxos id (sv_utxodb s) forged_script) \<and> transaction_map (sv_validator s) (replicate 32 2) \<noteq> None"
proof -
  obtain s where s: "server_reach True forged_X (s, {})" "all_utxos id (sv_utxodb s) forged_script = [forged_out]"
    using forged_server by blast
  have "walks id" by (simp add: walks_def)
  from listed_outputs_genuine [OF s(1) this, of forged_out forged_script 100000] s(2)
  have "transaction_map (sv_validator s) (prev_tx_id forged_out) \<noteq> None" by (auto simp: all_utxos_def)
  then have "transaction_map (sv_validator s) (replicate 32 2) \<noteq> None" by (simp add: forged_out_def)
  moreover have "forged_out \<in> set (all_utxos id (sv_utxodb s) forged_script)" by (simp add: s(2))
  ultimately show ?thesis by blast
qed

end
