(* ===== verification/RestBridge.thy ===== *)
theory RestBridge
  imports RestEventLoop TokenService
begin

text \<open>
  The REST route \<open>/utxo/\<close> together with the handler \<open>UtxoSearchByOutpoints\<close> it calls: the text of an
  id from the URL through \<open>rest/index.js\<close>, the gRPC request, the constructor of an outpoint in
  \<open>server/gs++.cpp\<close>, the lookup, and back through the callback. The conversions of the protocol
  buffers (a text to a 32-bit number, an output to the accessors of its class) are parameters.
\<close>

section \<open>Request and reply on the wire\<close>

definition wire_outpoints :: "(string \<Rightarrow> u32) \<Rightarrow> (string \<times> string) list \<Rightarrow> (bytes \<times> u32) list" where
  "wire_outpoints wire_vout request = map (\<lambda>(t, v). (map byte_of_char t, wire_vout v)) request"

text \<open>The route, the handler and the callback, one after the other; a rejected request calls nothing.\<close>

definition utxo_exchange ::
    "(string \<Rightarrow> u32) \<Rightarrow> utxodb \<Rightarrow> string \<Rightarrow> (grpc_status \<times> utxo_output list) parse option" where
  "utxo_exchange wire_vout db param = (case get_utxo param of
       HCall (CallByOutpoints request) _ \<Rightarrow> Some (utxo_search_by_outpoints db (wire_outpoints wire_vout request))
     | _ \<Rightarrow> None)"

definition utxo_response :: "libs \<Rightarrow> (utxo_output \<Rightarrow> output_msg) \<Rightarrow> utxo_output list \<Rightarrow> callback_outcome" where
  "utxo_response L wire_output outs = on_utxo L (RpcOk (OutputsReply (map wire_output outs)))"

section \<open>The id on its way\<close>

text \<open>The hex digits of JavaScript and of C++ are the same bytes.\<close>

lemma hexdigit_char: "n < 16 \<Longrightarrow> byte_of_char (hexdigit n) = hex_char n"
  by (auto simp: byte_of_char_def hexdigit_def hex_char_def)

lemma buf_to_hex_bytes: "map byte_of_char (buf_to_hex bs) = gs_hex bs"
  by (induction bs) (simp_all add: hex_pair_def hex_of_eq hexdigit_char digits_lt)

lemma length_buf_from_hex: "list_all is_hex h \<Longrightarrow> even (length h) \<Longrightarrow> 2 * length (buf_from_hex h) = length h"
  by (induction h rule: buf_from_hex.induct) (auto simp: is_hex_def)

lemma get_utxo_single:
  assumes "CHR '':'' \<notin> set h" and "CHR '':'' \<notin> set v" and "CHR '','' \<notin> set h" and "CHR '','' \<notin> set v" and "\<not> js_isNaN_str v"
  shows "get_utxo (h @ CHR '':'' # v) = HCall (CallByOutpoints [(bytesToHex (rev (hexToBytes h)), v)]) (CbUtxo (h @ CHR '':'' # v))"
proof -
  have "js_split (CHR '','') (h @ CHR '':'' # v) = [h @ CHR '':'' # v]" using assms(3,4) by (simp add: js_split_single)
  moreover have "js_split (CHR '':'') (h @ CHR '':'' # v) = [h, v]" using assms(1,2) by (simp add: js_split_append js_split_single)
  ultimately show ?thesis using assms(5) by (simp add: get_utxo_def)
qed

lemma hex_no_separator: "list_all is_hex h \<Longrightarrow> CHR '':'' \<notin> set h \<and> CHR '','' \<notin> set h"
  by (auto simp: list_all_iff is_hex_def hexval_def)

lemma single_exchange:
  assumes "list_all is_hex h" and "even (length h)" and "CHR '':'' \<notin> set v" and "CHR '','' \<notin> set v" and "\<not> js_isNaN_str v"
  shows "utxo_exchange wire_vout db (h @ CHR '':'' # v)
    = Some (utxo_search_by_outpoints db [(gs_hex (rev (buf_from_hex h)), wire_vout v)])"
  using get_utxo_single [OF _ assms(3) _ assms(4,5)] hex_no_separator [OF assms(1)]
  by (simp add: utxo_exchange_def wire_outpoints_def bytesToHex_hexToBytes_rev hexToBytes_valid [OF assms(1,2)] buf_to_hex_bytes)


lemma forged_lookup:
  "\<exists>s. server_reach True forged_X (s, {}) \<and> lookup_outpoint (sv_utxodb s) \<lparr>op_txid = replicate 32 2, op_vout = 1\<rparr> = Some forged_out"
  using forged_server by blast

section \<open>The whole exchange\<close>

text \<open>C3: a lookup over REST reaches the output it names, and then the REST server dies: for an id of 64 hex
  digits of either case the gRPC server looks up the outpoint with the bytes of the id in reverse,
  and answers with its output or with nothing; on a reachable server the id of the answer prints as
  the id of the URL in lower case, but the callback throws exactly when an output was found and
  the class \<open>Output\<close> has no \<open>getHeight\<close>, as the one generated from \<open>pb/utxo.proto\<close>.\<close>

theorem rest_lookup_end_to_end:
  assumes "server_reach utxosync X (s, T)" and "list_all is_hex h" and "length h = 64"
    and "CHR '':'' \<notin> set v" and "CHR '','' \<notin> set v" and "\<not> js_isNaN_str v"
    and "\<And>out. prev_tx_id_u8 (wire_output out) = uo_prev_tx_id out"
  shows "\<exists>outs. utxo_exchange wire_vout (sv_utxodb s) (h @ CHR '':'' # v) = Some (Ok (StatusOK, outs))
    \<and> outs = (case lookup_outpoint (sv_utxodb s) \<lparr>op_txid = rev (buf_from_hex h), op_vout = wire_vout v\<rparr> of
        None \<Rightarrow> [] | Some u \<Rightarrow> [utxo_output_of u])
    \<and> (\<forall>out \<in> set outs. bytesToHex (rev (u8_values (prev_tx_id_u8 (wire_output out)))) = buf_to_hex (buf_from_hex h))
    \<and> ((\<exists>e. utxo_response L wire_output outs = CThrow e) \<longleftrightarrow> get_height L = None \<and> outs \<noteq> [])"
proof -
  let ?db = "sv_utxodb s" and ?p = "\<lparr>op_txid = rev (buf_from_hex h), op_vout = wire_vout v\<rparr>"
  have "2 * length (buf_from_hex h) = 64" using length_buf_from_hex [OF assms(2)] assms(3) by simp
  then have l: "length (rev (buf_from_hex h)) = 32" by simp
  then have b: "bhash (gs_hex (rev (buf_from_hex h))) = Ok (rev (buf_from_hex h))"
    using bhash_hex_gs_hex [OF l] by (simp add: bhash_def)
  let ?outs = "case lookup_outpoint ?db ?p of None \<Rightarrow> [] | Some u \<Rightarrow> [utxo_output_of u]"
  have e: "utxo_exchange wire_vout ?db (h @ CHR '':'' # v) = Some (Ok (StatusOK, ?outs))"
    using single_exchange [OF assms(2) _ assms(4-6)] assms(3)
    by (simp add: utxo_search_by_outpoints_def b get_outputs_by_outpoints_def List.map_filter_def split: option.split)
  have "utxo_ok (output_named X) ?db" using server_reach_inv [OF assms(1)] by (simp add: server_inv_def db_ok_def)
  then have t: "table_ok (output_named X) (u_outpoint_map ?db)" "table_ok (output_named X) (u_mempool_outpoint_map ?db)"
    by (simp_all add: utxo_ok_def)
  have "prev_tx_id u = rev (buf_from_hex h)" if "lookup_outpoint ?db ?p = Some u" for u
  proof -
    have "u_outpoint_map ?db ?p = Some u \<or> u_mempool_outpoint_map ?db ?p = Some u"
      using that by (auto simp: lookup_outpoint_def split: option.splits if_splits)
    then have "outpoint_of u = ?p" using table_ok_D [OF t(1)] table_ok_D [OF t(2)] by blast
    then show ?thesis by (simp add: outpoint_of_def)
  qed
  then have "\<forall>out \<in> set ?outs. bytesToHex (rev (u8_values (prev_tx_id_u8 (wire_output out)))) = buf_to_hex (buf_from_hex h)"
    by (auto simp: assms(7) utxo_output_of_def bytesToHex_u8_values split: option.splits)
  moreover have "(\<exists>e. utxo_response L wire_output ?outs = CThrow e) \<longleftrightarrow> get_height L = None \<and> ?outs \<noteq> []"
    unfolding utxo_response_def outputs_callbacks_throw(1) by simp
  ultimately show ?thesis using e by blast
qed

text \<open>C40: a short id from a URL makes the gRPC server read past the end of a string: the REST route passes
  an id of any even number of hex digits on, and the constructor of the outpoint reads outside its
  argument exactly when there are fewer than 64 digits, other than 32, which it takes for raw bytes.\<close>

theorem rest_short_id_oob:
  assumes "list_all is_hex h" and "even (length h)"
    and "CHR '':'' \<notin> set v" and "CHR '','' \<notin> set v" and "\<not> js_isNaN_str v"
  shows "utxo_exchange wire_vout db (h @ CHR '':'' # v) = Some Oob \<longleftrightarrow> length h < 64 \<and> length h \<noteq> 32"
proof -
  have l: "length h = 2 * length (buf_from_hex h)" using length_buf_from_hex [OF assms(1,2)] by simp
  have "bhash (gs_hex (rev (buf_from_hex h))) = Oob \<longleftrightarrow> length h < 64 \<and> length h \<noteq> 32"
    unfolding bhash_def by (auto simp: bhash_hex_Oob l)
  then show ?thesis
    by (simp add: single_exchange [OF assms] utxo_search_by_outpoints_def res_bind_Oob)
qed

section \<open>Examples\<close>

definition example_wire :: "utxo_output \<Rightarrow> output_msg" where
  "example_wire out = \<lparr>prev_tx_id_u8 = uo_prev_tx_id out, prev_out_idx = uint (uo_prev_out_idx out), msg_value = uint (uo_value out),
     scriptpubkey_b64 = buf_to_base64 (uo_scriptpubkey out)\<rparr>"

lemma example_id:
  "list_all is_hex (buf_to_hex (replicate 32 2))" "length (buf_to_hex (replicate 32 2)) = 64"
  "CHR '':'' \<notin> set ''1''" "CHR '','' \<notin> set ''1''" "\<not> js_isNaN_str ''1''"
  by (rule buf_to_hex_is_hex, simp, simp, simp, code_simp)

theorem rest_lookup_end_to_end_witness:
  "\<exists>s e. utxo_response (example_libs\<lparr>get_height := None\<rparr>) example_wire [utxo_output_of forged_out] = CThrow e
    \<and> utxo_exchange (\<lambda>_. 1) (sv_utxodb s) (buf_to_hex (replicate 32 2) @ '':1'') = Some (Ok (StatusOK, [utxo_output_of forged_out]))"
proof -
  obtain s where s: "server_reach True forged_X (s, {})" "lookup_outpoint (sv_utxodb s) \<lparr>op_txid = replicate 32 2, op_vout = 1\<rparr> = Some forged_out"
    using forged_lookup by blast
  have "prev_tx_id_u8 (example_wire out) = uo_prev_tx_id out" for out by (simp add: example_wire_def)
  from rest_lookup_end_to_end [OF s(1) example_id this, of "\<lambda>_. 1" "example_libs\<lparr>get_height := None\<rparr>"] s(2)
  show ?thesis by (auto simp: buf_from_to_hex)
qed

theorem rest_short_id_oob_witness: "utxo_exchange (\<lambda>_. 0) utxodb_new ''ab:1'' = Some Oob"
  using rest_short_id_oob [of "''ab''" "''1''" "\<lambda>_. 0" utxodb_new] example_id(5) by (simp add: is_hex_def hexval_def)

end
