(* ===== verification/CppJson.thy ===== *)
theory CppJson
  imports SlpTransaction
begin

text \<open>
  JSON values as the C++ programs use them. The library \<open>nlohmann::json\<close> and \<open>boost::lexical_cast\<close> are
  not part of the repository: what the code calls of them is a record of functions, an argument of
  the definitions that use it, and the locale \<open>json_library\<close> states what their documentation says of
  the calls on values of the expected kind. \<open>documented_json\<close> is an instance that also follows the
  documentation on misuse. A string is its bytes; numbers are the integers.
\<close>

section \<open>Values and the library\<close>

datatype json =
    JsonNull
  | JsonBool bool
  | JsonNum int
  | JsonStr bytes
  | JsonArr "json list"
  | JsonObj "(string \<times> json) list"

text \<open>
  \<open>json::parse\<close>, nothing standing for the exception it throws; \<open>j[key]\<close>, \<open>j[0]\<close>, \<open>j.size()\<close>, the
  values of \<open>for (auto & v : j)\<close>; \<open>j.get\<close> at three types; and \<open>boost::lexical_cast\<close> to 64 bits, of a text
  and of a JSON value.
\<close>

record json_lib =
  jl_parse :: "bytes \<Rightarrow> json option"
  jl_key :: "json \<Rightarrow> string \<Rightarrow> json parse"
  jl_first :: "json \<Rightarrow> json parse"
  jl_size :: "json \<Rightarrow> nat"
  jl_elements :: "json \<Rightarrow> json list"
  jl_string :: "json \<Rightarrow> bytes parse"
  jl_bool :: "json \<Rightarrow> bool parse"
  jl_u32 :: "json \<Rightarrow> u32 parse"
  jl_cast_text :: "bytes \<Rightarrow> u64 parse"
  jl_cast :: "json \<Rightarrow> u64 parse"

section \<open>Decimal texts\<close>

definition digit_value :: "byte \<Rightarrow> nat option" where
  "digit_value c = (let n = unat c in if 48 \<le> n \<and> n \<le> 57 then Some (n - 48) else None)"

fun digits_value :: "bytes \<Rightarrow> nat \<Rightarrow> nat option" where
  "digits_value [] n = Some n"
| "digits_value (c # cs) n = (case digit_value c of None \<Rightarrow> None | Some d \<Rightarrow> digits_value cs (10 * n + d))"

definition decimal :: "bytes \<Rightarrow> nat \<Rightarrow> bool" where
  "decimal s n \<longleftrightarrow> s \<noteq> [] \<and> digits_value s 0 = Some n"

lemma digits_value_append:
  "digits_value (s @ t) n = Option.bind (digits_value s n) (digits_value t)"
  by (induction s arbitrary: n) (auto split: option.split)

section \<open>What the documentation promises\<close>

locale json_library =
  fixes J :: json_lib
  assumes key_null: "jl_key J JsonNull k = Ok JsonNull"
    and key: "jl_key J (JsonObj ps) k = Ok (case map_of ps k of None \<Rightarrow> JsonNull | Some v \<Rightarrow> v)"
    and first: "jl_first J (JsonArr (v # vs)) = Ok v"
    and size_array: "jl_size J (JsonArr vs) = length vs"
    and elements: "jl_elements J (JsonArr vs) = vs"
    and string: "jl_string J (JsonStr s) = Ok s"
    and bool: "jl_bool J (JsonBool b) = Ok b"
    and u32: "jl_u32 J (JsonNum n) = Ok (word_of_int n)"
    and cast_text: "decimal s m \<Longrightarrow> m < 2 ^ 64 \<Longrightarrow> jl_cast_text J s = Ok (of_nat m)"
    and cast: "m < 2 ^ 64 \<Longrightarrow> jl_cast J (JsonNum (int m)) = Ok (of_nat m)"

section \<open>An instance that follows the documentation\<close>

text \<open>
  Reading a missing member of an object, or any member of a null, puts a null there and yields it;
  every other misuse throws. A cast of a text reads digits after an optional sign, in the range of the
  type, and a minus sign negates in 64 bits.
\<close>

definition type_error :: "'a parse" where
  "type_error = Fail ''nlohmann::type_error''"

definition bad_lexical_cast :: "'a parse" where
  "bad_lexical_cast = Fail ''boost::bad_lexical_cast''"

definition lexical_digits :: "bytes \<Rightarrow> u64 parse" where
  "lexical_digits s = (if s = [] then bad_lexical_cast else (case digits_value s 0 of
       None \<Rightarrow> bad_lexical_cast
     | Some n \<Rightarrow> if n < 2 ^ 64 then Ok (of_nat n) else bad_lexical_cast))"

definition lexical_u64 :: "bytes \<Rightarrow> u64 parse" where
  "lexical_u64 s = (case s of
       [] \<Rightarrow> bad_lexical_cast
     | c # cs \<Rightarrow> if c = 0x2B then lexical_digits cs
         else if c = 0x2D then res_bind (lexical_digits cs) (\<lambda>n. Ok (- n))
         else lexical_digits s)"

definition documented_json :: "(bytes \<Rightarrow> json option) \<Rightarrow> json_lib" where
  "documented_json parse = \<lparr>
     jl_parse = parse,
     jl_key = (\<lambda>j k. case j of JsonNull \<Rightarrow> Ok JsonNull
        | JsonObj ps \<Rightarrow> Ok (case map_of ps k of None \<Rightarrow> JsonNull | Some v \<Rightarrow> v) | _ \<Rightarrow> type_error),
     jl_first = (\<lambda>j. case j of JsonNull \<Rightarrow> Ok JsonNull | JsonArr [] \<Rightarrow> Ok JsonNull | JsonArr (v # _) \<Rightarrow> Ok v | _ \<Rightarrow> type_error),
     jl_size = (\<lambda>j. case j of JsonNull \<Rightarrow> 0 | JsonArr vs \<Rightarrow> length vs | JsonObj ps \<Rightarrow> card (fst ` set ps) | _ \<Rightarrow> 1),
     jl_elements = (\<lambda>j. case j of JsonNull \<Rightarrow> [] | JsonArr vs \<Rightarrow> vs | JsonObj ps \<Rightarrow> map snd ps | _ \<Rightarrow> [j]),
     jl_string = (\<lambda>j. case j of JsonStr s \<Rightarrow> Ok s | _ \<Rightarrow> type_error),
     jl_bool = (\<lambda>j. case j of JsonBool b \<Rightarrow> Ok b | _ \<Rightarrow> type_error),
     jl_u32 = (\<lambda>j. case j of JsonNum n \<Rightarrow> Ok (word_of_int n) | JsonBool b \<Rightarrow> Ok (of_bool b) | _ \<Rightarrow> type_error),
     jl_cast_text = lexical_u64,
     jl_cast = (\<lambda>j. case j of JsonNum n \<Rightarrow> if \<bar>n\<bar> < 2 ^ 64 then Ok (word_of_int n) else bad_lexical_cast | _ \<Rightarrow> bad_lexical_cast)\<rparr>"

lemma digit_not_sign: "digits_value (c # cs) n = Some m \<Longrightarrow> c \<noteq> 0x2B \<and> c \<noteq> 0x2D"
  by (auto simp: digit_value_def Let_def split: if_splits)

lemma lexical_u64_decimal: "decimal s m \<Longrightarrow> m < 2 ^ 64 \<Longrightarrow> lexical_u64 s = Ok (of_nat m)"
  by (cases s) (auto simp: decimal_def lexical_u64_def lexical_digits_def simp del: digits_value.simps dest!: digit_not_sign)

interpretation doc: json_library "documented_json parse" for parse
  by unfold_locales (simp_all add: documented_json_def lexical_u64_decimal)

lemmas doc_simps = doc.key_null doc.key doc.first doc.size_array doc.elements doc.string doc.bool doc.u32

lemma documented_json_parse [simp]: "jl_parse (documented_json parse) = parse"
  by (simp add: documented_json_def)

end
