(* ===== verification/FuzzDrivers.thy ===== *)
theory FuzzDrivers
  imports FuzzServers RestBridge CppJson
begin

text \<open>
  The C++ drivers of the differential fuzzer that compare the message parser with a JavaScript one:
  \<open>main\<close> of \<open>fuzz/differential_slpparser.cpp\<close> and of \<open>fuzz/differential_nodejs.cpp\<close>, and how they and
  the bridges of FuzzServers work together. A driver ends with an exit code, \<open>Ok\<close>, or by
  \<open>abort()\<close>, which the fuzzer records as a difference. What it prints is left out. The HTTP client
  is the function \<open>get\<close> from the path and the number of the attempt to a status and a body; the file,
  \<open>boost::algorithm::hex\<close> and the JSON library are parameters.
\<close>

section \<open>Steps of both drivers\<close>

definition aborts :: "'a parse" where
  "aborts = Fail ''abort''"

definition abort_check :: "bool \<Rightarrow> 'a parse \<Rightarrow> 'a parse" where
  "abort_check cond k = (if cond then aborts else k)"

text \<open>The loop over the attempts, of which \<open>n\<close> are left; nothing when all have failed.\<close>

fun get_loop :: "json_lib \<Rightarrow> (nat \<Rightarrow> (nat \<times> bytes) option) \<Rightarrow> nat \<Rightarrow> nat \<Rightarrow> json option parse" where
  "get_loop J get 0 i = Ok None"
| "get_loop J get (Suc n) i = (case get i of
       None \<Rightarrow> get_loop J get n (Suc i)
     | Some (code, content) \<Rightarrow> if code \<noteq> 200 then get_loop J get n (Suc i)
         else (case jl_parse J content of None \<Rightarrow> Fail ''nlohmann::parse_error'' | Some jbody \<Rightarrow> Ok (Some jbody)))"

definition text_field :: "json_lib \<Rightarrow> json \<Rightarrow> string \<Rightarrow> bytes parse" where
  "text_field J j k = res_bind (jl_key J j k) (jl_string J)"

definition check_text :: "json_lib \<Rightarrow> json \<Rightarrow> string \<Rightarrow> bytes \<Rightarrow> 'a parse \<Rightarrow> 'a parse" where
  "check_text J j key v k = res_bind (text_field J j key) (\<lambda>s. abort_check (s \<noteq> v) k)"

definition check_version :: "json_lib \<Rightarrow> json \<Rightarrow> slp_transaction \<Rightarrow> 'a parse \<Rightarrow> 'a parse" where
  "check_version J j s k = res_bind (jl_key J j ''versionType'') (\<lambda>v. res_bind (jl_cast J v) (\<lambda>n.
     abort_check (n \<noteq> ucast (slp_token_type s)) k))"

definition check_hash :: "json_lib \<Rightarrow> (bytes \<Rightarrow> bytes) \<Rightarrow> json \<Rightarrow> bytes \<Rightarrow> 'a parse \<Rightarrow> 'a parse" where
  "check_hash J hx j h k = res_bind (jl_key J j ''documentSha256'') (\<lambda>v.
     if v = JsonNull then abort_check (h \<noteq> []) k else res_bind (jl_string J v) (\<lambda>s. abort_check (s \<noteq> hx h) k))"

definition check_decimals :: "json_lib \<Rightarrow> json \<Rightarrow> u32 \<Rightarrow> 'a parse \<Rightarrow> 'a parse" where
  "check_decimals J j d k = res_bind (jl_key J j ''decimals'') (\<lambda>v. res_bind (jl_u32 J v) (\<lambda>n. abort_check (n \<noteq> d) k))"

definition check_baton :: "json_lib \<Rightarrow> json \<Rightarrow> u32 \<Rightarrow> 'a parse \<Rightarrow> 'a parse" where
  "check_baton J j b k = res_bind (jl_key J j ''batonVout'') (\<lambda>v.
     if v = JsonNull then abort_check (b \<noteq> 0) k else res_bind (jl_u32 J v) (\<lambda>n. abort_check (n \<noteq> b) k))"

definition check_qty :: "json_lib \<Rightarrow> json \<Rightarrow> u64 \<Rightarrow> 'a parse \<Rightarrow> 'a parse" where
  "check_qty J j q k = res_bind (text_field J j ''genesisOrMintQuantity'') (\<lambda>s. res_bind (jl_cast_text J s) (\<lambda>n.
     abort_check (n \<noteq> q) k))"

text \<open>One send output against the amount at an index; the vector is read without a check.\<close>

definition check_amount :: "json_lib \<Rightarrow> json \<Rightarrow> u64 list \<Rightarrow> nat \<Rightarrow> 'a parse \<Rightarrow> 'a parse" where
  "check_amount J soutput qs i k = res_bind (jl_string J soutput) (\<lambda>s. res_bind (jl_cast_text J s) (\<lambda>n.
     if i < length qs then abort_check (n \<noteq> qs ! i) k else Oob))"

text \<open>\<open>absl::get\<close> of the three messages.\<close>

definition as_genesis :: "slp_transaction \<Rightarrow> slp_transaction_genesis parse" where
  "as_genesis s = (case slp_tx s of SlpGenesis g \<Rightarrow> Ok g | _ \<Rightarrow> Fail ''absl::bad_variant_access'')"

definition as_mint :: "slp_transaction \<Rightarrow> slp_transaction_mint parse" where
  "as_mint s = (case slp_tx s of SlpMint m \<Rightarrow> Ok m | _ \<Rightarrow> Fail ''absl::bad_variant_access'')"

definition as_send :: "slp_transaction \<Rightarrow> slp_transaction_send parse" where
  "as_send s = (case slp_tx s of SlpSend m \<Rightarrow> Ok m | _ \<Rightarrow> Fail ''absl::bad_variant_access'')"

text \<open>
  \<open>main\<close> up to the comparison of the fields, which the drivers do each in their own way: \<open>compare\<close>
  gets the answer's data, the type it names and the parsed message. \<open>tt\<close> is the token type an invalid
  message leaves unset.
\<close>

definition driver_main :: "(json \<Rightarrow> bytes \<Rightarrow> slp_transaction \<Rightarrow> nat parse) \<Rightarrow> json_lib \<Rightarrow> (bytes \<Rightarrow> bytes) \<Rightarrow>
    (bytes \<Rightarrow> nat \<Rightarrow> (nat \<times> bytes) option) \<Rightarrow> (string \<Rightarrow> bytes option) \<Rightarrow> u16 \<Rightarrow> string list \<Rightarrow> nat parse" where
  "driver_main compare J hx get readfile tt argv = (if length argv < 2 then Ok 1 else
     (case readfile (argv ! 1) of None \<Rightarrow> Fail ''std::length_error'' | Some txdata \<Rightarrow>
     (case slp_transaction_of_script tt txdata of None \<Rightarrow> Oob | Some slp_transaction \<Rightarrow>
     (let hydration_success = slp_type slp_transaction \<noteq> TInvalid in
     res_bind (get_loop J (get (0x2F # hx txdata)) 100 0) (\<lambda>r. case r of
       None \<Rightarrow> Ok 0
     | Some jbody \<Rightarrow> res_bind (jl_key J jbody ''success'') (\<lambda>v. res_bind (jl_bool J v) (\<lambda>success.
         abort_check (hydration_success \<and> \<not> success) (abort_check (\<not> hydration_success \<and> success)
         (case jl_key J jbody ''data'' of
            Oob \<Rightarrow> Oob
          | Fail e \<Rightarrow> if e = ''nlohmann::parse_error'' then abort_check hydration_success (Ok 0) else Fail e
          | Ok j \<Rightarrow> res_bind (jl_key J j ''transactionType'') (\<lambda>ty.
              if ty = JsonNull then abort_check hydration_success (Ok 0)
              else res_bind (jl_string J ty) (\<lambda>transactionType. compare j transactionType slp_transaction)))))))))))"

section \<open>fuzz/differential_slpparser.cpp\<close>

fun slpparser_amounts :: "json_lib \<Rightarrow> u64 list \<Rightarrow> nat \<Rightarrow> json list \<Rightarrow> nat parse" where
  "slpparser_amounts J qs i [] = Ok 0"
| "slpparser_amounts J qs i (soutput # js) = check_amount J soutput qs i (slpparser_amounts J qs (Suc i) js)"

definition slpparser_compare :: "json_lib \<Rightarrow> (bytes \<Rightarrow> bytes) \<Rightarrow> json \<Rightarrow> bytes \<Rightarrow> slp_transaction \<Rightarrow> nat parse" where
  "slpparser_compare J hx j transactionType s =
     (if transactionType = ascii ''GENESIS'' then abort_check (slp_type s \<noteq> TGenesis)
        (res_bind (as_genesis s) (\<lambda>g. check_version J j s
          (check_text J j ''symbol'' (hx (ticker g)) (check_text J j ''name'' (hx (name g))
          (check_text J j ''documentUri'' (hx (document_uri g)) (check_hash J hx j (document_hash g)
          (check_decimals J j (decimals g) (check_baton J j (genesis_mint_baton_vout g)
          (check_qty J j (genesis_qty g) (Ok 0))))))))))
      else if transactionType = ascii ''MINT'' then abort_check (slp_type s \<noteq> TMint)
        (res_bind (as_mint s) (\<lambda>m. check_version J j s
          (check_text J j ''tokenIdHex'' (bhash_decompress True (slp_tokenid s)) (check_qty J j (mint_qty m)
          (check_baton J j (mint_mint_baton_vout m) (Ok 0))))))
      else if transactionType = ascii ''SEND'' then abort_check (slp_type s \<noteq> TSend)
        (res_bind (as_send s) (\<lambda>m. check_version J j s
          (check_text J j ''tokenIdHex'' (bhash_decompress True (slp_tokenid s))
          (res_bind (jl_key J j ''sendOutputs'') (\<lambda>v. abort_check (jl_size J v \<noteq> length (amounts m))
          (slpparser_amounts J (amounts m) 0 (jl_elements J v)))))))
      else abort_check (slp_type s \<noteq> TInvalid) (Ok 0))"

definition slpparser_driver :: "json_lib \<Rightarrow> (bytes \<Rightarrow> bytes) \<Rightarrow> (bytes \<Rightarrow> nat \<Rightarrow> (nat \<times> bytes) option) \<Rightarrow>
    (string \<Rightarrow> bytes option) \<Rightarrow> u16 \<Rightarrow> string list \<Rightarrow> nat parse" where
  "slpparser_driver J hx = driver_main (slpparser_compare J hx) J hx"

section \<open>fuzz/differential_nodejs.cpp\<close>

text \<open>slp-validate's list of send outputs starts with one for output 0, which is skipped.\<close>

fun nodejs_amounts :: "json_lib \<Rightarrow> u64 list \<Rightarrow> nat \<Rightarrow> json list \<Rightarrow> nat parse" where
  "nodejs_amounts J qs i [] = Ok 0"
| "nodejs_amounts J qs i (soutput # js) =
     (if i > 0 then check_amount J soutput qs (i - 1) (nodejs_amounts J qs (Suc i) js) else nodejs_amounts J qs (Suc i) js)"

definition nodejs_compare :: "json_lib \<Rightarrow> (bytes \<Rightarrow> bytes) \<Rightarrow> json \<Rightarrow> bytes \<Rightarrow> slp_transaction \<Rightarrow> nat parse" where
  "nodejs_compare J hx j transactionType s =
     (if transactionType = ascii ''GENESIS'' then abort_check (slp_type s \<noteq> TGenesis)
        (res_bind (as_genesis s) (\<lambda>g. check_version J j s
          (res_bind (text_field J j ''documentUri'') (\<lambda>_. check_hash J hx j (document_hash g)
          (check_decimals J j (decimals g) (check_baton J j (genesis_mint_baton_vout g)
          (check_qty J j (genesis_qty g) (Ok 0))))))))
      else if transactionType = ascii ''MINT'' then abort_check (slp_type s \<noteq> TMint)
        (res_bind (as_mint s) (\<lambda>m. check_version J j s
          (check_text J j ''tokenIdHex'' (bhash_decompress True (slp_tokenid s)) (check_qty J j (mint_qty m)
          (check_baton J j (mint_mint_baton_vout m) (Ok 0))))))
      else if transactionType = ascii ''SEND'' then abort_check (slp_type s \<noteq> TSend)
        (res_bind (as_send s) (\<lambda>m. check_version J j s
          (check_text J j ''tokenIdHex'' (bhash_decompress True (slp_tokenid s))
          (res_bind (jl_key J j ''sendOutputs'') (\<lambda>v. abort_check ((of_nat (jl_size J v) - 1 :: u64) \<noteq> of_nat (length (amounts m)))
          (nodejs_amounts J (amounts m) 0 (jl_elements J v)))))))
      else abort_check (slp_type s \<noteq> TInvalid) (Ok 0))"

definition nodejs_driver :: "json_lib \<Rightarrow> (bytes \<Rightarrow> bytes) \<Rightarrow> (bytes \<Rightarrow> nat \<Rightarrow> (nat \<times> bytes) option) \<Rightarrow>
    (string \<Rightarrow> bytes option) \<Rightarrow> u16 \<Rightarrow> string list \<Rightarrow> nat parse" where
  "nodejs_driver J hx = driver_main (nodejs_compare J hx) J hx"

section \<open>From JavaScript values to C++\<close>

text \<open>
  The value C++ reads from a text that \<open>JSON.stringify\<close> wrote: undefined members are left out, a
  Buffer is an object, a library value is the text of its \<open>toJSON()\<close>.
\<close>

fun json_of :: "jsval \<Rightarrow> json" where
  "json_of JUndef = JsonNull"
| "json_of JNull = JsonNull"
| "json_of (JBool b) = JsonBool b"
| "json_of (JNum n) = JsonNum n"
| "json_of (JStr s) = JsonStr (buf_from_utf8 s)"
| "json_of (JBuf bs) = JsonObj [(''type'', JsonStr (ascii ''Buffer'')), (''data'', JsonArr (map (\<lambda>b. JsonNum (uint b)) bs))]"
| "json_of (JLib t h j) = JsonStr (buf_from_utf8 j)"
| "json_of (JArr xs) = JsonArr (map json_of xs)"
| "json_of (JObj ps) = JsonObj (map (\<lambda>p. (fst p, json_of (snd p))) (filter (\<lambda>p. snd p \<noteq> JUndef) ps))"

definition reply_json :: "jsval js \<Rightarrow> json" where
  "reply_json r = json_of (case r of
       Inl e \<Rightarrow> JObj [(''success'', JBool False), (''error'', JStr (message e))]
     | Inr y \<Rightarrow> JObj [(''success'', JBool True), (''data'', y)])"

text \<open>The library reads back the body of a reply.\<close>

definition reads_reply :: "json_lib \<Rightarrow> jsval js \<Rightarrow> bool" where
  "reads_reply J r \<longleftrightarrow> jl_parse J (concat (written (turbo_reply r))) = Some (reply_json r)"

lemma map_of_filter_first: "map_of ps k = Some v \<Longrightarrow> P (k, v) \<Longrightarrow> map_of (filter P ps) k = Some v"
  by (induction ps) (auto split: if_splits)

lemma map_of_map_snd: "map_of (map (\<lambda>p. (fst p, f (snd p))) ps) k = map_option f (map_of ps k)"
  by (induction ps) auto

lemma json_of_field:
  "map_of ps k = Some v \<Longrightarrow> v \<noteq> JUndef \<Longrightarrow> json_of (JObj ps) = JsonObj qs \<Longrightarrow> map_of qs k = Some (json_of v)"
  using map_of_filter_first [of ps k v "\<lambda>p. snd p \<noteq> JUndef"] by (auto simp: map_of_map_snd)

definition plain :: "string \<Rightarrow> bool" where
  "plain s \<longleftrightarrow> (\<forall>c \<in> set s. of_char c < (128::nat))"

lemma utf8_plain: "plain s \<Longrightarrow> buf_from_utf8 s = ascii s"
  by (induction s) (auto simp: plain_def buf_from_utf8_def utf8_char_def byte_of_char_def)

lemma plain_simps: "plain []" "plain (c # s) \<longleftrightarrow> of_char c < (128::nat) \<and> plain s" "plain (s @ t) \<longleftrightarrow> plain s \<and> plain t"
  by (auto simp: plain_def)

lemma plain_hexdigit: "n < 16 \<Longrightarrow> of_char (hexdigit n) < (128::nat) \<and> of_char (char_upper (hexdigit n)) < (128::nat)"
  by (auto simp: char_upper_def of_char_hexdigit Let_def)

lemma plain_hex: "plain (buf_to_hex bs)" "plain (js_toUpperCase (buf_to_hex bs))"
  by (induction bs) (simp_all add: js_toUpperCase_def plain_simps hex_pair_def plain_hexdigit)

lemma plain_dec: "plain (nat_to_dec n)"
proof (induction n rule: nat_to_dec.induct)
  case (1 n)
  then show ?case by (subst nat_to_dec.simps) (auto simp: plain_simps plain_hexdigit)
qed

lemma digit_value_hexdigit: "d < 10 \<Longrightarrow> digit_value (byte_of_char (hexdigit d)) = Some d"
proof -
  assume d: "d < 10"
  then have "unat (of_nat (48 + d) :: byte) = 48 + d" by (simp add: unat_of_nat take_bit_nat_eq_self del: of_nat_add)
  with d show ?thesis by (simp only: hexdigit_char hex_char_def digit_value_def Let_def) (simp del: of_nat_add)
qed

lemma digits_value_dec: "digits_value (ascii (nat_to_dec n)) 0 = Some n"
proof (induction n rule: nat_to_dec.induct)
  case (1 n)
  then show ?case by (subst nat_to_dec.simps) (auto simp: digits_value_append digit_value_hexdigit)
qed

lemma decimal_dec: "decimal (ascii (nat_to_dec n)) n"
  using digits_value_dec [of n] nat_to_dec.simps [of n] by (auto simp: decimal_def)

text \<open>What the driver takes for the hex of a text is the bridge's upper-case hex, and has one reading.\<close>

definition hex_law :: "(bytes \<Rightarrow> bytes) \<Rightarrow> bool" where
  "hex_law hx \<longleftrightarrow> (\<forall>bs. hx bs = ascii (js_toUpperCase (buf_to_hex bs)))"

lemma byte_of_char_eq: "byte_of_char c = byte_of_char d \<longleftrightarrow> c = d"
  using char_of_byte_of_char by metis

lemma ascii_eq: "ascii s = ascii t \<longleftrightarrow> s = t"
  using map_char_of_byte_of_char by metis

lemma hex_eq: "js_toUpperCase (buf_to_hex as) = js_toUpperCase (buf_to_hex bs) \<longleftrightarrow> as = bs"
  "buf_to_hex as = buf_to_hex bs \<longleftrightarrow> as = bs"
  using buf_from_upper_hex buf_from_to_hex by metis+

section \<open>When the two parsers agree\<close>

text \<open>The numbers of a message in the ranges of the C++ types, and what it means that C++ read the same.\<close>

fun msg_ok :: "slp_msg \<Rightarrow> bool" where
  "msg_ok (MsgGenesis tt _ _ _ _ decs baton qty) \<longleftrightarrow> tt < 2 ^ 16 \<and> decs < 2 ^ 32 \<and> baton < 2 ^ 32 \<and> qty < 2 ^ 64"
| "msg_ok (MsgMint tt _ baton qty) \<longleftrightarrow> tt < 2 ^ 16 \<and> baton < 2 ^ 32 \<and> qty < 2 ^ 64"
| "msg_ok (MsgSend tt _ qs) \<longleftrightarrow> tt < 2 ^ 16 \<and> list_all (\<lambda>q. q < 2 ^ 64) qs"

fun agrees :: "slp_transaction \<Rightarrow> slp_msg \<Rightarrow> bool" where
  "agrees s (MsgGenesis tt tk nm uri h decs baton qty) \<longleftrightarrow> unat (slp_token_type s) = tt \<and> (\<exists>g. slp_tx s = SlpGenesis g
     \<and> ticker g = tk \<and> name g = nm \<and> document_uri g = uri \<and> document_hash g = h \<and> unat (decimals g) = decs
     \<and> unat (genesis_mint_baton_vout g) = baton \<and> unat (genesis_qty g) = qty)"
| "agrees s (MsgMint tt t baton qty) \<longleftrightarrow> unat (slp_token_type s) = tt \<and> rev (slp_tokenid s) = t \<and> (\<exists>m. slp_tx s = SlpMint m
     \<and> unat (mint_mint_baton_vout m) = baton \<and> unat (mint_qty m) = qty)"
| "agrees s (MsgSend tt t qs) \<longleftrightarrow> unat (slp_token_type s) = tt \<and> rev (slp_tokenid s) = t \<and> (\<exists>m. slp_tx s = SlpSend m
     \<and> map unat (amounts m) = qs)"

fun msg_type :: "slp_msg \<Rightarrow> string" where
  "msg_type (MsgGenesis _ _ _ _ _ _ _ _) = ''GENESIS''"
| "msg_type (MsgMint _ _ _ _) = ''MINT''"
| "msg_type (MsgSend _ _ _) = ''SEND''"

definition holds_msg :: "(string \<times> json) list \<Rightarrow> slp_msg \<Rightarrow> bool" where
  "holds_msg qs m \<longleftrightarrow> (\<forall>(k, v) \<in> set (driver_fields m). map_of qs k = Some (json_of v))"

lemma of_nat_eq_word:
  fixes w :: "'a::len word"
  shows "n < 2 ^ LENGTH('a) \<Longrightarrow> (of_nat n = w) = (n = unat w)"
  by (simp add: word_unat_eq_iff unat_of_nat take_bit_nat_eq_self)

lemma of_nat_eq_token_type: "tt < 2 ^ 16 \<Longrightarrow> (of_nat tt = (ucast (w :: u16) :: u64)) = (tt = unat w)"
proof -
  assume "tt < 2 ^ 16"
  moreover have "unat (ucast w :: u64) = unat w" by (simp add: unsigned_ucast_eq take_bit_nat_eq_self)
  ultimately show ?thesis using of_nat_eq_word [of tt "ucast w :: u64"] by simp
qed

context json_library
begin

lemma check_text_eq: "map_of qs k = Some (JsonStr t) \<Longrightarrow> check_text J (JsonObj qs) k v c = abort_check (t \<noteq> v) c"
  by (simp add: check_text_def text_field_def key string)

lemma check_version_eq:
  "map_of qs ''versionType'' = Some (JsonNum (int tt)) \<Longrightarrow> tt < 2 ^ 16 \<Longrightarrow>
     check_version J (JsonObj qs) s c = abort_check (tt \<noteq> unat (slp_token_type s)) c"
  by (simp add: check_version_def key cast of_nat_eq_token_type)

lemma check_hash_eq:
  "map_of qs ''documentSha256'' = Some (JsonStr t) \<Longrightarrow> check_hash J hx (JsonObj qs) h c = abort_check (t \<noteq> hx h) c"
  by (simp add: check_hash_def key string)

lemma check_decimals_eq:
  "map_of qs ''decimals'' = Some (JsonNum (int n)) \<Longrightarrow> n < 2 ^ 32 \<Longrightarrow>
     check_decimals J (JsonObj qs) d c = abort_check (n \<noteq> unat d) c"
  by (simp add: check_decimals_def key u32 of_nat_eq_word)

lemma check_baton_eq:
  "map_of qs ''batonVout'' = Some (JsonNum (int n)) \<Longrightarrow> n < 2 ^ 32 \<Longrightarrow>
     check_baton J (JsonObj qs) b c = abort_check (n \<noteq> unat b) c"
  by (simp add: check_baton_def key u32 of_nat_eq_word)

lemma check_qty_eq:
  "map_of qs ''genesisOrMintQuantity'' = Some (JsonStr (ascii (nat_to_dec n))) \<Longrightarrow> n < 2 ^ 64 \<Longrightarrow>
     check_qty J (JsonObj qs) q c = abort_check (n \<noteq> unat q) c"
  by (simp add: check_qty_def text_field_def key string cast_text [OF decimal_dec] of_nat_eq_word)

lemma check_amount_eq:
  "n < 2 ^ 64 \<Longrightarrow> i < length qs \<Longrightarrow>
     check_amount J (JsonStr (ascii (nat_to_dec n))) qs i c = abort_check (n \<noteq> unat (qs ! i)) c"
  by (simp add: check_amount_def string cast_text [OF decimal_dec] of_nat_eq_word)

lemma slpparser_amounts_eq:
  "list_all (\<lambda>q. q < 2 ^ 64) ns \<Longrightarrow> i + length ns = length qs \<Longrightarrow>
     slpparser_amounts J qs i (map (\<lambda>n. JsonStr (ascii (nat_to_dec n))) ns) = (if map unat (drop i qs) = ns then Ok 0 else aborts)"
proof (induction ns arbitrary: i)
  case (Cons n ns)
  then have "drop i qs = qs ! i # drop (Suc i) qs" by (simp add: Cons_nth_drop_Suc)
  with Cons show ?case by (auto simp: check_amount_eq abort_check_def)
qed simp

lemma nodejs_amounts_eq: "nodejs_amounts J qs (Suc i) js = slpparser_amounts J qs i js"
  by (induction js arbitrary: i) simp_all

lemma check_baton_option_eq:
  "map_of qs ''batonVout'' = Some (if n = 0 then JsonNull else JsonNum (int n)) \<Longrightarrow> n < 2 ^ 32 \<Longrightarrow>
     check_baton J (JsonObj qs) b c = abort_check (n \<noteq> unat b) c"
  by (auto simp: check_baton_def key u32 of_nat_eq_word unat_eq_0 abort_check_def split: if_splits)

lemma slpparser_compare_eq:
  assumes "hex_law hx" and "msg_ok m" and "holds_msg qs m" and "slp_type s = variant_type (slp_tx s)"
  shows "slpparser_compare J hx (JsonObj qs) (ascii (msg_type m)) s = (if agrees s m then Ok 0 else aborts)"
proof -
  have hx: "hx bs = ascii (js_toUpperCase (buf_to_hex bs))" for bs using assms(1) by (simp add: hex_law_def)
  have tid: "bhash_decompress True (slp_tokenid s) = ascii (buf_to_hex (rev (slp_tokenid s)))"
    by (simp add: bhash_decompress_def buf_to_hex_bytes)
  note enc = utf8_plain plain_hex plain_dec upper_hex_def ascii_eq hex_eq
  note check = check_text_eq check_version_eq check_hash_eq check_decimals_eq check_baton_eq check_qty_eq
  show ?thesis
  proof (cases m)
    case (MsgGenesis tt tk nm uri h decs baton qty)
    with assms(3) show ?thesis using assms(2,4)
      by (cases "slp_tx s")
        (simp_all add: holds_msg_def slpparser_compare_def as_genesis_def enc check hx abort_check_def)
  next
    case (MsgMint tt t baton qty)
    with assms(3) show ?thesis using assms(2,4)
      by (cases "slp_tx s")
        (simp_all add: holds_msg_def slpparser_compare_def as_mint_def enc check tid abort_check_def)
  next
    case (MsgSend tt t ns)
    with assms(3) show ?thesis using assms(2,4)
      by (cases "slp_tx s")
        (simp_all add: holds_msg_def slpparser_compare_def as_send_def enc check tid abort_check_def comp_def key size_array elements slpparser_amounts_eq byte_of_char_eq, auto)
  qed
qed

end

section \<open>The other bridge\<close>

text \<open>
  The object slp-validate documents for a message: the texts of a GENESIS are strings, a document hash or a
  mint baton may be null, and the send outputs start with that of output 0. The driver leaves the three
  texts out of the comparison, so they are arbitrary here.
\<close>

fun slpvalidate_object :: "(nat \<Rightarrow> jsval) \<Rightarrow> string \<Rightarrow> string \<Rightarrow> string \<Rightarrow> slp_msg \<Rightarrow> jsval" where
  "slpvalidate_object big symbol nm uri (MsgGenesis tt _ _ _ h decs baton qty) =
     JObj [(''transactionType'', JStr ''GENESIS''), (''versionType'', JNum (int tt)), (''symbol'', JStr symbol), (''name'', JStr nm),
       (''documentUri'', JStr uri), (''documentSha256'', if h = [] then JNull else JBuf h), (''decimals'', JNum (int decs)),
       (''batonVout'', if baton = 0 then JNull else JNum (int baton)), (''genesisOrMintQuantity'', big qty)]"
| "slpvalidate_object big symbol nm uri (MsgMint tt t baton qty) =
     JObj [(''transactionType'', JStr ''MINT''), (''versionType'', JNum (int tt)), (''tokenIdHex'', JStr (buf_to_hex t)),
       (''batonVout'', if baton = 0 then JNull else JNum (int baton)), (''genesisOrMintQuantity'', big qty)]"
| "slpvalidate_object big symbol nm uri (MsgSend tt t qs) =
     JObj [(''transactionType'', JStr ''SEND''), (''versionType'', JNum (int tt)), (''tokenIdHex'', JStr (buf_to_hex t)),
       (''sendOutputs'', JArr (map big (0 # qs)))]"

fun validate_fields :: "string \<Rightarrow> slp_msg \<Rightarrow> (string \<times> jsval) list" where
  "validate_fields uri (MsgGenesis tt _ _ _ h decs baton qty) =
     [(''transactionType'', JStr ''GENESIS''), (''versionType'', JNum (int tt)), (''documentUri'', upper_hex (buf_from_binary uri)),
      (''documentSha256'', upper_hex h), (''decimals'', JNum (int decs)),
      (''batonVout'', if baton = 0 then JNull else JNum (int baton)), (''genesisOrMintQuantity'', JStr (nat_to_dec qty))]"
| "validate_fields uri (MsgMint tt t baton qty) =
     [(''transactionType'', JStr ''MINT''), (''versionType'', JNum (int tt)), (''tokenIdHex'', JStr (buf_to_hex t)),
      (''batonVout'', if baton = 0 then JNull else JNum (int baton)), (''genesisOrMintQuantity'', JStr (nat_to_dec qty))]"
| "validate_fields uri (MsgSend tt t qs) =
     [(''transactionType'', JStr ''SEND''), (''versionType'', JNum (int tt)), (''tokenIdHex'', JStr (buf_to_hex t)),
      (''sendOutputs'', JArr (map (JStr \<circ> nat_to_dec) (0 # qs)))]"

fun agrees_unnamed :: "slp_transaction \<Rightarrow> slp_msg \<Rightarrow> bool" where
  "agrees_unnamed s (MsgGenesis tt _ _ _ h decs baton qty) \<longleftrightarrow> (\<exists>tk nm uri. agrees s (MsgGenesis tt tk nm uri h decs baton qty))"
| "agrees_unnamed s m \<longleftrightarrow> agrees s m"

lemma slpvalidate_rewrite_fields:
  assumes "\<And>n. js_toString (big n) = Inr (nat_to_dec n)"
  shows "\<exists>ps. slpvalidate_rewrite (slpvalidate_object big symbol nm uri m) = Inr (JObj ps)
     \<and> (\<forall>(k, v) \<in> set (validate_fields uri m). map_of ps k = Some v)"
  by (cases m) (simp_all add: slpvalidate_rewrite_def slpvalidate_genesis_def js_simps hex_field_def upper_hex_def
      js_equals_str_def map_toString_def js_map_toString_big assms buf_from_binary_def js_toUpperCase_def)

context json_library
begin

lemma nodejs_compare_eq:
  assumes "hex_law hx" and "msg_ok m" and "\<forall>(k, v) \<in> set (validate_fields uri m). map_of qs k = Some (json_of v)"
    and "slp_msg_ok s" and "\<And>tt t ns. m = MsgSend tt t ns \<Longrightarrow> length ns < 2 ^ 64"
  shows "nodejs_compare J hx (JsonObj qs) (ascii (msg_type m)) s = (if agrees_unnamed s m then Ok 0 else aborts)"
proof -
  have hx: "hx bs = ascii (js_toUpperCase (buf_to_hex bs))" for bs using assms(1) by (simp add: hex_law_def)
  have tid: "bhash_decompress True (slp_tokenid s) = ascii (buf_to_hex (rev (slp_tokenid s)))"
    by (simp add: bhash_decompress_def buf_to_hex_bytes)
  have ty: "slp_type s = variant_type (slp_tx s)" using assms(4) by (simp add: slp_msg_ok_def)
  note enc = utf8_plain plain_hex plain_dec upper_hex_def ascii_eq hex_eq if_distrib [of json_of]
  note check = check_text_eq check_version_eq check_hash_eq check_decimals_eq check_baton_option_eq check_qty_eq
  show ?thesis
  proof (cases m)
    case (MsgGenesis tt tk nm u h decs baton qty)
    with assms(3) show ?thesis using assms(2) ty
      by (cases "slp_tx s")
        (simp_all add: nodejs_compare_def as_genesis_def enc check hx abort_check_def text_field_def key string cong: if_cong)
  next
    case (MsgMint tt t baton qty)
    with assms(3) show ?thesis using assms(2) ty
      by (cases "slp_tx s")
        (simp_all add: nodejs_compare_def as_mint_def enc check tid abort_check_def byte_of_char_eq cong: if_cong)
  next
    case (MsgSend tt t ns)
    have "(of_nat (length ns) = (of_nat (length (amounts x)) :: u64)) = (length ns = length (amounts x))"
      if "slp_tx s = SlpSend x" for x
      using that assms(4,5) MsgSend by (simp add: slp_msg_ok_def of_nat_eq_word unat_of_nat take_bit_nat_eq_self)
    with MsgSend assms(3) show ?thesis using assms(2) ty
      by (cases "slp_tx s")
        (simp_all add: nodejs_compare_def as_send_def enc check tid abort_check_def comp_def key size_array elements nodejs_amounts_eq slpparser_amounts_eq byte_of_char_eq, auto)
  qed
qed

end

section \<open>Driver and bridge\<close>

text \<open>An attempt that the drivers repeat.\<close>

definition attempt_fails :: "(nat \<times> bytes) option \<Rightarrow> bool" where
  "attempt_fails r \<longleftrightarrow> (\<forall>code content. r = Some (code, content) \<longrightarrow> code \<noteq> 200)"

lemma get_loop_step: "attempt_fails (get i) \<Longrightarrow> get_loop J get (Suc n) i = get_loop J get n (Suc i)"
  by (auto simp: attempt_fails_def split: option.split)

lemma get_loop_answer:
  "k < n \<Longrightarrow> \<forall>l<k. attempt_fails (get (i + l)) \<Longrightarrow> get (i + k) = Some (200, d) \<Longrightarrow> jl_parse J d = Some j \<Longrightarrow>
     get_loop J get n i = Ok (Some j)"
proof (induction n arbitrary: i k)
  case (Suc n)
  show ?case
  proof (cases k)
    case 0
    with Suc.prems show ?thesis by simp
  next
    case (Suc k')
    have "attempt_fails (get (i + l))" if "l < k" for l using Suc.prems(2) that by simp
    with Suc have "attempt_fails (get i)" "\<forall>l<k'. attempt_fails (get (Suc i + l))" by fastforce+
    moreover have "get (Suc i + k') = Some (200, d)" "k' < n" using Suc.prems(1,3) Suc by simp_all
    ultimately show ?thesis using Suc.IH Suc.prems(4) by (simp only: get_loop_step)
  qed
qed simp

lemma get_loop_down: "\<forall>l<n. attempt_fails (get (i + l)) \<Longrightarrow> get_loop J get n i = Ok None"
proof (induction n arbitrary: i)
  case (Suc n)
  from Suc.prems have "attempt_fails (get i)" "\<forall>l<n. attempt_fails (get (Suc i + l))" by fastforce+
  with Suc.IH show ?case by (simp only: get_loop_step)
qed simp

lemma driver_main_answer:
  assumes "json_library J" and "2 \<le> length argv" and "readfile (argv ! 1) = Some script"
    and "slp_transaction_of_script tt script = Some s"
    and "k < 100" and "\<forall>i<k. attempt_fails (get (0x2F # hx script) i)" and "get (0x2F # hx script) k = Some (200, d)"
    and "jl_parse J d = Some (reply_json r)"
    and "\<And>y. r = Inr y \<Longrightarrow> \<exists>qs. json_of y = JsonObj qs \<and> map_of qs ''transactionType'' = Some (JsonStr ty)"
  shows "driver_main compare J hx get readfile tt argv = (if (r \<in> range Inl) = (slp_type s = TInvalid)
     then (case r of Inl _ \<Rightarrow> Ok 0 | Inr y \<Rightarrow> compare (json_of y) ty s) else aborts)"
proof -
  note lib = json_library.key [OF assms(1)] json_library.key_null [OF assms(1)] json_library.bool [OF assms(1)] json_library.string [OF assms(1)]
  have g: "get_loop J (get (0x2F # hx script)) 100 0 = Ok (Some (reply_json r))"
    by (rule get_loop_answer [OF assms(5) _ _ assms(8)]) (use assms(6,7) in simp_all)
  show ?thesis
    using assms(2-4,9) g by (cases r) (auto simp: driver_main_def Let_def reply_json_def lib abort_check_def)
qed

text \<open>What either bridge's object holds when C++ has read it.\<close>

lemma json_object_fields:
  assumes "\<forall>(k, v) \<in> set fs. map_of ps k = Some v" and "\<And>k v. (k, v) \<in> set fs \<Longrightarrow> v \<noteq> JUndef"
    and "(''transactionType'', JStr (msg_type m)) \<in> set fs"
  shows "\<exists>qs. json_of (JObj ps) = JsonObj qs \<and> (\<forall>(k, v) \<in> set fs. map_of qs k = Some (json_of v))
     \<and> map_of qs ''transactionType'' = Some (JsonStr (ascii (msg_type m)))"
proof -
  obtain qs where qs: "json_of (JObj ps) = JsonObj qs" by simp
  with assms(1,2) have f: "\<forall>(k, v) \<in> set fs. map_of qs k = Some (json_of v)" by (blast intro: json_of_field)
  moreover have "plain (msg_type m)" by (cases m) (simp_all add: plain_simps)
  ultimately have "map_of qs ''transactionType'' = Some (JsonStr (ascii (msg_type m)))"
    using assms(3) by (auto simp: utf8_plain)
  with qs f show ?thesis by blast
qed

lemma rewritten_fields:
  assumes "\<And>n. js_toString (big n) = Inr (nat_to_dec n)"
  shows "\<exists>y qs. slpparser_rewrite (slpparser_object big m) = Inr y \<and> json_of y = JsonObj qs \<and> holds_msg qs m
     \<and> map_of qs ''transactionType'' = Some (JsonStr (ascii (msg_type m)))"
proof -
  obtain ps where ps: "slpparser_rewrite (slpparser_object big m) = Inr (JObj ps)" "\<forall>(k, v) \<in> set (driver_fields m). map_of ps k = Some v"
    using slpparser_rewrite_fields [OF assms, of m] by blast
  have "v \<noteq> JUndef" if "(k, v) \<in> set (driver_fields m)" for k v
    using that by (cases m) (auto simp: upper_hex_def)
  moreover have "(''transactionType'', JStr (msg_type m)) \<in> set (driver_fields m)" by (cases m) simp_all
  ultimately show ?thesis using json_object_fields [OF ps(2)] ps(1) unfolding holds_msg_def by blast
qed

lemma validated_fields:
  assumes "\<And>n. js_toString (big n) = Inr (nat_to_dec n)"
  shows "\<exists>y qs. slpvalidate_rewrite (slpvalidate_object big symbol nm uri m) = Inr y \<and> json_of y = JsonObj qs
     \<and> (\<forall>(k, v) \<in> set (validate_fields uri m). map_of qs k = Some (json_of v))
     \<and> map_of qs ''transactionType'' = Some (JsonStr (ascii (msg_type m)))"
proof -
  obtain ps where ps: "slpvalidate_rewrite (slpvalidate_object big symbol nm uri m) = Inr (JObj ps)"
    "\<forall>(k, v) \<in> set (validate_fields uri m). map_of ps k = Some v"
    using slpvalidate_rewrite_fields [OF assms, of symbol nm uri m] by blast
  have "v \<noteq> JUndef" if "(k, v) \<in> set (validate_fields uri m)" for k v
    using that by (cases m) (auto simp: upper_hex_def split: if_splits)
  moreover have "(''transactionType'', JStr (msg_type m)) \<in> set (validate_fields uri m)" by (cases m) simp_all
  ultimately show ?thesis using json_object_fields [OF ps(2)] ps(1) by blast
qed

lemma slash_char: "char_of_byte 0x2F = CHR ''/''"
  by (simp add: char_of_byte_def char_of_def bit_0)

lemma driver_url: "hex_law hx \<Longrightarrow> map char_of_byte (0x2F # hx script) = CHR ''/'' # js_toUpperCase (buf_to_hex script)"
  by (simp add: hex_law_def comp_def slash_char)

text \<open>A comparison that decides \<open>agree\<close>, on what the bridge's reply holds, makes the driver exact.\<close>

lemma driver_exact:
  assumes "json_library J" and "2 \<le> length argv" and "readfile (argv ! 1) = Some script"
    and "k < 100" and "\<forall>i<k. attempt_fails (get (0x2F # hx script) i)"
    and "get (0x2F # hx script) k = Some (200, concat (written (turbo_reply r)))" and "reads_reply J r"
    and "\<And>m. msg = Some m \<Longrightarrow> \<exists>y qs. r = Inr y \<and> json_of y = JsonObj qs \<and> map_of qs ''transactionType'' = Some (JsonStr (ascii (msg_type m)))
      \<and> (\<forall>s. slp_msg_ok s \<longrightarrow> compare (JsonObj qs) (ascii (msg_type m)) s = (if agree s m then Ok 0 else aborts))"
    and "msg = None \<Longrightarrow> \<exists>e. r = Inl e" and "\<And>s m. slp_msg_ok s \<Longrightarrow> slp_type s = TInvalid \<Longrightarrow> \<not> agree s m"
  shows "\<exists>s. slp_transaction_of_script tt script = Some s \<and> driver_main compare J hx get readfile tt argv =
     (if (case msg of None \<Rightarrow> slp_type s = TInvalid | Some m \<Rightarrow> agree s m) then Ok 0 else aborts)"
proof -
  obtain s where s: "slp_transaction_of_script tt script = Some s" and ok: "slp_msg_ok s"
    using slp_hydrate_safe [of "slp_transaction_new tt" script] slp_hydrate_msg_ok by (fastforce simp: slp_transaction_of_script_def)
  note main = driver_main_answer [where get = get and hx = hx and k = k and readfile = readfile and argv = argv and script = script and J = J,
    OF assms(1-3) s assms(4-6) assms(7) [unfolded reads_reply_def]]
  show ?thesis
  proof (cases msg)
    case None
    with assms(9) main [of "[]"] s show ?thesis by auto
  next
    case (Some m)
    then obtain y qs where y: "r = Inr y" "json_of y = JsonObj qs" "map_of qs ''transactionType'' = Some (JsonStr (ascii (msg_type m)))"
      "compare (JsonObj qs) (ascii (msg_type m)) s = (if agree s m then Ok 0 else aborts)" using assms(8) ok by blast
    with main [of "ascii (msg_type m)"] s Some assms(10) [OF ok, of m] show ?thesis by auto
  qed
qed

text \<open>C7: the fuzzer sees exactly the differences: the driver, asking the bridge by the hex of the
  script until it answers, exits with 0 if and only if both parsers reject the script or both read the
  same message, in every field, from it; in all other cases it aborts. No conversion on the way, from
  the bytes of the C++ parser to hex, JSON, JavaScript values and back, hides or invents one.
  The object the parser gives for a GENESIS has a document hash that is not null; what the bridge does with
  a null one is \<open>null_document_hash\<close> in FuzzServers.\<close>

theorem slpparser_driver_exact:
  assumes "json_library J" and "hex_law hx" and "\<And>n. js_toString (big n) = Inr (nat_to_dec n)"
    and "parseSLP script = (case msg of None \<Rightarrow> Inl e | Some m \<Rightarrow> Inr (slpparser_object big m))"
    and "\<And>m. msg = Some m \<Longrightarrow> msg_ok m"
    and "2 \<le> length argv" and "readfile (argv ! 1) = Some script"
    and "k < 100" and "\<forall>i<k. attempt_fails (get (0x2F # hx script) i)"
    and "get (0x2F # hx script) k = Some (200, concat (written (slpparser_server parseSLP (map char_of_byte (0x2F # hx script)))))"
    and "reads_reply J (js_bind (parseSLP script) slpparser_rewrite)"
  shows "\<exists>s. slp_transaction_of_script tt script = Some s \<and> slpparser_driver J hx get readfile tt argv =
     (if (case msg of None \<Rightarrow> slp_type s = TInvalid | Some m \<Rightarrow> agrees s m) then Ok 0 else aborts)"
proof -
  let ?r = "js_bind (parseSLP script) slpparser_rewrite"
  have get: "get (0x2F # hx script) k = Some (200, concat (written (turbo_reply ?r)))"
    using assms(10) unfolding driver_url [OF assms(2)] by (simp add: slpparser_server_def script_of_driver_url)
  have "\<exists>y qs. ?r = Inr y \<and> json_of y = JsonObj qs \<and> map_of qs ''transactionType'' = Some (JsonStr (ascii (msg_type m)))
      \<and> (\<forall>s. slp_msg_ok s \<longrightarrow> slpparser_compare J hx (JsonObj qs) (ascii (msg_type m)) s = (if agrees s m then Ok 0 else aborts))"
    if m: "msg = Some m" for m
    using rewritten_fields [OF assms(3), of m] json_library.slpparser_compare_eq [OF assms(1,2) assms(5) [OF m]] assms(4) m
    by (fastforce simp: slp_msg_ok_def)
  moreover have "?r = Inl e" if "msg = None" using assms(4) that by simp
  moreover have "\<not> agrees s m" if "slp_msg_ok s" "slp_type s = TInvalid" for s m
    using that by (cases m; cases "slp_tx s") (auto simp: slp_msg_ok_def)
  ultimately show ?thesis
    unfolding slpparser_driver_def
    by (intro driver_exact [where get = get and k = k and r = ?r and hx = hx and readfile = readfile and argv = argv and script = script, OF assms(1,6-9) get assms(11)]) auto
qed

text \<open>The driver for slp-validate is exact up to the ticker, the name and the URI, which it leaves out: two
  parsers that differ in these alone pass for equal.\<close>

theorem nodejs_driver_exact:
  assumes "json_library J" and "hex_law hx" and "\<And>n. js_toString (big n) = Inr (nat_to_dec n)"
    and "parse script = (case msg of None \<Rightarrow> Inl e | Some m \<Rightarrow> Inr (slpvalidate_object big symbol nm uri m))"
    and "\<And>m. msg = Some m \<Longrightarrow> msg_ok m" and "\<And>tt t ns. msg = Some (MsgSend tt t ns) \<Longrightarrow> length ns < 2 ^ 64"
    and "2 \<le> length argv" and "readfile (argv ! 1) = Some script"
    and "k < 100" and "\<forall>i<k. attempt_fails (get (0x2F # hx script) i)"
    and "get (0x2F # hx script) k = Some (200, concat (written (slpvalidate_server parse (map char_of_byte (0x2F # hx script)))))"
    and "reads_reply J (js_bind (parse script) slpvalidate_rewrite)"
  shows "\<exists>s. slp_transaction_of_script tt script = Some s \<and> nodejs_driver J hx get readfile tt argv =
     (if (case msg of None \<Rightarrow> slp_type s = TInvalid | Some m \<Rightarrow> agrees_unnamed s m) then Ok 0 else aborts)"
proof -
  let ?r = "js_bind (parse script) slpvalidate_rewrite"
  have get: "get (0x2F # hx script) k = Some (200, concat (written (turbo_reply ?r)))"
    using assms(11) unfolding driver_url [OF assms(2)] by (simp add: slpvalidate_server_def script_of_driver_url)
  have "\<exists>y qs. ?r = Inr y \<and> json_of y = JsonObj qs \<and> map_of qs ''transactionType'' = Some (JsonStr (ascii (msg_type m)))
      \<and> (\<forall>s. slp_msg_ok s \<longrightarrow> nodejs_compare J hx (JsonObj qs) (ascii (msg_type m)) s = (if agrees_unnamed s m then Ok 0 else aborts))"
    if m: "msg = Some m" for m
    using validated_fields [OF assms(3), of symbol nm uri m] json_library.nodejs_compare_eq [OF assms(1,2) assms(5) [OF m]] assms(4,6) m
    by fastforce
  moreover have "?r = Inl e" if "msg = None" using assms(4) that by simp
  moreover have "\<not> agrees_unnamed s m" if "slp_msg_ok s" "slp_type s = TInvalid" for s m
    using that by (cases m; cases "slp_tx s") (auto simp: slp_msg_ok_def)
  ultimately show ?thesis
    unfolding nodejs_driver_def
    by (intro driver_exact [where get = get and k = k and r = ?r and hx = hx and readfile = readfile and argv = argv and script = script, OF assms(1,7-10) get assms(12)]) auto
qed

text \<open>When the bridge cannot be reached at all, the driver also exits with 0.\<close>

lemma unreachable_bridge_agrees:
  assumes "2 \<le> length argv" and "readfile (argv ! 1) = Some script" and "\<forall>i<100. attempt_fails (get (0x2F # hx script) i)"
  shows "slpparser_driver J hx get readfile tt argv = Ok 0 \<and> nodejs_driver J hx get readfile tt argv = Ok 0"
proof -
  have "get_loop J (get (0x2F # hx script)) 100 0 = Ok None" by (rule get_loop_down) (use assms(3) in simp)
  moreover obtain s where "slp_transaction_of_script tt script = Some s"
    using slp_hydrate_safe by (fastforce simp: slp_transaction_of_script_def)
  ultimately show ?thesis using assms(1,2) by (simp add: slpparser_driver_def nodejs_driver_def driver_main_def)
qed

section \<open>Example\<close>

text \<open>A SEND on which both agree; the first attempt fails.\<close>

definition example_reply :: "jsval js" where
  "example_reply = slpparser_rewrite (slpparser_object example_big (MsgSend 1 (replicate 32 7) [256]))"

definition example_hx :: "bytes \<Rightarrow> bytes" where
  "example_hx bs = ascii (js_toUpperCase (buf_to_hex bs))"

definition example_get :: "bytes \<Rightarrow> nat \<Rightarrow> (nat \<times> bytes) option" where
  "example_get path i = (if i = 0 then None else Some (200, concat (written (turbo_reply example_reply))))"

theorem slpparser_driver_exact_witness:
  "slpparser_driver (documented_json (\<lambda>_. Some (reply_json example_reply))) example_hx example_get
     (\<lambda>_. Some example_send) 0 [''driver'', ''file''] = Ok 0"
proof -
  let ?m = "MsgSend 1 (replicate 32 7) [256]"
  have r: "js_bind (Inr (slpparser_object example_big ?m)) slpparser_rewrite = example_reply" by (simp add: example_reply_def)
  have s: "slp_transaction_of_script 0 example_send = Some (hydrated (slp_transaction_new 0) 1 (replicate 32 7) (SlpSend \<lparr>amounts = [256]\<rparr>))"
  proof -
    have "slp_hydrate (slp_transaction_new 0) example_send
        = Some (True, hydrated (slp_transaction_new 0) 1 (replicate 32 7) (SlpSend \<lparr>amounts = [256]\<rparr>))"
      unfolding slp_hydrate_Some_iff using example_send_script by blast
    then show ?thesis by (simp add: slp_transaction_of_script_def)
  qed
  have url: "script_of_url (map char_of_byte (0x2F # example_hx example_send)) = example_send"
    using script_of_driver_url [of example_send] by (simp add: example_hx_def comp_def slash_char)
  have "agrees (hydrated (slp_transaction_new 0) 1 (replicate 32 7) (SlpSend \<lparr>amounts = [256]\<rparr>)) ?m"
    by (simp add: hydrated_def)
  moreover have "example_get (0x2F # example_hx example_send) 1 = Some (200, concat (written
      (slpparser_server (\<lambda>_. Inr (slpparser_object example_big ?m)) (map char_of_byte (0x2F # example_hx example_send)))))"
    by (simp add: example_get_def slpparser_server_def example_reply_def)
  ultimately show ?thesis
    using slpparser_driver_exact [of "documented_json (\<lambda>_. Some (reply_json example_reply))" example_hx example_big
        "\<lambda>_. Inr (slpparser_object example_big ?m)" example_send undefined "Some ?m" "[''driver'', ''file'']" "\<lambda>_. Some example_send" 1
        example_get 0] s r
    by (simp add: doc.json_library_axioms hex_law_def example_hx_def example_big_def reads_reply_def attempt_fails_def example_get_def)
qed

end
