(* ===== verification/SlpdbSearch.thy ===== *)
theory SlpdbSearch
  imports Prelude "HOL-Library.Multiset"
begin

text \<open>
  The script \<open>test/check_slpdb/index.js\<close>, which collects the ancestors of a transaction from an SLPDB
  server by one query per transaction. The queries run concurrently: each call of \<open>graph_search\<close> is a
  task with a promise, and the steps are the arrival of a reply and the settling of \<open>Promise.all\<close>.
  The answer of the server to a query, HTTP and JSON included, is the parameter \<open>F\<close>, the same for every
  query with the same id. An unhandled rejection is taken to leave the process running.
\<close>

section \<open>Queries\<close>

record graph_doc =
  doc_tx :: "(string \<times> string) list"
  doc_inputs :: "string list"

record slpdb_reply =
  reply_error :: bool
  reply_g :: "graph_doc list option"

text \<open>A failing \<open>fetch\<close> or \<open>json\<close> leaves the promise of the query unsettled.\<close>

datatype fetched = FetchFails | Fetched slpdb_reply

datatype settled = Never | Rejects | Resolves slpdb_reply

definition slpdb_query :: "fetched \<Rightarrow> settled" where
  "slpdb_query f = (case f of FetchFails \<Rightarrow> Never
     | Fetched r \<Rightarrow> if reply_error r then Rejects else Resolves r)"

text \<open>The id, the raw bytes and the inputs of the first document; \<open>None\<close> where the executor of the promise
  returns without settling it.\<close>

definition reply_doc :: "slpdb_reply \<Rightarrow> (string \<times> string \<times> string list) option" where
  "reply_doc r = (case reply_g r of
       Some (g # _) \<Rightarrow> (case doc_tx g of (h, raw) # _ \<Rightarrow> Some (h, raw, doc_inputs g) | [] \<Rightarrow> None)
     | _ \<Rightarrow> None)"

section \<open>Tasks\<close>

datatype task_state = Querying | Awaiting "nat list" | Done | Failed | Hangs

record task =
  tk_txid :: string
  tk_state :: task_state

record search =
  txidset :: "string set"
  rawmap :: "string \<rightharpoonup> string"
  tasks :: "task list"

definition search_start :: "string \<Rightarrow> search" where
  "search_start root = \<lparr>txidset = {}, rawmap = Map.empty, tasks = [\<lparr>tk_txid = root, tk_state = Querying\<rparr>]\<rparr>"

definition set_state :: "nat \<Rightarrow> task_state \<Rightarrow> search \<Rightarrow> search" where
  "set_state i st s = s\<lparr>tasks := (tasks s)[i := (tasks s ! i)\<lparr>tk_state := st\<rparr>]\<rparr>"

definition state_of :: "search \<Rightarrow> nat \<Rightarrow> task_state" where
  "state_of s i = tk_state (tasks s ! i)"

text \<open>The executor on a document: the sets are updated, and a search is started for each input that is not in the
  set at this moment.\<close>

definition visit :: "nat \<Rightarrow> string \<Rightarrow> string \<Rightarrow> string list \<Rightarrow> search \<Rightarrow> search" where
  "visit i h raw ins s = (let
       seen = insert h (txidset s);
       new = filter (\<lambda>m. m \<notin> seen) ins;
       n = length (tasks s);
       s = set_state i (Awaiting [n..<n + length new]) s
     in s\<lparr>txidset := seen, rawmap := (rawmap s)(h \<mapsto> raw),
          tasks := tasks s @ map (\<lambda>m. \<lparr>tk_txid = m, tk_state = Querying\<rparr>) new\<rparr>)"

definition on_reply :: "(string \<Rightarrow> fetched) \<Rightarrow> nat \<Rightarrow> search \<Rightarrow> search" where
  "on_reply F i s = (case slpdb_query (F (tk_txid (tasks s ! i))) of
       Never \<Rightarrow> set_state i Hangs s
     | Rejects \<Rightarrow> set_state i Failed s
     | Resolves r \<Rightarrow> (case reply_doc r of
           None \<Rightarrow> set_state i Hangs s
         | Some (h, raw, ins) \<Rightarrow> visit i h raw ins s))"

text \<open>When all children are resolved the task is; when one is rejected the rejection of \<open>Promise.all\<close> is
  passed to nobody, and the promise of the task stays as it is for ever.\<close>

inductive search_step :: "(string \<Rightarrow> fetched) \<Rightarrow> search \<Rightarrow> search \<Rightarrow> bool" for F where
  step_reply: "i < length (tasks s) \<Longrightarrow> state_of s i = Querying \<Longrightarrow> search_step F s (on_reply F i s)"
| step_all_done: "i < length (tasks s) \<Longrightarrow> state_of s i = Awaiting ids \<Longrightarrow> list_all (\<lambda>j. state_of s j = Done) ids \<Longrightarrow>
     search_step F s (set_state i Done s)"
| step_all_failed: "i < length (tasks s) \<Longrightarrow> state_of s i = Awaiting ids \<Longrightarrow> list_ex (\<lambda>j. state_of s j = Failed) ids \<Longrightarrow>
     search_step F s (set_state i Hangs s)"


section \<open>What a search knows\<close>

text \<open>
  What the server answers for an id, the inputs an id has according to it, and the honest server,
  whose join returns the transaction that was asked for.
\<close>

definition doc_of :: "(string \<Rightarrow> fetched) \<Rightarrow> string \<Rightarrow> (string \<times> string \<times> string list) option" where
  "doc_of F t = (case slpdb_query (F t) of Resolves r \<Rightarrow> reply_doc r | _ \<Rightarrow> None)"

definition honest :: "(string \<Rightarrow> fetched) \<Rightarrow> bool" where
  "honest F \<longleftrightarrow> (\<forall>t h raw ins. doc_of F t = Some (h, raw, ins) \<longrightarrow> h = t)"

definition spends :: "(string \<Rightarrow> fetched) \<Rightarrow> string \<Rightarrow> string \<Rightarrow> bool" where
  "spends F t m \<longleftrightarrow> (\<exists>h raw ins. doc_of F t = Some (h, raw, ins) \<and> m \<in> set ins)"

abbreviation ancestor :: "(string \<Rightarrow> fetched) \<Rightarrow> string \<Rightarrow> string \<Rightarrow> bool" where
  "ancestor F \<equiv> (spends F)\<^sup>*\<^sup>*"

lemma on_reply_cases:
  "on_reply F i s = (case doc_of F (tk_txid (tasks s ! i)) of
       Some (h, raw, ins) \<Rightarrow> visit i h raw ins s
     | None \<Rightarrow> set_state i (if slpdb_query (F (tk_txid (tasks s ! i))) = Rejects then Failed else Hangs) s)"
  by (auto simp: on_reply_def doc_of_def split: settled.split option.split)

text \<open>How the two operations change the tasks.\<close>

lemma set_state_tasks [simp]:
  "length (tasks (set_state i st s)) = length (tasks s)"
  "i < length (tasks s) \<Longrightarrow> state_of (set_state i st s) j = (if j = i then st else state_of s j)"
  "txidset (set_state i st s) = txidset s" "rawmap (set_state i st s) = rawmap s"
  by (auto simp: set_state_def state_of_def nth_list_update)

lemma set_state_txid [simp]: "tk_txid (tasks (set_state i st s) ! j) = tk_txid (tasks s ! j)"
  by (cases "i < length (tasks s)"; cases "j = i") (simp_all add: set_state_def list_update_beyond not_less)

lemma set_state_Nil [simp]: "tasks (set_state i st s) = [] \<longleftrightarrow> tasks s = []"
  by (simp add: set_state_def)

definition fresh_inputs :: "string \<Rightarrow> string list \<Rightarrow> search \<Rightarrow> string list" where
  "fresh_inputs h ins s = filter (\<lambda>m. m \<notin> insert h (txidset s)) ins"

lemma visit_tasks [simp]:
  "length (tasks (visit i h raw ins s)) = length (tasks s) + length (fresh_inputs h ins s)"
  "txidset (visit i h raw ins s) = insert h (txidset s)" "rawmap (visit i h raw ins s) = (rawmap s)(h \<mapsto> raw)"
  by (simp_all add: visit_def Let_def fresh_inputs_def)

lemma visit_old:
  "j < length (tasks s) \<Longrightarrow> tk_txid (tasks (visit i h raw ins s) ! j) = tk_txid (tasks s ! j)"
  "i < length (tasks s) \<Longrightarrow> j < length (tasks s) \<Longrightarrow> state_of (visit i h raw ins s) j
     = (if j = i then Awaiting [length (tasks s)..<length (tasks s) + length (fresh_inputs h ins s)] else state_of s j)"
proof -
  have t: "tasks (visit i h raw ins s) ! j = tasks (set_state i (Awaiting [length (tasks s)..<length (tasks s) + length (fresh_inputs h ins s)]) s) ! j"
    if "j < length (tasks s)" for j
    using that by (simp add: visit_def Let_def nth_append fresh_inputs_def)
  show "j < length (tasks s) \<Longrightarrow> tk_txid (tasks (visit i h raw ins s) ! j) = tk_txid (tasks s ! j)"
    by (simp add: t)
  show "state_of (visit i h raw ins s) j = (if j = i then Awaiting [length (tasks s)..<length (tasks s) + length (fresh_inputs h ins s)] else state_of s j)"
    if "i < length (tasks s)" "j < length (tasks s)"
    using set_state_tasks(2) [OF that(1), of "Awaiting [length (tasks s)..<length (tasks s) + length (fresh_inputs h ins s)]" j] t [OF that(2)]
    by (simp add: state_of_def)
qed

lemma visit_new:
  "n < length (fresh_inputs h ins s) \<Longrightarrow> tk_txid (tasks (visit i h raw ins s) ! (length (tasks s) + n)) = fresh_inputs h ins s ! n
     \<and> state_of (visit i h raw ins s) (length (tasks s) + n) = Querying"
  by (simp add: visit_def Let_def nth_append state_of_def fresh_inputs_def)

section \<open>The invariant\<close>

text \<open>
  A task waits only for younger tasks; every task but the first has an older one that waits for it,
  or hangs, or is done like itself. What was received are answers for ancestors of the root, and
  their inputs are received or asked for.
\<close>

definition awaited :: "search \<Rightarrow> nat \<Rightarrow> bool" where
  "awaited s j \<longleftrightarrow> (\<exists>p < j. (\<exists>ids. state_of s p = Awaiting ids \<and> j \<in> set ids) \<or> state_of s p = Hangs
     \<or> state_of s p = Done \<and> state_of s j = Done)"

definition task_ok :: "(string \<Rightarrow> fetched) \<Rightarrow> string \<Rightarrow> search \<Rightarrow> nat \<Rightarrow> bool" where
  "task_ok F root s i \<longleftrightarrow> ancestor F root (tk_txid (tasks s ! i)) \<and> (0 < i \<longrightarrow> awaited s i)
     \<and> (case state_of s i of
          Awaiting ids \<Rightarrow> tk_txid (tasks s ! i) \<in> txidset s \<and> (\<forall>j \<in> set ids. i < j \<and> j < length (tasks s))
        | Done \<Rightarrow> tk_txid (tasks s ! i) \<in> txidset s
        | Failed \<Rightarrow> slpdb_query (F (tk_txid (tasks s ! i))) = Rejects
        | _ \<Rightarrow> True)"

definition asked :: "search \<Rightarrow> string \<Rightarrow> bool" where
  "asked s m \<longleftrightarrow> m \<in> txidset s \<or> (\<exists>j < length (tasks s). tk_txid (tasks s ! j) = m)"

definition search_inv :: "(string \<Rightarrow> fetched) \<Rightarrow> string \<Rightarrow> search \<Rightarrow> bool" where
  "search_inv F root s \<longleftrightarrow> tasks s \<noteq> [] \<and> tk_txid (tasks s ! 0) = root \<and> (\<forall>i < length (tasks s). task_ok F root s i)
     \<and> dom (rawmap s) = txidset s
     \<and> (\<forall>t raw. rawmap s t = Some raw \<longrightarrow> ancestor F root t \<and> (\<exists>ins. doc_of F t = Some (t, raw, ins)))
     \<and> (\<forall>t \<in> txidset s. \<forall>m. spends F t m \<longrightarrow> asked s m)"

lemma search_invD:
  assumes "search_inv F root s"
  shows "0 < length (tasks s)" "tk_txid (tasks s ! 0) = root" "i < length (tasks s) \<Longrightarrow> task_ok F root s i"
    "dom (rawmap s) = txidset s" "rawmap s t = Some raw \<Longrightarrow> ancestor F root t \<and> (\<exists>ins. doc_of F t = Some (t, raw, ins))"
    "t \<in> txidset s \<Longrightarrow> spends F t m \<Longrightarrow> asked s m"
  using assms unfolding search_inv_def by (simp, blast+)

lemma search_inv_start: "search_inv F root (search_start root)"
  by (simp add: search_inv_def search_start_def task_ok_def state_of_def)

text \<open>A task that settles.\<close>

lemma search_inv_set_state:
  assumes "search_inv F root s" and "i < length (tasks s)"
    and "st = Done \<and> (\<exists>ids. state_of s i = Awaiting ids \<and> list_all (\<lambda>j. state_of s j = Done) ids)
       \<or> st = Hangs \<and> state_of s i \<noteq> Done
       \<or> st = Failed \<and> state_of s i = Querying \<and> slpdb_query (F (tk_txid (tasks s ! i))) = Rejects"
  shows "search_inv F root (set_state i st s)"
proof -
  let ?s = "set_state i st s"
  have aw: "awaited ?s j" if j: "awaited s j" for j
  proof -
    obtain p where p: "p < j" "(\<exists>ids. state_of s p = Awaiting ids \<and> j \<in> set ids) \<or> state_of s p = Hangs
        \<or> state_of s p = Done \<and> state_of s j = Done" using j by (auto simp: awaited_def)
    show ?thesis
    proof (cases "p = i")
      case True
      have "st = Hangs \<or> st = Done \<and> state_of s j = Done" using p(2) assms(3) by (auto simp: True list_all_iff)
      then show ?thesis using p(1) assms(2) by (auto simp: awaited_def True intro!: exI [of _ i])
    next
      case False
      then have "state_of ?s p = state_of s p" using assms(2) by simp
      moreover have "state_of s j = Done \<Longrightarrow> state_of ?s j = Done" using assms(2,3) by auto
      ultimately show ?thesis using p unfolding awaited_def by metis
    qed
  qed
  have "task_ok F root ?s j" if "j < length (tasks s)" for j
  proof -
    have t: "task_ok F root s j" "task_ok F root s i" using assms(1,2) that by (auto simp: search_inv_def)
    show ?thesis
    proof (cases "j = i")
      case True
      then show ?thesis using t(1) aw [of i] assms(2,3) by (auto simp: task_ok_def)
    next
      case False
      then show ?thesis using t(1) aw [of j] assms(2) by (auto simp: task_ok_def split: task_state.split)
    qed
  qed
  then show ?thesis using assms(1) by (auto simp: search_inv_def asked_def)
qed


text \<open>A task that receives its transaction.\<close>

lemma search_inv_visit:
  assumes "search_inv F root s" and "i < length (tasks s)" and "state_of s i = Querying"
    and "doc_of F (tk_txid (tasks s ! i)) = Some (h, raw, ins)" and "h = tk_txid (tasks s ! i)"
  shows "search_inv F root (visit i h raw ins s)"
proof -
  let ?s = "visit i h raw ins s" and ?n = "length (tasks s)" and ?new = "fresh_inputs h ins s"
  note I = assms(1) [unfolded search_inv_def]
  have anc: "ancestor F root h" using I assms(2,5) by (simp add: task_ok_def)
  have old: "tk_txid (tasks ?s ! j) = tk_txid (tasks s ! j)" "state_of ?s j = (if j = i then Awaiting [?n..<?n + length ?new] else state_of s j)"
    if "j < ?n" for j using visit_old assms(2) that by blast+
  have aw: "awaited ?s j" if j: "awaited s j" "j < ?n" for j
  proof -
    obtain p where p: "p < j" "(\<exists>ids. state_of s p = Awaiting ids \<and> j \<in> set ids) \<or> state_of s p = Hangs
        \<or> state_of s p = Done \<and> state_of s j = Done" using j(1) by (auto simp: awaited_def)
    then have "p \<noteq> i" using assms(3) by auto
    then have "state_of ?s p = state_of s p" using old(2) [of p] p(1) j(2) by simp
    moreover have "state_of s j = Done \<Longrightarrow> state_of ?s j = Done" using assms(3) old(2) [OF j(2)] by auto
    ultimately show ?thesis using p unfolding awaited_def by metis
  qed
  have 1: "task_ok F root ?s j" if j: "j < ?n" for j
  proof (cases "j = i")
    case True
    then show ?thesis using I aw [of i] old [OF assms(2)] assms(2,5) by (auto simp: task_ok_def)
  next
    case False
    have "task_ok F root s j" using I j by blast
    then show ?thesis using aw [OF _ j] old [OF j] False by (auto simp: task_ok_def split: task_state.split intro!: trans_less_add1)
  qed
  have 2: "task_ok F root ?s (?n + k)" if k: "k < length ?new" for k
  proof -
    note v = visit_new [OF k, of i raw]
    have "?new ! k \<in> set ins" using nth_mem [OF k] by (auto simp: fresh_inputs_def)
    then have "spends F h (?new ! k)" using assms(4,5) by (auto simp: spends_def)
    then have "ancestor F root (?new ! k)" using anc by (rule rtranclp.rtrancl_into_rtrancl [rotated])
    moreover have "awaited ?s (?n + k)" using old(2) [OF assms(2)] assms(2) k by (auto simp: awaited_def intro!: exI [of _ i])
    ultimately show ?thesis using v by (simp add: task_ok_def)
  qed
  have "task_ok F root ?s j" if "j < ?n + length ?new" for j
    using 1 [of j] 2 [of "j - ?n"] that by (cases "j < ?n") auto
  moreover have "asked ?s m" if t: "t \<in> insert h (txidset s)" "spends F t m" for t m
  proof (cases "t = h \<and> m \<notin> insert h (txidset s)")
    case True
    then have "m \<in> set ?new" using t(2) assms(4,5) by (auto simp: spends_def fresh_inputs_def)
    then obtain k where "k < length ?new" "?new ! k = m" by (auto simp: in_set_conv_nth)
    then show ?thesis using visit_new [of k h ins s i raw] by (auto simp: asked_def intro!: exI [of _ "?n + k"])
  next
    case False
    then have "m \<in> insert h (txidset s) \<or> asked s m" using t I by blast
    then show ?thesis using old(1) by (auto simp: asked_def intro: trans_less_add1)
  qed
  moreover have "tasks ?s \<noteq> []" using visit_tasks(1) [of i h raw ins s] assms(2) by (metis add_is_0 list.size(3) not_less0)
  moreover have "tk_txid (tasks ?s ! 0) = root" using old(1) [of 0] I by simp
  moreover have "dom ((rawmap s)(h \<mapsto> raw)) = insert h (txidset s)" using I by simp
  moreover have "ancestor F root t \<and> (\<exists>ins. doc_of F t = Some (t, r, ins))" if "((rawmap s)(h \<mapsto> raw)) t = Some r" for t r
    using that I anc assms(4,5) by (auto split: if_splits)
  ultimately show ?thesis unfolding search_inv_def by (simp only: visit_tasks) blast
qed

interpretation slpdb: machine "\<lambda>s. s = search_start root" "search_step F" "\<lambda>s. honest F \<longrightarrow> search_inv F root s" for F root
proof
  show "honest F \<longrightarrow> search_inv F root s" if "s = search_start root" for s using that by (simp add: search_inv_start)
  show "honest F \<longrightarrow> search_inv F root t" if "honest F \<longrightarrow> search_inv F root s" and "search_step F s t" for s t
    using that(2)
  proof cases
    case (step_reply i)
    show ?thesis
    proof (cases "doc_of F (tk_txid (tasks s ! i))")
      case None
      then show ?thesis using search_inv_set_state [of F root s i] that(1) step_reply by (auto simp: on_reply_cases)
    next
      case (Some d)
      then obtain h raw ins where d: "d = (h, raw, ins)" by (cases d)
      with Some show ?thesis using search_inv_visit [of F root s i h raw ins] that(1) step_reply
        by (auto simp: on_reply_cases honest_def)
    qed
  next
    case (step_all_done i ids)
    then show ?thesis using search_inv_set_state [of F root s i Done] that(1) by auto
  next
    case (step_all_failed i ids)
    then show ?thesis using search_inv_set_state [of F root s i Hangs] that(1) by auto
  qed
qed

section \<open>The result\<close>

lemma all_done:
  assumes "search_inv F root s" and "state_of s 0 = Done" and "i < length (tasks s)"
  shows "state_of s i = Done"
  using assms(3)
proof (induction i rule: less_induct)
  case (less i)
  show ?case
  proof (cases "i = 0")
    case False
    then have "awaited s i" using assms(1) less.prems by (auto simp: search_inv_def task_ok_def)
    then obtain p where "p < i" "(\<exists>ids. state_of s p = Awaiting ids) \<or> state_of s p = Hangs \<or> state_of s i = Done"
      by (auto simp: awaited_def)
    moreover from this have "state_of s p = Done" using less by simp
    ultimately show ?thesis by auto
  qed (simp add: assms(2))
qed

lemma done_received:
  assumes "search_inv F root s" and "state_of s 0 = Done" and "ancestor F root t"
  shows "t \<in> txidset s"
proof -
  have d: "tk_txid (tasks s ! i) \<in> txidset s" if "i < length (tasks s)" for i
    using all_done [OF assms(1,2) that] search_invD(3) [OF assms(1) that] by (simp add: task_ok_def)
  show ?thesis using assms(3)
  proof (induction rule: rtranclp_induct)
    case base
    then show ?case using d [of 0] search_invD(1,2) [OF assms(1)] by simp
  next
    case (step t m)
    then have "asked s m" using search_invD(6) [OF assms(1)] by blast
    then show ?case using d by (auto simp: asked_def)
  qed
qed

text \<open>C13: a search that ends has everything: whenever the promise of the first call is resolved, in whatever order the
  replies arrived, the map holds exactly the ancestors of the root, each with the raw bytes the
  server gives for it.\<close>

theorem search_complete:
  assumes "honest F" and "reach (\<lambda>s. s = search_start root) (search_step F) s" and "state_of s 0 = Done"
  shows "ancestor F root t \<longleftrightarrow> (\<exists>raw ins. rawmap s t = Some raw \<and> doc_of F t = Some (t, raw, ins))"
proof -
  have I: "search_inv F root s" using slpdb.reach_inv [OF assms(2)] assms(1) by simp
  show ?thesis
  proof
    assume "ancestor F root t"
    from done_received [OF I assms(3) this] obtain raw where "rawmap s t = Some raw" using search_invD(4) [OF I] by blast
    with search_invD(5) [OF I this] show "\<exists>raw ins. rawmap s t = Some raw \<and> doc_of F t = Some (t, raw, ins)" by blast
  qed (use search_invD(5) [OF I] in blast)
qed

text \<open>C15: one missing ancestor and the search never ends: when the server answers for the root but lacks the
  document of some ancestor, or fails on it, the promise of the first call is neither resolved nor
  rejected in any state the search can reach.\<close>

theorem missing_ancestor_hangs:
  assumes "honest F" and "reach (\<lambda>s. s = search_start root) (search_step F) s"
    and "doc_of F root \<noteq> None" and "ancestor F root t" and "doc_of F t = None"
  shows "state_of s 0 \<noteq> Done \<and> state_of s 0 \<noteq> Failed"
proof -
  have I: "search_inv F root s" using slpdb.reach_inv [OF assms(2)] assms(1) by simp
  have "rawmap s t = None" using search_invD(5) [OF I, of t] assms(5) by (cases "rawmap s t") auto
  then have "t \<notin> txidset s" using search_invD(4) [OF I] by blast
  moreover have "slpdb_query (F root) \<noteq> Rejects" using assms(3) by (auto simp: doc_of_def)
  moreover have "task_ok F root s 0" "tk_txid (tasks s ! 0) = root" using search_invD(1-3) [OF I] by blast+
  ultimately show ?thesis using done_received [OF I _ assms(4)] by (auto simp: task_ok_def)
qed


section \<open>Termination\<close>

text \<open>
  The parents of a transaction come before it on the chain. A reply replaces a task by tasks of
  smaller rank, and settling leaves one task less that waits.
\<close>

definition ranked_by :: "(string \<Rightarrow> nat) \<Rightarrow> (string \<Rightarrow> fetched) \<Rightarrow> bool" where
  "ranked_by rank F \<longleftrightarrow> (\<forall>t m. spends F t m \<longrightarrow> rank m < rank t)"

definition queries :: "search \<Rightarrow> nat set" where
  "queries s = {i. i < length (tasks s) \<and> state_of s i = Querying}"

definition query_ranks :: "(string \<Rightarrow> nat) \<Rightarrow> search \<Rightarrow> nat multiset" where
  "query_ranks rank s = image_mset (\<lambda>i. rank (tk_txid (tasks s ! i))) (mset_set (queries s))"

definition waiting :: "search \<Rightarrow> nat set" where
  "waiting s = {i. i < length (tasks s) \<and> (\<exists>ids. state_of s i = Awaiting ids)}"

lemma finite_queries [simp]: "finite (queries s)" "finite (waiting s)"
  by (simp_all add: queries_def waiting_def)

lemma query_ranks_remove:
  assumes "i \<in> queries s"
  shows "query_ranks rank s = image_mset (\<lambda>i. rank (tk_txid (tasks s ! i))) (mset_set (queries s - {i})) + {#rank (tk_txid (tasks s ! i))#}"
  using assms mset_set.remove [of "queries s" i] by (simp add: query_ranks_def)

lemma reply_decreases:
  assumes "ranked_by rank F" and "i < length (tasks s)" and "state_of s i = Querying"
  shows "(query_ranks rank (on_reply F i s), query_ranks rank s) \<in> mult less_than"
proof -
  let ?r = "\<lambda>s i. rank (tk_txid (tasks s ! i))" and ?Q = "queries s - {i}"
  have i: "i \<in> queries s" using assms(2,3) by (simp add: queries_def)
  have step: "(image_mset (?r s) (mset_set ?Q) + K, query_ranks rank s) \<in> mult less_than"
    if "\<forall>k \<in># K. k < ?r s i" for K
    unfolding query_ranks_remove [OF i] using that by (intro one_step_implies_mult) auto
  show ?thesis
  proof (cases "doc_of F (tk_txid (tasks s ! i))")
    case None
    then obtain st where e: "on_reply F i s = set_state i st s" "st \<noteq> Querying" by (auto simp: on_reply_cases split: if_splits)
    then have "queries (on_reply F i s) = ?Q" using assms(2) by (auto simp: queries_def)
    then have "query_ranks rank (on_reply F i s) = image_mset (?r s) (mset_set ?Q) + {#}" by (simp add: query_ranks_def e(1))
    then show ?thesis using step [of "{#}"] by simp
  next
    case (Some d)
    then obtain h raw ins where d: "d = (h, raw, ins)" by (cases d)
    let ?s = "visit i h raw ins s" and ?n = "length (tasks s)" and ?k = "length (fresh_inputs h ins s)"
    have s: "on_reply F i s = ?s" using Some d by (simp add: on_reply_cases)
    have q: "queries ?s = ?Q \<union> {?n..<?n + ?k}"
    proof -
      have "j \<in> queries ?s \<longleftrightarrow> j \<in> ?Q \<union> {?n..<?n + ?k}" for j
        using visit_old(2) [OF assms(2), of j h raw ins] visit_new [of "j - ?n" h ins s i raw]
        by (cases "j < ?n") (auto simp: queries_def)
      then show ?thesis by blast
    qed
    have "?Q \<inter> {?n..<?n + ?k} = {}" by (auto simp: queries_def)
    then have "mset_set (queries ?s) = mset_set ?Q + mset_set {?n..<?n + ?k}" by (simp add: q mset_set_Union)
    moreover have "image_mset (?r ?s) (mset_set ?Q) = image_mset (?r s) (mset_set ?Q)"
      using visit_old(1) by (intro image_mset_cong) (auto simp: queries_def)
    ultimately have "query_ranks rank ?s = image_mset (?r s) (mset_set ?Q) + image_mset (?r ?s) (mset_set {?n..<?n + ?k})"
      by (simp add: query_ranks_def)
    moreover have "?r ?s j < ?r s i" if "j \<in> {?n..<?n + ?k}" for j
    proof -
      have "j - ?n < ?k" "j = ?n + (j - ?n)" using that by auto
      then have "tk_txid (tasks ?s ! j) = fresh_inputs h ins s ! (j - ?n)" "fresh_inputs h ins s ! (j - ?n) \<in> set (fresh_inputs h ins s)"
        using visit_new [of "j - ?n" h ins s i raw] nth_mem by metis+
      then have "spends F (tk_txid (tasks s ! i)) (tk_txid (tasks ?s ! j))"
        using Some d by (auto simp: spends_def fresh_inputs_def)
      then show ?thesis using assms(1) by (simp add: ranked_by_def)
    qed
    ultimately show ?thesis using step [of "image_mset (?r ?s) (mset_set {?n..<?n + ?k})"] s by simp
  qed
qed

lemma settle_decreases:
  assumes "i < length (tasks s)" and "state_of s i = Awaiting ids" and "st \<in> {Done, Hangs}"
  shows "query_ranks rank (set_state i st s) = query_ranks rank s" and "card (waiting (set_state i st s)) < card (waiting s)"
proof -
  have "queries (set_state i st s) = queries s" "waiting (set_state i st s) = waiting s - {i}" "i \<in> waiting s"
    using assms by (auto simp: queries_def waiting_def)
  then show "query_ranks rank (set_state i st s) = query_ranks rank s" "card (waiting (set_state i st s)) < card (waiting s)"
    by (simp_all add: query_ranks_def card_Diff1_less del: card_Diff_insert card_Diff_singleton)
qed

lemma search_wf:
  assumes "ranked_by rank F"
  shows "wf {(s', s). search_step F s s'}"
proof (rule wf_subset)
  show "wf (inv_image (mult less_than <*lex*> less_than) (\<lambda>s. (query_ranks rank s, card (waiting s))))"
    by (intro wf_inv_image wf_lex_prod wf_mult wf_less_than)
  show "{(s', s). search_step F s s'} \<subseteq> inv_image (mult less_than <*lex*> less_than) (\<lambda>s. (query_ranks rank s, card (waiting s)))"
  proof (clarify, unfold in_inv_image)
    show "((query_ranks rank s', card (waiting s')), query_ranks rank s, card (waiting s)) \<in> mult less_than <*lex*> less_than"
      if "search_step F s s'" for s' s
      using that by cases (simp_all add: reply_decreases [OF assms] settle_decreases)
  qed
qed


definition all_found :: "(string \<Rightarrow> fetched) \<Rightarrow> string \<Rightarrow> bool" where
  "all_found F root \<longleftrightarrow> (\<forall>t. ancestor F root t \<longrightarrow> doc_of F t \<noteq> None)"

abbreviation search_reach :: "(string \<Rightarrow> fetched) \<Rightarrow> string \<Rightarrow> search \<Rightarrow> bool" where
  "search_reach F root \<equiv> reach (\<lambda>s. s = search_start root) (search_step F)"

lemma found_not_failed:
  assumes "search_inv F root s" and "all_found F root" and "i < length (tasks s)"
  shows "doc_of F (tk_txid (tasks s ! i)) \<noteq> None" and "state_of s i \<noteq> Failed"
proof -
  have t: "task_ok F root s i" by (rule search_invD(3) [OF assms(1,3)])
  then show d: "doc_of F (tk_txid (tasks s ! i)) \<noteq> None" using assms(2) by (simp add: task_ok_def all_found_def)
  then show "state_of s i \<noteq> Failed" using t by (auto simp: task_ok_def doc_of_def)
qed

lemma found_not_hanging:
  assumes "honest F" and "all_found F root" and "search_reach F root s"
  shows "i < length (tasks s) \<Longrightarrow> state_of s i \<noteq> Hangs"
  using assms(3)
proof (induction arbitrary: i rule: reach.induct)
  case (reach_init s)
  then show ?case by (simp add: search_start_def state_of_def)
next
  case (reach_step s s')
  have I: "search_inv F root s" using slpdb.reach_inv [OF reach_step.hyps(1)] assms(1) by simp
  from reach_step.hyps(2) show ?case
  proof cases
    case (step_reply j)
    from found_not_failed(1) [OF I assms(2) step_reply(2)] obtain h raw ins where
      "doc_of F (tk_txid (tasks s ! j)) = Some (h, raw, ins)" by auto
    then have s': "s' = visit j h raw ins s" by (simp add: step_reply(1) on_reply_cases)
    show ?thesis
    proof (cases "i < length (tasks s)")
      case True
      then show ?thesis using visit_old(2) [OF step_reply(2) True, of h raw ins] reach_step.IH [OF True] by (auto simp: s')
    next
      case False
      then show ?thesis using visit_new [of "i - length (tasks s)" h ins s j raw] reach_step.prems by (simp add: s')
    qed
  next
    case (step_all_done j ids)
    then show ?thesis using reach_step.IH [of i] reach_step.prems by auto
  next
    case (step_all_failed j ids)
    then obtain k where "k \<in> set ids" "state_of s k = Failed" by (auto simp: list_ex_iff)
    moreover from this have "k < length (tasks s)"
      using search_invD(3) [OF I step_all_failed(2)] step_all_failed(3) by (auto simp: task_ok_def)
    ultimately show ?thesis using found_not_failed(2) [OF I assms(2)] by blast
  qed
qed

text \<open>C14: a search that is answered ends: when the server has every ancestor of the root and the parents of a
  transaction come before it, no run goes on for ever, and in every reachable state some step is
  possible until the promise of the first call is resolved.\<close>

theorem search_ends:
  assumes "honest F" and "all_found F root" and "ranked_by rank F" and "search_reach F root s"
  shows "wf {(s', s). search_step F s s'} \<and> ((\<exists>s'. search_step F s s') \<or> state_of s 0 = Done)"
proof -
  have I: "search_inv F root s" using slpdb.reach_inv [OF assms(4)] assms(1) by simp
  have "state_of s i = Done" if stuck: "\<nexists>s'. search_step F s s'" and i: "i < length (tasks s)" for i
    using i
  proof (induction "length (tasks s) - i" arbitrary: i rule: less_induct)
    case less
    have "state_of s i \<noteq> Querying" using stuck step_reply [OF less.prems] by blast
    moreover have "state_of s i \<noteq> Failed" "state_of s i \<noteq> Hangs"
      using found_not_failed(2) [OF I assms(2)] found_not_hanging [OF assms(1,2,4)] less.prems by blast+
    moreover have False if a: "state_of s i = Awaiting ids" for ids
    proof -
      have "\<forall>j \<in> set ids. i < j \<and> j < length (tasks s)"
        using search_invD(3) [OF I less.prems] a by (simp add: task_ok_def)
      then have "list_all (\<lambda>j. state_of s j = Done) ids" using less.hyps less.prems by (simp add: list_all_iff diff_less_mono2)
      then show False using step_all_done [OF less.prems a] stuck by blast
    qed
    ultimately show ?case by (cases "state_of s i") auto
  qed
  then show ?thesis using search_wf [OF assms(3)] search_invD(1) [OF I] by blast
qed

section \<open>Examples\<close>

text \<open>A transaction \<open>b\<close> that spends \<open>a\<close>; the other server has lost \<open>a\<close>.\<close>

definition example_reply :: "string \<Rightarrow> string list \<Rightarrow> fetched" where
  "example_reply t ins = Fetched \<lparr>reply_error = False, reply_g = Some [\<lparr>doc_tx = [(t, ''00'')], doc_inputs = ins\<rparr>]\<rparr>"

definition example_slpdb :: "string \<Rightarrow> fetched" where
  "example_slpdb t = (if t = ''b'' then example_reply t [''a''] else example_reply t [])"

definition example_lossy :: "string \<Rightarrow> fetched" where
  "example_lossy t = (if t = ''b'' then example_reply t [''a''] else Fetched \<lparr>reply_error = False, reply_g = Some []\<rparr>)"

lemma example_docs:
  "doc_of example_slpdb t = Some (t, ''00'', if t = ''b'' then [''a''] else [])"
  "doc_of example_lossy t = (if t = ''b'' then Some (t, ''00'', [''a'']) else None)"
  by (simp_all add: doc_of_def slpdb_query_def reply_doc_def example_slpdb_def example_lossy_def example_reply_def)

lemma example_servers:
  "honest example_slpdb" "honest example_lossy" "all_found example_slpdb ''b''"
  "ranked_by (\<lambda>t. if t = ''b'' then 1 else 0) example_slpdb"
  by (auto simp: honest_def all_found_def ranked_by_def spends_def example_docs split: if_splits)

definition example_states :: "search list" where
  "example_states = (let
       s1 = on_reply example_slpdb 0 (search_start ''b''); s2 = on_reply example_slpdb 1 s1; s3 = set_state 1 Done s2
     in [s1, s2, s3, set_state 0 Done s3])"

lemma example_search_run: "search_reach example_slpdb ''b'' (example_states ! 3)" "state_of (example_states ! 3) 0 = Done"
    "rawmap (example_states ! 3) ''a'' = Some ''00''"
proof -
  let ?s0 = "search_start ''b''" and ?s1 = "example_states ! 0" and ?s2 = "example_states ! 1" and ?s3 = "example_states ! 2"
  note d = example_states_def on_reply_cases visit_def set_state_def search_start_def state_of_def example_docs Let_def
  have "search_step example_slpdb ?s0 (on_reply example_slpdb 0 ?s0)" by (rule step_reply) (simp_all add: d)
  moreover have "search_step example_slpdb ?s1 (on_reply example_slpdb 1 ?s1)" by (rule step_reply) (simp_all add: d)
  moreover have "search_step example_slpdb ?s2 (set_state 1 Done ?s2)" by (rule step_all_done [of _ _ "[]"]) (simp_all add: d)
  moreover have "search_step example_slpdb ?s3 (set_state 0 Done ?s3)" by (rule step_all_done [of _ _ "[1]"]) (simp_all add: d)
  moreover have "search_reach example_slpdb ''b'' ?s0" by (rule reach_init) simp
  ultimately show "search_reach example_slpdb ''b'' (example_states ! 3)"
    by (simp add: example_states_def Let_def) (blast intro: reach_step)
  show "state_of (example_states ! 3) 0 = Done" "rawmap (example_states ! 3) ''a'' = Some ''00''" by (simp_all add: d)
qed

lemma example_ancestor: "ancestor example_slpdb ''b'' ''a''" "ancestor example_lossy ''b'' ''a''"
  by (rule r_into_rtranclp, simp add: spends_def example_docs)+

theorem search_complete_witness: "\<exists>raw ins. rawmap (example_states ! 3) ''a'' = Some raw \<and> doc_of example_slpdb ''a'' = Some (''a'', raw, ins)"
  using search_complete [OF example_servers(1) example_search_run(1,2), of "''a''"] example_ancestor(1) by blast

theorem missing_ancestor_hangs_witness:
  "state_of (on_reply example_lossy 0 (search_start ''b'')) 0 \<noteq> Done \<and> state_of (on_reply example_lossy 0 (search_start ''b'')) 0 \<noteq> Failed"
proof -
  have "search_step example_lossy (search_start ''b'') (on_reply example_lossy 0 (search_start ''b''))"
    by (rule step_reply) (simp_all add: search_start_def state_of_def)
  then have "search_reach example_lossy ''b'' (on_reply example_lossy 0 (search_start ''b''))"
    by (blast intro: reach_step reach_init)
  from missing_ancestor_hangs [OF example_servers(2) this _ example_ancestor(2)] show ?thesis by (simp add: example_docs)
qed

theorem search_ends_witness: "wf {(s', s). search_step example_slpdb s s'}"
  using search_ends [OF example_servers(1,3,4) example_search_run(1)] by blast

end
