(* ===== verification/ChainCache.thy ===== *)
theory ChainCache
  imports SyncServer Block
begin

text \<open>
  The block cache of \<open>server/gs++.cpp\<close>: what \<open>cache_slp_block\<close> writes, and what one block from the node
  leaves in the cache: the transactions it made valid, sorted. The heights, the paths and the two
  loops of \<open>main\<close> are in Startup; \<open>sync_rpc_block\<close> is the part of a fetch that does not see them, and
  serves its proofs. A server that reads such files again knows and serves the same, apart from
  what the files it never reads hold; this is carried here over one block.
\<close>

section \<open>One block\<close>

record cache_env =
  ce_sha256 :: "bytes \<Rightarrow> bytes"
  ce_unset :: "u32 \<times> u32 \<times> u16"
  ce_block :: block
  ce_order :: "tokenid set \<Rightarrow> tokenid list"

definition cache_slp_block :: "block \<Rightarrow> bytes" where
  "cache_slp_block b = block_serialize b"

definition sync_rpc_block :: "cache_env \<Rightarrow> bytes \<Rightarrow> sync_state \<Rightarrow> (bytes \<times> sync_state) option" where
  "sync_rpc_block E block_data s = (case block_hydrate (ce_sha256 E) (ce_unset E) False (ce_block E) block_data of
       Ok block \<Rightarrow> Option.bind (block_sort block) (\<lambda>block.
         (case process_block (ce_order E) False (blk_txs block) s of
            VOk (valid_txs, s) \<Rightarrow> Option.bind (block_sort (block\<lparr>blk_txs := valid_txs\<rparr>)) (\<lambda>cblk. Some (cache_slp_block cblk, s))
          | _ \<Rightarrow> None))
     | _ \<Rightarrow> None)"


section \<open>The cache carries the validity\<close>

definition cache_env_ok :: "(bytes \<Rightarrow> bytes) \<Rightarrow> u32 \<times> u32 \<times> u16 \<Rightarrow> cache_env \<Rightarrow> bool" where
  "cache_env_ok sha256 unset E \<longleftrightarrow> ce_sha256 E = sha256 \<and> ce_unset E = unset \<and> blk_txs (ce_block E) = [] \<and> enumerates (ce_order E)"

text \<open>The graph \<open>h\<close> is \<open>g\<close> with the transactions of \<open>F\<close> cut out.\<close>

definition cut_graph :: "txid set \<Rightarrow> txgraph \<Rightarrow> txgraph \<Rightarrow> bool" where
  "cut_graph F g h \<longleftrightarrow> tg_txid_to_token h = tg_txid_to_token g |` (- F)
     \<and> (\<forall>p. snd p \<notin> F \<longrightarrow> node_txdata h p = node_txdata g p
          \<and> node_inputs h p = filter (\<lambda>q. snd q \<notin> F) (node_inputs g p))"

text \<open>A restarted server \<open>u\<close> knows and serves what the original \<open>s\<close> holds valid, without \<open>F\<close>.\<close>

definition restarted :: "txid set \<Rightarrow> sync_state \<Rightarrow> sync_state \<Rightarrow> bool" where
  "restarted F s u \<longleftrightarrow> F \<subseteq> valid_txids (sy_validator s) \<and> valid_txids (sy_validator u) = valid_txids (sy_validator s) - F
     \<and> transaction_map (sy_validator u) = transaction_map (sy_validator s) |` (valid_txids (sy_validator s) - F)
     \<and> cut_graph F (sy_g s) (sy_g u) \<and> txgraph_inv (sy_g u)"

section \<open>What a batch does to the graph\<close>

lemma of_token_batch:
  assumes "distinct (map txid A)" and "inj_on serialized (set A)"
  shows "batch_ok (of_token A k)" "remdups (rev (of_token A k)) = rev (of_token A k)"
proof -
  have "inj_on txid (set A)" using assms(1) by (simp add: distinct_map)
  with assms(2) show "batch_ok (of_token A k)" by (auto simp: batch_ok_def of_token_def inj_on_def)
  have "distinct A" using assms(1) by (simp add: distinct_map)
  then show "remdups (rev (of_token A k)) = rev (of_token A k)" by (simp add: distinct_remdups_id of_token_def)
qed

text \<open>Every new transaction has its data and the links to the transactions of its token; no other node changes.\<close>

definition links :: "txgraph \<Rightarrow> tokenid \<Rightarrow> transaction \<Rightarrow> node_ptr list" where
  "links g k tx = map (Pair k) (filter (\<lambda>i. tg_txid_to_token g i = Some k) (map op_txid (inputs tx)))"

definition inserted :: "transaction set \<Rightarrow> txgraph \<Rightarrow> txgraph \<Rightarrow> bool" where
  "inserted S g g' \<longleftrightarrow> (\<forall>p. snd p \<notin> txid ` S \<longrightarrow> node_txdata g' p = node_txdata g p \<and> node_inputs g' p = node_inputs g p)
     \<and> (\<forall>tx \<in> S. node_txdata g' (slp_tokenid (slp tx), txid tx) = serialized tx
          \<and> node_inputs g' (slp_tokenid (slp tx), txid tx) = links g' (slp_tokenid (slp tx)) tx)"

lemma no_node: "txgraph_inv g \<Longrightarrow> tg_txid_to_token g t \<noteq> Some k \<Longrightarrow> node_txdata g (k, t) = [] \<and> node_inputs g (k, t) = []"
  by (auto simp: txgraph_inv_def node_txdata_def node_inputs_def split: option.splits)

lemma insert_token_inserted:
  assumes "inserted S g h" and "txgraph_inv h" and "distinct (map txid A)" and "inj_on serialized (set A)"
    and new: "\<forall>tx \<in> set (of_token A k). tg_txid_to_token h (txid tx) = None"
    and old: "\<forall>tx \<in> S. slp_tokenid (slp tx) \<noteq> k \<and> tg_txid_to_token h (txid tx) \<noteq> None"
  shows "inserted (S \<union> set (of_token A k)) g (snd (insert_token_data k (of_token A k) h))"
proof -
  let ?h = "snd (insert_token_data k (of_token A k) h)" and ?B = "set (of_token A k)"
  have n: "set (new_txs h (of_token A k)) = ?B" using new by (auto simp: new_txs_def)
  note i = insert_token_data_nodes [OF assms(2) of_token_batch(1) [OF assms(3,4), of k] refl, of k, unfolded n]
  have k: "slp_tokenid (slp tx) = k" if "tx \<in> ?B" for tx using that by (simp add: of_token_def)
  have ne: "txid tx \<notin> txid ` ?B" if "tx \<in> S" for tx using that new old by force
  have l: "links ?h k' tx = links h k' tx" if "k' \<noteq> k" for k' tx
    using that i new unfolding links_def by (intro arg_cong [of _ _ "map (Pair k')"] filter_cong) auto
  show ?thesis
    unfolding inserted_def
  proof (intro conjI ballI allI impI)
    fix p :: node_ptr
    assume "snd p \<notin> txid ` (S \<union> ?B)"
    then have "snd p \<notin> txid ` S" "snd p \<notin> txid ` ?B" by auto
    then show "node_txdata ?h p = node_txdata g p" "node_inputs ?h p = node_inputs g p" using assms(1) i unfolding inserted_def by (cases p, simp)+
  next
    fix tx
    assume "tx \<in> S \<union> ?B"
    then consider "tx \<in> S" | "tx \<in> ?B" by blast
    then have "node_txdata ?h (slp_tokenid (slp tx), txid tx) = serialized tx
      \<and> node_inputs ?h (slp_tokenid (slp tx), txid tx) = links ?h (slp_tokenid (slp tx)) tx"
    proof cases
      case 1
      then show ?thesis using assms(1) i ne [OF 1] l old unfolding inserted_def by simp
    next
      case 2
      then show ?thesis using i k [OF 2] unfolding links_def by simp
    qed
    then show "node_txdata ?h (slp_tokenid (slp tx), txid tx) = serialized tx"
      "node_inputs ?h (slp_tokenid (slp tx), txid tx) = links ?h (slp_tokenid (slp tx)) tx" by blast+
  qed
qed

lemma fold_inserted:
  assumes "distinct (map txid A)" and "inj_on serialized (set A)" and "txgraph_inv g"
    and new: "\<forall>tx \<in> set A. tg_txid_to_token g (txid tx) = None" and "set ks \<subseteq> dom (grouped A)"
  shows "inserted {tx \<in> set A. slp_tokenid (slp tx) \<in> set ks} g (fold (\<lambda>k g. snd (insert_token_data k (the (grouped A k)) g)) ks g)
    \<and> txgraph_inv (fold (\<lambda>k g. snd (insert_token_data k (the (grouped A k)) g)) ks g)"
  using assms(5)
proof (induction ks rule: rev_induct)
  case Nil
  then show ?case using assms(3) by (simp add: inserted_def)
next
  case (snoc k ks)
  let ?G = "\<lambda>ks. fold (\<lambda>k g. snd (insert_token_data k (the (grouped A k)) g)) ks g"
    and ?S = "{tx \<in> set A. slp_tokenid (slp tx) \<in> set ks}"
  have IH: "inserted ?S g (?G ks)" "txgraph_inv (?G ks)" using snoc by auto
  have G: "?G (ks @ [k]) = snd (insert_token_data k (of_token A k) (?G ks))" using snoc.prems by (auto simp: grouped_def split: if_splits)
  have index: "tg_txid_to_token (?G ks) (txid tx) = (if slp_tokenid (slp tx) \<in> set ks then Some (slp_tokenid (slp tx)) else None)"
    if "tx \<in> set A" for tx
    using fold_insert_index [OF assms(1), of ks g "txid tx"] snoc.prems new that by (simp add: token_of_in [OF assms(1)])
  show ?case
  proof (cases "k \<in> set ks")
    case True
    have "new_txs (?G ks) (of_token A k) = []" using index True by (auto simp: new_txs_def filter_empty_conv of_token_def)
    note i = insert_token_data_nodes [OF IH(2) of_token_batch(1) [OF assms(1,2), of k] refl, of k, unfolded this]
    have "inserted ?S g (?G (ks @ [k]))" using IH(1) i unfolding G inserted_def links_def by simp
    then show ?thesis using True IH(2) by (simp add: G insert_token_data_inv insert_absorb flip: G)
  next
    case False
    have "inserted (?S \<union> set (of_token A k)) g (?G (ks @ [k]))"
      unfolding G using index False
      by (intro insert_token_inserted [OF IH assms(1,2)]) (auto simp: of_token_def)
    moreover have "?S \<union> set (of_token A k) = {tx \<in> set A. slp_tokenid (slp tx) \<in> set (ks @ [k])}" by (auto simp: of_token_def)
    ultimately show ?thesis using insert_token_data_inv [OF IH(2)] unfolding G by simp
  qed
qed

lemma insert_valid_inserted:
  assumes "lists_tokens ord A" and "distinct (map txid A)" and "inj_on serialized (set A)" and "txgraph_inv g"
    and "\<forall>tx \<in> set A. tg_txid_to_token g (txid tx) = None"
  shows "inserted (set A) g (insert_valid ord (grouped A) g)"
proof -
  have "set (ord (dom (grouped A))) = dom (grouped A)" using assms(1) by (simp add: lists_tokens_def)
  moreover from this have "{tx \<in> set A. slp_tokenid (slp tx) \<in> set (ord (dom (grouped A)))} = set A" by (auto simp: dom_grouped)
  ultimately show ?thesis using fold_inserted [OF assms(2-5), of "ord (dom (grouped A))"] by (simp add: insert_valid_def)
qed

lemma token_of_same:
  assumes "distinct (map txid A)" and "distinct (map txid B)" and "set A = set B"
  shows "token_of A = token_of B"
proof
  fix t
  have "token_of A t = Some k \<longleftrightarrow> token_of B t = Some k" for k
    using assms by (simp add: token_of_Some of_token_def)
  then show "token_of A t = token_of B t" by (metis not_None_eq)
qed

text \<open>A block inserted on both sides, in any order, keeps the graphs alike.\<close>

lemma cut_graph_step:
  assumes "cut_graph F g h" and "txgraph_inv g" and "txgraph_inv h" and "lists_tokens ord A" and "lists_tokens ord' B"
    and "distinct (map txid A)" and "distinct (map txid B)" and "set A = set B" and "inj_on serialized (set A)"
    and "\<forall>tx \<in> set A. tg_txid_to_token g (txid tx) = None \<and> txid tx \<notin> F"
  shows "cut_graph F (insert_valid ord (grouped A) g) (insert_valid ord' (grouped B) h)"
proof -
  let ?g = "insert_valid ord (grouped A) g" and ?h = "insert_valid ord' (grouped B) h"
  have c: "tg_txid_to_token h = tg_txid_to_token g |` (- F)"
    "snd p \<notin> F \<Longrightarrow> node_txdata h p = node_txdata g p \<and> node_inputs h p = filter (\<lambda>q. snd q \<notin> F) (node_inputs g p)" for p
    using assms(1) unfolding cut_graph_def by blast+
  have new: "\<forall>tx \<in> set B. tg_txid_to_token h (txid tx) = None" using assms(8,10) c(1) by (simp add: restrict_map_def)
  have ig: "inserted (set A) g ?g" using insert_valid_inserted [OF assms(4,6,9,2)] assms(10) by blast
  have ih: "inserted (set A) h ?h" using insert_valid_inserted [OF assms(5,7) _ assms(3) new] assms(8,9) by simp
  have "token_of A t = None" if "t \<in> F" for t using that assms(10) by (auto simp: token_of_None)
  then have index: "tg_txid_to_token ?h = tg_txid_to_token ?g |` (- F)"
    by (intro ext) (auto simp: index_insert_valid [OF assms(4,6)] index_insert_valid [OF assms(5,7)] c(1) restrict_map_def
      token_of_same [OF assms(6-8)] split: option.split)
  have inv: "txgraph_inv ?g" "txgraph_inv ?h" using assms(2,3) by (simp_all add: insert_valid_inv)
  have "node_txdata ?h (k, t) = node_txdata ?g (k, t) \<and> node_inputs ?h (k, t) = filter (\<lambda>q. snd q \<notin> F) (node_inputs ?g (k, t))"
    if "t \<notin> F" for k t
  proof (cases "t \<in> txid ` set A")
    case False
    then show ?thesis using ig ih c(2) [of "(k, t)"] that by (simp add: inserted_def)
  next
    case True
    then obtain tx where tx: "tx \<in> set A" "t = txid tx" by blast
    show ?thesis
    proof (cases "slp_tokenid (slp tx) = k")
      case True
      have "(\<lambda>i. tg_txid_to_token ?h i = Some k) = (\<lambda>i. i \<notin> F \<and> tg_txid_to_token ?g i = Some k)" by (auto simp: index restrict_map_def)
      then have "links ?h k tx = filter (\<lambda>q. snd q \<notin> F) (links ?g k tx)" by (simp add: links_def filter_map o_def conj_commute)
      then show ?thesis using ig ih tx True [symmetric] unfolding inserted_def by simp
    next
      case False
      have "tg_txid_to_token ?g t = Some (slp_tokenid (slp tx))"
        using assms(10) tx by (simp add: index_insert_valid [OF assms(4,6)] token_of_in [OF assms(6)])
      then show ?thesis using no_node [OF inv(1), of t k] no_node [OF inv(2), of t k] False by (auto simp: index restrict_map_def)
    qed
  qed
  then show ?thesis using index by (simp add: cut_graph_def)
qed

lemma topo_loop_subset:
  assumes "keyed m"
  shows "topo_loop m txs s = Some t \<Longrightarrow> set (fst t) \<subseteq> set (fst s) \<union> set txs \<union> ran m"
proof (induction txs arbitrary: s)
  case (Cons tx txs)
  show ?case
  proof (cases "txid tx \<in> snd s")
    case True
    with Cons show ?thesis by fastforce
  next
    case False
    obtain new u where u: "topo_inputs m (inputs tx) (fst s, insert (txid tx) (snd s)) = Some u"
      "topo_result m (inputs tx) (fst s, insert (txid tx) (snd s)) new u"
      using topo_inputs_result [OF assms, of "(fst s, insert (txid tx) (snd s))" _ "inputs tx"] by blast
    then have "set (fst u) \<subseteq> set (fst s) \<union> ran m" by (auto simp: topo_result_def extends_def ran_def)
    moreover have "topo_loop m txs (fst u @ [tx], snd u) = Some t"
      using Cons.prems False u(1) by (simp add: topological_sort_internal_def)
    ultimately show ?thesis using Cons.IH [of "(fst u @ [tx], snd u)"] by fastforce
  qed
qed simp

lemma topological_sort_subset: "topological_sort txs = Some ys \<Longrightarrow> set ys \<subseteq> set txs"
  using topo_loop_subset [OF keyed_tx_map, of txs txs "([], {})"] tx_map_Some
  by (fastforce simp: topological_sort_def ran_def)

lemma parsed_tx_wf: "parsed_tx sha256 unset tx \<Longrightarrow> slp_wf tx"
  by (auto simp: parsed_tx_def slp_wf_def slp_msg_ok_def split: prod.splits slp_tx_variant.split dest!: tx_hydrate_Ok)

lemma parsed_serialized:
  assumes "\<forall>tx \<in> set l. parsed_tx sha256 unset tx" and "distinct (map txid l)"
  shows "inj_on serialized (set l)"
proof (rule inj_onI)
  fix x y
  assume *: "x \<in> set l" "y \<in> set l" "serialized x = serialized y"
  have "txid z = sha256 (sha256 (serialized z))" if "z \<in> set l" for z
  proof -
    obtain v lt tt where "unset = (v, lt, tt)" by (cases unset)
    moreover have "parsed_tx sha256 unset z" using assms(1) that by blast
    ultimately have "\<exists>it. tx_hydrate sha256 tt (transaction_new v lt tt) it = Ok z" by (simp add: parsed_tx_def)
    then show ?thesis using tx_hydrate_Ok by blast
  qed
  with * have "txid x = txid y" by simp
  with * assms(2) show "x = y" by (auto simp: distinct_map inj_on_def)
qed

text \<open>A trusted loop over new transactions accepts them all.\<close>

lemma accept_txs_trusted:
  assumes "\<forall>tx \<in> set B. \<not> validator_has V (txid tx) \<and> slp_type (slp tx) \<noteq> TInvalid" and "distinct (map txid B)"
  shows "\<exists>W. accept_txs True B V (grouped k) k = VOk (W, grouped (k @ B), k @ B)
    \<and> dom (transaction_map W) = dom (transaction_map V) \<union> txid ` set B"
  using assms
proof (induction B arbitrary: V k)
  case (Cons tx B)
  let ?W = "snd (add_valid_txid (txid tx) (with_tx tx V))"
  have n: "\<not> validator_has V (txid tx)" "slp_type (slp tx) \<noteq> TInvalid" using Cons.prems by simp_all
  then have a: "add_tx 2 tx True V = VOk (True, ?W)" by (simp add: add_tx_unfold validator_has_def)
  have m: "transaction_map ?W = (transaction_map V)(txid tx \<mapsto> tx)"
    using n by (simp add: with_tx_def add_valid_txid_def validator_has_def)
  have "\<forall>x \<in> set B. \<not> validator_has ?W (txid x) \<and> slp_type (slp x) \<noteq> TInvalid" "distinct (map txid B)"
    using Cons.prems by (auto simp: validator_has_def m) (metis imageI)
  from Cons.IH [OF this, of "k @ [tx]"] n a show ?case by (auto simp: push_valid_grouped m)
qed auto

text \<open>The file written for a block reads back as the transactions the block made valid.\<close>

lemma sync_rpc_block_file:
  assumes "sync_rpc_block E d s = Some (f, s1)" and "cache_env_ok sha256 unset E" and "cache_env_ok sha256 unset E'"
  shows "\<exists>l b txs. process_block (ce_order E) False txs s = VOk (l, s1) \<and> list_all slp_wf txs
    \<and> set (blk_txs b) = set l \<and> distinct (map txid (blk_txs b)) \<and> distinct (map txid l) \<and> inj_on serialized (set l)
    \<and> accepted (sy_validator s) l (sy_validator s1)
    \<and> sy_g s1 = insert_valid (ce_order E) (grouped l) (sy_g s)
    \<and> block_hydrate (ce_sha256 E') (ce_unset E') False (ce_block E') f = Ok b"
proof -
  from assms(1) obtain b b' where
    b: "block_hydrate (ce_sha256 E) (ce_unset E) False (ce_block E) d = Ok b" "block_sort b = Some b'"
    and pc: "(case process_block (ce_order E) False (blk_txs b') s of
            VOk (valid_txs, s) \<Rightarrow> Option.bind (block_sort (b'\<lparr>blk_txs := valid_txs\<rparr>)) (\<lambda>cblk. Some (cache_slp_block cblk, s))
          | _ \<Rightarrow> None) = Some (f, s1)"
    unfolding sync_rpc_block_def by (auto simp: bind_eq_Some_conv split: res.splits)
  from pc obtain l c where p: "process_block (ce_order E) False (blk_txs b') s = VOk (l, s1)"
    and c: "block_sort (b'\<lparr>blk_txs := l\<rparr>) = Some c" and f: "f = block_serialize c"
    by (cases "process_block (ce_order E) False (blk_txs b') s") (auto simp: cache_slp_block_def bind_eq_Some_conv)
  have E: "ce_sha256 E = sha256" "ce_unset E = unset" "blk_txs (ce_block E) = []" "enumerates (ce_order E)"
    using assms(2) by (simp_all add: cache_env_ok_def)
  have ok: "block_ok sha256 unset b" using block_hydrate_Ok [OF b(1) E(3)] E(1,2) by simp
  have b': "set (blk_txs b') \<subseteq> set (blk_txs b)" "b' = b\<lparr>blk_txs := blk_txs b'\<rparr>"
    using b(2) topological_sort_subset [of "blk_txs b"] by (auto simp: block_sort_def)
  then have parsed: "\<forall>tx \<in> set (blk_txs b'). parsed_tx sha256 unset tx" using ok by (auto simp: block_ok_def)
  then have wf: "list_all slp_wf (blk_txs b')" by (auto simp: list_all_iff intro: parsed_tx_wf)
  note e = process_block_effect [OF p]
  then have dl: "distinct (map txid l)" and l: "set l \<subseteq> set (blk_txs b')" by (auto simp: accepted_def)
  have ser: "inj_on serialized (set l)" using l parsed dl by (intro parsed_serialized) auto
  obtain ys where ys: "topological_sort l = Some ys" "distinct (map txid ys)" "set ys = set l"
    using topological_sort_result [OF dl] by blast
  with c have "c = b'\<lparr>blk_txs := ys\<rparr>" by (simp add: block_sort_def)
  with ys have cs: "set (blk_txs c) = set l" "distinct (map txid (blk_txs c))" "c = b'\<lparr>blk_txs := blk_txs c\<rparr>" by simp_all
  have set_c: "set (blk_txs c) \<subseteq> set (blk_txs b)" using l b'(1) cs(1) by blast
  have "distinct (blk_txs c)" using cs(2) distinct_map by blast
  from distinct_card [OF this] have len: "length (blk_txs c) \<le> length (blk_txs b)"
    using card_mono [OF List.finite_set set_c] card_length [of "blk_txs b"] by simp
  have fields: "prev_block c = prev_block b" "merkle_root c = merkle_root b" "block_hash c = block_hash b"
    "block_header c = block_header b"
    by (subst cs(3), subst b'(2), simp add: block_header_def)+
  have "block_ok sha256 unset c" using ok set_c len by (auto simp: block_ok_def fields)
  then have "block_hydrate (ce_sha256 E') (ce_unset E') False (ce_block E') f = Ok c"
    using block_hydrate_ser [of sha256 unset c "ce_block E'" False "[]"] assms(3) by (simp add: f cache_env_ok_def kept_def)
  then show ?thesis using p wf e dl cs ser by blast
qed

lemma sync_rpc_block_cached:
  assumes "sync_rpc_block E d s = Some (f, s1)" and "cache_env_ok sha256 unset E" and "sync_reach (s, T)"
    and "cache_env_ok sha256 unset E'"
  shows "sync_reach (s1, T) \<and> (\<exists>l b. set (blk_txs b) = set l \<and> distinct (map txid (blk_txs b)) \<and> distinct (map txid l)
    \<and> inj_on serialized (set l) \<and> accepted (sy_validator s) l (sy_validator s1)
    \<and> sy_g s1 = insert_valid (ce_order E) (grouped l) (sy_g s)
    \<and> block_hydrate (ce_sha256 E') (ce_unset E') False (ce_block E') f = Ok b)"
proof -
  from sync_rpc_block_file [OF assms(1,2,4)] obtain l b txs where
    p: "process_block (ce_order E) False txs s = VOk (l, s1)" and wf: "list_all slp_wf txs" and
    r: "set (blk_txs b) = set l" "distinct (map txid (blk_txs b))" "distinct (map txid l)" "inj_on serialized (set l)"
      "accepted (sy_validator s) l (sy_validator s1)" "sy_g s1 = insert_valid (ce_order E) (grouped l) (sy_g s)"
      "block_hydrate (ce_sha256 E') (ce_unset E') False (ce_block E') f = Ok b" by blast
  have "sync_step (s, T) (s1, trust False txs T)" using assms(2) by (intro sync_block [OF _ wf p]) (simp add: cache_env_ok_def)
  then have "sync_reach (s1, T)" using reach_step [OF assms(3)] by (simp add: trust_def)
  with r show ?thesis by blast
qed

text \<open>The first block of an empty server, whose file is not read again.\<close>

lemma restarted_first:
  assumes "sync_rpc_block E d sync_new = Some (f, s1)" and "cache_env_ok sha256 unset E"
  shows "sync_reach (s1, {}) \<and> (\<exists>b. block_hydrate (ce_sha256 E) (ce_unset E) False (ce_block E) f = Ok b
    \<and> restarted (txid ` set (blk_txs b)) s1 sync_new)"
proof -
  from sync_rpc_block_cached [OF assms reach_init assms(2)] obtain l b where reach: "sync_reach (s1, {})" and
    b: "set (blk_txs b) = set l" "distinct (map txid l)" "inj_on serialized (set l)"
    and a: "accepted validator_new l (sy_validator s1)" and g: "sy_g s1 = insert_valid (ce_order E) (grouped l) txgraph_new"
    and h: "block_hydrate (ce_sha256 E) (ce_unset E) False (ce_block E) f = Ok b" by (auto simp: sync_new_def)
  have lists: "lists_tokens (ce_order E) l" using assms(2) by (auto simp: cache_env_ok_def intro: enumerates_lists)
  have new: "tg_txid_to_token txgraph_new t = None" for t by (simp add: txgraph_new_def)
  have "inserted (set l) txgraph_new (sy_g s1)"
    unfolding g by (rule insert_valid_inserted [OF lists b(2,3)]) (simp_all add: txgraph_inv_new new)
  then have "cut_graph (txid ` set l) (sy_g s1) txgraph_new"
    using no_node [of txgraph_new] new txgraph_inv_new
    by (auto simp: cut_graph_def inserted_def g index_insert_valid [OF lists b(2)] token_of_None [THEN iffD2] restrict_map_def fun_eq_iff)
  moreover have "valid_txids (sy_validator s1) = txid ` set l" using a by (simp add: accepted_def validator_new_def)
  ultimately have "restarted (txid ` set l) s1 sync_new"
    by (simp add: restarted_def sync_new_def validator_new_def txgraph_inv_new)
  with reach h b(1) show ?thesis by auto
qed

lemma restarted_step:
  assumes "restarted F s u" and "sync_rpc_block E d s = Some (f, s1)" and "cache_env_ok sha256 unset E" and "sync_reach (s, T)"
    and "cache_env_ok sha256 unset E'"
  shows "\<exists>b l u1. block_hydrate (ce_sha256 E') (ce_unset E') False (ce_block E') f = Ok b
    \<and> process_block (ce_order E') True (blk_txs b) u = VOk (l, u1) \<and> restarted F s1 u1"
proof -
  from sync_rpc_block_cached [OF assms(2-5)] obtain l b where reach1: "sync_reach (s1, T)" and
    b: "set (blk_txs b) = set l" "distinct (map txid (blk_txs b))" "distinct (map txid l)" "inj_on serialized (set l)"
    and a: "accepted (sy_validator s) l (sy_validator s1)" and g: "sy_g s1 = insert_valid (ce_order E) (grouped l) (sy_g s)"
    and h: "block_hydrate (ce_sha256 E') (ce_unset E') False (ce_block E') f = Ok b" by blast
  let ?v = "valid_txids (sy_validator s)"
  have u: "F \<subseteq> ?v" "valid_txids (sy_validator u) = ?v - F" "transaction_map (sy_validator u) = transaction_map (sy_validator s) |` (?v - F)"
    "cut_graph F (sy_g s) (sy_g u)" "txgraph_inv (sy_g u)"
    using assms(1) by (simp_all add: restarted_def)
  have inv: "?v \<subseteq> dom (transaction_map (sy_validator s))" "indexed_ok (sy_validator s) (sy_g s)"
    by (rule sync_reach_known [OF assms(4)], rule sync_reach_inv(4) [OF assms(4)])
  have tx: "transaction_map (sy_validator s) (txid tx) = None" "transaction_map (sy_validator s1) (txid tx) = Some tx" "txid tx \<notin> ?v"
    "txid tx \<notin> F" "tg_txid_to_token (sy_g s) (txid tx) = None" "slp_type (slp tx) \<noteq> TInvalid" if "tx \<in> set (blk_txs b)" for tx
  proof -
    show t: "transaction_map (sy_validator s) (txid tx) = None" "transaction_map (sy_validator s1) (txid tx) = Some tx"
      using a that b(1) by (auto simp: accepted_def)
    have "validator_inv (sy_validator s1)" using sync_reach_inv(3) [OF reach1] by (simp add: validator_sound.simps)
    with t(2) show "slp_type (slp tx) \<noteq> TInvalid" unfolding validator_inv_def by blast
    show "txid tx \<notin> ?v" using t(1) inv(1) by (auto simp: domIff)
    then show "txid tx \<notin> F" using u(1) by blast
    show "tg_txid_to_token (sy_g s) (txid tx) = None"
      using inv(2) t(1) unfolding indexed_ok_def by (metis not_None_eq)
  qed
  have "\<forall>tx \<in> set (blk_txs b). \<not> validator_has (sy_validator u) (txid tx) \<and> slp_type (slp tx) \<noteq> TInvalid"
    using tx by (simp add: validator_has_def u(3) restrict_map_def)
  then obtain W where W: "accept_txs True (blk_txs b) (sy_validator u) (grouped []) [] = VOk (W, grouped (blk_txs b), blk_txs b)"
    "dom (transaction_map W) = dom (transaction_map (sy_validator u)) \<union> txid ` set (blk_txs b)"
    using accept_txs_trusted [of "blk_txs b" "sy_validator u" "[]"] b(2) by auto
  have accW: "accepted (sy_validator u) (blk_txs b) W" using accept_txs_spec [OF W(1)] by simp
  let ?u1 = "u\<lparr>sy_validator := W, sy_g := insert_valid (ce_order E') (grouped (blk_txs b)) (sy_g u)\<rparr>"
  have p: "process_block (ce_order E') True (blk_txs b) u = VOk (blk_txs b, ?u1)" using W(1) by (simp add: process_block_def grouped_Nil)
  have lists: "lists_tokens (ce_order E) l" "lists_tokens (ce_order E') (blk_txs b)"
    using assms(3,5) by (auto simp: cache_env_ok_def intro: enumerates_lists)
  have cut: "cut_graph F (sy_g s1) (sy_g ?u1)"
    using tx b(1) inv(2)
    by (simp add: g) (intro cut_graph_step [OF u(4) _ u(5) lists b(3,2) _ b(4)], auto simp: indexed_ok_def)
  have valid: "valid_txids (sy_validator s1) = ?v \<union> txid ` set l" "valid_txids W = valid_txids (sy_validator u) \<union> txid ` set l"
    using a accW b(1) by (simp_all add: accepted_def)
  have "transaction_map W t = (transaction_map (sy_validator s1) |` (valid_txids (sy_validator s1) - F)) t" for t
  proof (cases "t \<in> txid ` set l")
    case True
    then obtain x where "x \<in> set (blk_txs b)" "t = txid x" using b(1) by auto
    then show ?thesis using True tx [of x] accW by (simp add: accepted_def valid)
  next
    case False
    have le: "transaction_map (sy_validator u) \<subseteq>\<^sub>m transaction_map W" "transaction_map (sy_validator s) \<subseteq>\<^sub>m transaction_map (sy_validator s1)"
      using a accW by (simp_all add: accepted_def)
    have "transaction_map W t = transaction_map (sy_validator u) t"
    proof (cases "t \<in> dom (transaction_map (sy_validator u))")
      case True
      then show ?thesis using le(1) by (simp add: map_le_def)
    next
      case out: False
      then have "t \<notin> dom (transaction_map W)" using W(2) False b(1) by simp
      with out show ?thesis by (simp add: domIff)
    qed
    moreover have "transaction_map (sy_validator s1) t = transaction_map (sy_validator s) t" if "t \<in> ?v"
      using subsetD [OF inv(1) that] le(2) by (simp add: map_le_def)
    ultimately show ?thesis using False by (simp add: u(3) valid restrict_map_def)
  qed
  moreover have "valid_txids W = valid_txids (sy_validator s1) - F" using tx b(1) by (auto simp: valid u(2))
  ultimately have "restarted F s1 ?u1"
    using cut u(1,5) by (simp add: restarted_def valid(1) insert_valid_inv le_supI1 fun_eq_iff)
  with p h show ?thesis by blast
qed

section \<open>What the clients see\<close>

text \<open>When nothing is cut out, every search gives the same reply.\<close>

lemma cut_graph_search:
  assumes "cut_graph {} g h" and "txgraph_inv g" and "txgraph_inv h"
  shows "graph_search_ptr h t X = graph_search_ptr g t X"
proof -
  have "tg_txid_to_token h = tg_txid_to_token g" "node_txdata h = node_txdata g" "node_inputs h = node_inputs g"
    using assms(1) by (auto simp: cut_graph_def fun_eq_iff)
  moreover have "token_graph h k t = None \<longleftrightarrow> token_graph g k t = None" for k
    using assms(2,3) calculation(1) by (metis txgraph_inv_def)
  ultimately show ?thesis by (simp add: graph_search_ptr_def split: option.split)
qed

section \<open>Examples\<close>

definition example_cache_env :: cache_env where
  "example_cache_env = \<lparr>ce_sha256 = id, ce_unset = (0, 0, 0), ce_block = example_block\<lparr>blk_txs := []\<rparr>, ce_order = example_order\<rparr>"

lemma example_tx_facts: "slp_type (slp example_tx) = TGenesis" "slp_token_type (slp example_tx) = 1"
    "\<exists>g. slp_tx (slp example_tx) = SlpGenesis g" "slp_wf example_tx"
  using example_slp_facts parsed_tx_wf [OF example_parsed] by (simp_all add: example_tx_def Let_def)

lemma sort_single: "topological_sort [tx] = Some [tx]"
proof -
  obtain ys where ys: "topological_sort [tx] = Some ys" "distinct (map txid ys)" "set ys = {tx}"
    using topological_sort_result [of "[tx]"] by auto
  then have "ys = [tx]" by (cases ys rule: remdups_adj.cases) auto
  with ys show ?thesis by simp
qed

lemma example_accepted: "\<exists>W. add_tx 2 example_tx False validator_new = VOk (True, W)"
proof -
  let ?V = "with_tx example_tx validator_new"
  have "validator_inv ?V" using example_tx_facts by (auto simp: validator_inv_def with_tx_def validator_new_def)
  then have "validate_tx 2 ?V example_tx = judgement ?V example_tx" by (rule validate_tx_fuel [OF _ example_tx_facts(4)]) simp
  also have "\<dots> = VOk True" using example_tx_facts by (auto simp: judgement_def genesis_judgement_def)
  finally show ?thesis
    using example_tx_facts(1) by (auto simp: add_tx_unfold validate_txid_def validator_new_def with_tx_def)
qed

end
