(* ===== verification/RpcClient.thy ===== *)
theory RpcClient
  imports CppJson Block
begin

text \<open>
  The client of the Bitcoin node, \<open>src/rpc.cpp\<close>, and \<open>get_mempool_transactions\<close> of
  \<open>server/gs++.cpp\<close>. The node is a parameter: \<open>post\<close> gives the status and body of the response to
  the n-th request, or nothing when the connection fails, and comes with the JSON library the client
  reads its answers with. A request is the JSON value of its body; user and password, which every
  request carries alike, are part of \<open>post\<close>.
\<close>

type_synonym http_post = "nat \<Rightarrow> json \<Rightarrow> (nat \<times> bytes) option"

record node =
  nd_post :: http_post
  nd_json :: json_lib

section \<open>Queries\<close>

definition rpc_request :: "string \<Rightarrow> json \<Rightarrow> json" where
  "rpc_request meth params = JsonArr [JsonObj [(''jsonrpc'', JsonStr (ascii ''2.0'')), (''method'', JsonStr (ascii meth)),
     (''params'', params), (''id'', JsonNum 0)]]"

definition rpc_query :: "node \<Rightarrow> nat \<Rightarrow> string \<Rightarrow> json \<Rightarrow> (nat \<times> bytes) option" where
  "rpc_query N n meth params = nd_post N n (rpc_request meth params)"

text \<open>
  The checks every method makes on a response: \<open>Ok None\<close> is the pair with \<open>false\<close>, otherwise the
  member \<open>result\<close> of the first element.
\<close>

definition rpc_reply :: "node \<Rightarrow> (nat \<times> bytes) option \<Rightarrow> json option parse" where
  "rpc_reply N res = (case res of
       None \<Rightarrow> Ok None
     | Some (status, body) \<Rightarrow>
         if status \<noteq> 200 then Ok None
         else (case jl_parse (nd_json N) body of
             None \<Rightarrow> Fail ''nlohmann::parse_error''
           | Some jbody \<Rightarrow>
               if jl_size (nd_json N) jbody = 0 then Ok None
               else res_bind (jl_first (nd_json N) jbody) (\<lambda>reply. res_bind (jl_key (nd_json N) reply ''error'') (\<lambda>err.
                 if err \<noteq> JsonNull then Ok None
                 else res_bind (jl_key (nd_json N) reply ''result'') (\<lambda>r. Ok (Some r))))))"

text \<open>A method that converts the result.\<close>

definition rpc_method :: "node \<Rightarrow> nat \<Rightarrow> string \<Rightarrow> json \<Rightarrow> (json \<Rightarrow> 'a parse) \<Rightarrow> 'a option parse" where
  "rpc_method N n meth params f = res_bind (rpc_reply N (rpc_query N n meth params)) (\<lambda>r. case r of
       None \<Rightarrow> Ok None
     | Some r \<Rightarrow> res_bind (f r) (\<lambda>x. Ok (Some x)))"

definition get_block_hash :: "node \<Rightarrow> nat \<Rightarrow> u64 \<Rightarrow> bytes option parse" where
  "get_block_hash N n height = rpc_method N n ''getblockhash'' (JsonArr [JsonNum (uint height)])
     (\<lambda>r. res_bind (jl_string (nd_json N) r) bhash)"

definition get_raw_block :: "node \<Rightarrow> nat \<Rightarrow> bytes \<Rightarrow> bytes option parse" where
  "get_raw_block N n h = rpc_method N n ''getblock'' (JsonArr [JsonStr (bhash_decompress False h), JsonNum 0])
     (\<lambda>r. res_bind (jl_string (nd_json N) r) (\<lambda>s. Ok (unhex s)))"

record blockchain_info =
  network :: bytes
  best_block_height :: u32

definition get_blockchain_info :: "node \<Rightarrow> nat \<Rightarrow> blockchain_info option parse" where
  "get_blockchain_info N n = rpc_method N n ''getblockchaininfo'' JsonNull (\<lambda>r.
     res_bind (res_bind (jl_key (nd_json N) r ''blocks'') (jl_u32 (nd_json N))) (\<lambda>h.
     res_bind (res_bind (jl_key (nd_json N) r ''chain'') (jl_string (nd_json N))) (\<lambda>c. Ok \<lparr>network = c, best_block_height = h\<rparr>)))"

definition get_decode_raw_transaction :: "node \<Rightarrow> nat \<Rightarrow> bytes \<Rightarrow> json option parse" where
  "get_decode_raw_transaction N n hex_str = rpc_method N n ''decoderawtransaction'' (JsonArr [JsonStr hex_str]) Ok"

text \<open>The ids of the pool, each read as hex and reversed.\<close>

fun read_mempool_ids :: "json_lib \<Rightarrow> json list \<Rightarrow> txid list parse" where
  "read_mempool_ids J [] = Ok []"
| "read_mempool_ids J (jtxid # js) = res_bind (jl_string J jtxid) (\<lambda>s. res_bind (bhash s) (\<lambda>t.
     res_bind (read_mempool_ids J js) (\<lambda>ts. Ok (rev t # ts))))"

definition get_raw_mempool :: "node \<Rightarrow> nat \<Rightarrow> txid list option parse" where
  "get_raw_mempool N n = rpc_method N n ''getrawmempool'' (JsonArr []) (\<lambda>r. read_mempool_ids (nd_json N) (jl_elements (nd_json N) r))"

definition get_raw_transaction :: "node \<Rightarrow> nat \<Rightarrow> txid \<Rightarrow> bytes option parse" where
  "get_raw_transaction N n t = rpc_method N n ''getrawtransaction'' (JsonArr [JsonStr (bhash_decompress True t), JsonNum 0])
     (\<lambda>r. res_bind (jl_string (nd_json N) r) (\<lambda>s. Ok (unhex s)))"

section \<open>The transactions of the pool\<close>

text \<open>
  \<open>get_mempool_transactions\<close>: one request for the ids and one for each transaction, which is parsed
  into a new object; \<open>tx_parse\<close> is that parser. The three failures are \<open>std::runtime_error\<close>s.
\<close>

type_synonym tx_parser = "bytes \<Rightarrow> transaction tx_parse"

definition runtime_errors :: "string list" where
  "runtime_errors = [''get_raw_mempool failed'', ''get_raw_transaction failed'', ''failed to hydrate mempool tx'']"

fun fetch_mempool_txs :: "node \<Rightarrow> tx_parser \<Rightarrow> nat \<Rightarrow> txid list \<Rightarrow> transaction list parse" where
  "fetch_mempool_txs N tx_parse n [] = Ok []"
| "fetch_mempool_txs N tx_parse n (t # ts) = res_bind (get_raw_transaction N n t) (\<lambda>txdata. case txdata of
       None \<Rightarrow> Fail ''get_raw_transaction failed''
     | Some d \<Rightarrow> (case tx_parse d of
           Fail _ \<Rightarrow> Fail ''failed to hydrate mempool tx''
         | Oob \<Rightarrow> Oob
         | Ok tx \<Rightarrow> res_bind (fetch_mempool_txs N tx_parse (Suc n) ts) (\<lambda>ret.
             Ok (if slp_type (slp tx) \<noteq> TInvalid then tx # ret else ret))))"

definition get_mempool_transactions :: "node \<Rightarrow> tx_parser \<Rightarrow> nat \<Rightarrow> transaction list parse" where
  "get_mempool_transactions N tx_parse n = res_bind (get_raw_mempool N n) (\<lambda>txids. case txids of
       None \<Rightarrow> Fail ''get_raw_mempool failed''
     | Some ts \<Rightarrow> fetch_mempool_txs N tx_parse (Suc n) ts)"

section \<open>A node that answers\<close>

text \<open>The node answers the request with the result, whenever it is asked.\<close>

definition answers :: "node \<Rightarrow> string \<Rightarrow> json \<Rightarrow> json \<Rightarrow> bool" where
  "answers N meth params r \<longleftrightarrow> (\<forall>n. \<exists>body ps. nd_post N n (rpc_request meth params) = Some (200, body)
     \<and> jl_parse (nd_json N) body = Some (JsonArr [JsonObj ps])
     \<and> map_of ps ''error'' = Some JsonNull \<and> map_of ps ''result'' = Some r)"

text \<open>An id as the node writes it.\<close>

definition hex_id :: "bytes \<Rightarrow> bool" where
  "hex_id s \<longleftrightarrow> (\<exists>h. length h = 32 \<and> s = gs_hex h)"

context json_library
begin

lemma rpc_method_answers:
  assumes "nd_json N = J" and "answers N meth params r"
  shows "rpc_method N n meth params f = res_bind (f r) (\<lambda>x. Ok (Some x))"
proof -
  obtain body ps where "nd_post N n (rpc_request meth params) = Some (200, body)" "jl_parse (nd_json N) body = Some (JsonArr [JsonObj ps])"
    "map_of ps ''error'' = Some JsonNull" "map_of ps ''result'' = Some r"
    using assms(2) unfolding answers_def by blast
  then show ?thesis by (simp add: rpc_method_def rpc_reply_def rpc_query_def assms(1) key first size_array)
qed

lemma read_mempool_ids_hex:
  "list_all hex_id hs \<Longrightarrow> \<exists>ts. read_mempool_ids J (map JsonStr hs) = Ok ts \<and> map (bhash_decompress True) ts = hs"
proof (induction hs)
  case (Cons s hs)
  then obtain h ts where h: "length h = 32" "s = gs_hex h"
    and ts: "read_mempool_ids J (map JsonStr hs) = Ok ts" "map (bhash_decompress True) ts = hs"
    by (auto simp: hex_id_def)
  then have "bhash s = Ok h" by (simp add: bhash_def bhash_hex_gs_hex)
  moreover have "bhash_decompress True (rev h) = gs_hex h" by (simp add: bhash_decompress_def)
  ultimately show ?case using h ts by (simp add: string)
qed simp

end

text \<open>C36: the pool is read in full: when the node lists ids and answers a request for each of them, by
  exactly the id it listed, with the hex of a transaction, then the transactions that carry a token
  message come back parsed, in the order of the list, however the answers are spread over time.\<close>

theorem mempool_fetched:
  assumes "json_library (nd_json N)" and "answers N ''getrawmempool'' (JsonArr []) (JsonArr (map JsonStr hs))" and "list_all hex_id hs"
    and "\<And>s. s \<in> set hs \<Longrightarrow> answers N ''getrawtransaction'' (JsonArr [JsonStr s, JsonNum 0]) (JsonStr (gs_hex (raw s)))"
    and "\<And>s. s \<in> set hs \<Longrightarrow> tx_parse (raw s) = Ok (parsed s)"
  shows "get_mempool_transactions N tx_parse n = Ok (filter (\<lambda>tx. slp_type (slp tx) \<noteq> TInvalid) (map parsed hs))"
proof -
  note lib = json_library.string [OF assms(1)] json_library.elements [OF assms(1)] and answer = json_library.rpc_method_answers [OF assms(1) refl]
  obtain ts where ts: "read_mempool_ids (nd_json N) (map JsonStr hs) = Ok ts" "map (bhash_decompress True) ts = hs"
    using json_library.read_mempool_ids_hex [OF assms(1,3)] by blast
  have "fetch_mempool_txs N tx_parse m ts = Ok (filter (\<lambda>tx. slp_type (slp tx) \<noteq> TInvalid) (map parsed (map (bhash_decompress True) ts)))"
    if "set (map (bhash_decompress True) ts) \<subseteq> set hs" for m
    using that
  proof (induction ts arbitrary: m)
    case (Cons t ts)
    then have t: "bhash_decompress True t \<in> set hs" by simp
    have "get_raw_transaction N m t = Ok (Some (raw (bhash_decompress True t)))"
      unfolding get_raw_transaction_def answer [OF assms(4) [OF t]] by (simp add: lib unhex_gs_hex)
    with Cons assms(5) [OF t] show ?case by simp
  qed simp
  then show ?thesis
    using ts by (simp add: get_mempool_transactions_def get_raw_mempool_def answer [OF assms(2)] lib)
qed

text \<open>A node with one transaction in its pool: the method's name tells the response.\<close>

definition example_node :: "json \<Rightarrow> json \<Rightarrow> node" where
  "example_node ids tx = \<lparr>
     nd_post = (\<lambda>n req. Some (200, if req = rpc_request ''getrawmempool'' (JsonArr []) then [1] else [2])),
     nd_json = documented_json (\<lambda>body. Some (JsonArr [JsonObj [(''error'', JsonNull), (''result'', if body = [1] then ids else tx)]]))\<rparr>"

theorem mempool_fetched_witness:
  "get_mempool_transactions (example_node (JsonArr [JsonStr (gs_hex (replicate 32 7))]) (JsonStr (gs_hex [1, 2])))
     (\<lambda>d. if d = [1, 2] then Ok example_tx else Oob) 5 = Ok (filter (\<lambda>tx. slp_type (slp tx) \<noteq> TInvalid) [example_tx])"
proof -
  have "rpc_request ''getrawtransaction'' p \<noteq> rpc_request ''getrawmempool'' q" for p q
    by (simp add: rpc_request_def)
  moreover have "hex_id (gs_hex (replicate 32 7))" unfolding hex_id_def by (intro exI [of _ "replicate 32 7"]) simp
  ultimately show ?thesis
    using mempool_fetched [of "example_node (JsonArr [JsonStr (gs_hex (replicate 32 7))]) (JsonStr (gs_hex [1, 2]))"
      "[gs_hex (replicate 32 7)]" "\<lambda>_. [1, 2]" "\<lambda>d. if d = [1, 2] then Ok example_tx else Oob" "\<lambda>_. example_tx" 5]
    by (simp add: example_node_def answers_def doc.json_library_axioms)
qed

end
