(* ===== verification/ZmqListener.thy ===== *)
theory ZmqListener
  imports TokenService ChainCache RpcClient
begin

text \<open>
  The thread of \<open>main\<close> in \<open>server/gs++.cpp\<close> that receives transactions and blocks from the node over
  ZeroMQ, hands them to the handlers and, with \<open>zmqpub\<close> on, publishes what was accepted together with
  a JSON summary; and \<open>transaction::slp_inputs\<close>, which the summary needs. One received message is one
  step. The thread catches only the errors of ZeroMQ, so any other exception ends the process: the
  outcome \<open>Fail\<close>. \<open>dump\<close> is \<open>json::dump\<close>, which has no result when a string is not UTF-8. Times,
  sizes and the last ids, which only the Status handler shows, are left out.
\<close>

section \<open>The inputs that carry tokens\<close>

fun slp_inputs_loop :: "slp_validator \<Rightarrow> outpoint list \<Rightarrow> outpoint list parse" where
  "slp_inputs_loop V [] = Ok []"
| "slp_inputs_loop V (input # is) =
     (if \<not> validator_has V (op_txid input) then slp_inputs_loop V is
      else res_bind (get_tx V (op_txid input)) (\<lambda>prevTx. res_bind (slp_outputs prevTx) (\<lambda>prevOutputs.
        res_bind (slp_inputs_loop V is) (\<lambda>result.
        Ok (if \<exists>o1 \<in> set prevOutputs. prev_out_idx o1 = op_vout input \<and> prev_tx_id o1 = op_txid input
            then input # result else result)))))"

definition slp_inputs :: "slp_validator \<Rightarrow> transaction \<Rightarrow> outpoint list parse" where
  "slp_inputs V tx = slp_inputs_loop V (inputs tx)"

section \<open>The published summary\<close>

fun address_list :: "bytes \<Rightarrow> scriptpubkey list \<Rightarrow> json list parse" where
  "address_list prefix [] = Ok []"
| "address_list prefix (k # ks) = res_bind (to_cashaddr prefix k) (\<lambda>a.
     res_bind (address_list prefix ks) (\<lambda>as. Ok (JsonStr a # as)))"

fun input_scripts :: "slp_validator \<Rightarrow> outpoint list \<Rightarrow> scriptpubkey list parse" where
  "input_scripts V [] = Ok []"
| "input_scripts V (input # is) = res_bind (get_tx V (op_txid input)) (\<lambda>prevTx.
     res_bind (output_at prevTx (unat (op_vout input))) (\<lambda>u.
     res_bind (input_scripts V is) (\<lambda>ks. Ok (out_script u # ks))))"

fun tx_type_field :: "slp_transaction_type \<Rightarrow> (string \<times> json) list" where
  "tx_type_field TGenesis = [(''txType'', JsonStr (ascii ''genesis''))]"
| "tx_type_field TSend = [(''txType'', JsonStr (ascii ''send''))]"
| "tx_type_field TMint = [(''txType'', JsonStr (ascii ''mint''))]"
| "tx_type_field TInvalid = []"

definition group_field :: "slp_validator \<Rightarrow> transaction \<Rightarrow> transaction \<Rightarrow> (string \<times> json) list parse" where
  "group_field V tx genesis_tx = (if slp_token_type (slp tx) = 0x41 then (case inputs genesis_tx of
         [] \<Rightarrow> Oob
       | i # _ \<Rightarrow> res_bind (get_tx V (op_txid i)) (\<lambda>txi.
           Ok [(''groupId'', JsonStr (bhash_decompress True (slp_tokenid (slp txi))))]))
     else Ok [])"

definition tx_summary :: "slp_validator \<Rightarrow> bytes \<Rightarrow> transaction \<Rightarrow> json parse" where
  "tx_summary V prefix tx =
     res_bind (get_tx V (slp_tokenid (slp tx))) (\<lambda>genesis_tx.
     res_bind (genesis_info genesis_tx) (\<lambda>g.
     res_bind (group_field V tx genesis_tx) (\<lambda>group.
     res_bind (slp_inputs V tx) (\<lambda>ins.
     res_bind (input_scripts V ins) (\<lambda>in_scripts.
     res_bind (address_list prefix in_scripts) (\<lambda>json_inputs.
     res_bind (slp_outputs tx) (\<lambda>outs.
     res_bind (address_list prefix (map out_script outs)) (\<lambda>json_outputs.
     Ok (JsonObj (group @ [(''inputs'', JsonArr json_inputs), (''outputs'', JsonArr json_outputs),
       (''tokenId'', JsonStr (bhash_decompress True (slp_tokenid (slp tx)))), (''type'', JsonNum (uint (slp_token_type (slp tx)))),
       (''ticker'', JsonStr (ticker g)), (''decimals'', JsonNum (uint (decimals g)))]
       @ tx_type_field (slp_type (slp tx)) @ [(''txHash'', JsonStr (bhash_decompress True (txid tx)))]))))))))))"

section \<open>The thread\<close>

record listener_env =
  le_mem :: cache_env
  le_node :: node
  le_utxosync :: bool
  le_zmqpub :: bool
  le_prefix :: bytes
  le_dump :: "json \<Rightarrow> bytes option"
  le_clock :: nat

record listener =
  ls_server :: server
  ls_height :: u32
  ls_hash :: bytes
  ls_starting :: bool
  ls_startup_txs :: "transaction list"

datatype zmq_message = RawTx bytes | RawBlock bytes | OtherMessage

type_synonym published = "bytes list list"

definition new_tx_parse :: "cache_env \<Rightarrow> tx_parser" where
  "new_tx_parse M d = (case ce_unset M of (v, lt, tt) \<Rightarrow> tx_hydrate (ce_sha256 M) tt (transaction_new v lt tt) d)"

definition publish_tx :: "listener_env \<Rightarrow> slp_validator \<Rightarrow> transaction \<Rightarrow> published parse" where
  "publish_tx E V tx = (if \<not> le_zmqpub E then Ok []
     else res_bind (tx_summary V (le_prefix E) tx) (\<lambda>j. case le_dump E j of
         None \<Rightarrow> Fail ''nlohmann::type_error''
       | Some json_string \<Rightarrow> Ok [[ascii ''rawtx'', serialized tx, json_string]]))"

text \<open>A parsed transaction: to the handler and, when that accepts it, to the subscribers.\<close>

definition zmq_tx :: "listener_env \<Rightarrow> transaction \<Rightarrow> listener \<Rightarrow> (listener \<times> published) parse" where
  "zmq_tx E tx L = (case slpsync_process_tx (le_utxosync E) tx (ls_server L) of
       None \<Rightarrow> Fail ''uncaught''
     | Some (ok, s) \<Rightarrow> if \<not> ok then Ok (L\<lparr>ls_server := s\<rparr>, [])
         else res_bind (publish_tx E (sy_validator (sv_sync s)) tx) (\<lambda>p. Ok (L\<lparr>ls_server := s\<rparr>, p)))"

text \<open>
  A block: the handler, then the pool of the node in place of the old one. The handler itself always
  reports success.
\<close>

definition zmq_block :: "listener_env \<Rightarrow> block \<Rightarrow> listener \<Rightarrow> (listener \<times> published) parse" where
  "zmq_block E blk L = (case block_sort blk of None \<Rightarrow> Fail ''uncaught'' | Some blk \<Rightarrow>
     (case slpsync_process_block (le_utxosync E) (ce_order (le_mem E)) False (blk_txs blk) (ls_server L) of
        None \<Rightarrow> Fail ''uncaught''
      | Some (_, s) \<Rightarrow> res_bind (get_mempool_transactions (le_node E) (new_tx_parse (le_mem E)) (le_clock E)) (\<lambda>mempool_transactions.
          case topological_sort mempool_transactions of None \<Rightarrow> Fail ''uncaught'' | Some txs \<Rightarrow>
          (case slpsync_process_mempool (le_utxosync E) (ce_order (le_mem E)) txs s of
             None \<Rightarrow> Fail ''uncaught''
           | Some s \<Rightarrow> Ok (L\<lparr>ls_server := s, ls_height := ls_height L + 1, ls_hash := block_hash blk\<rparr>,
               if le_zmqpub E then [[ascii ''rawblock'', block_serialize blk]] else [])))))"

definition zmq_step :: "listener_env \<Rightarrow> zmq_message \<Rightarrow> listener \<Rightarrow> (listener \<times> published) parse" where
  "zmq_step E msg L = (case msg of
       OtherMessage \<Rightarrow> Ok (L, [])
     | RawTx d \<Rightarrow> (case new_tx_parse (le_mem E) d of
           Oob \<Rightarrow> Oob
         | Fail _ \<Rightarrow> Ok (L, [])
         | Ok tx \<Rightarrow> if ls_starting L
             then Ok (if slp_type (slp tx) \<noteq> TInvalid then L\<lparr>ls_startup_txs := ls_startup_txs L @ [tx]\<rparr> else L, [])
             else zmq_tx E tx L)
     | RawBlock d \<Rightarrow> if ls_starting L then Ok (L, [])
         else (case block_hydrate (ce_sha256 (le_mem E)) (ce_unset (le_mem E)) False (ce_block (le_mem E)) d of
           Oob \<Rightarrow> Oob
         | Fail _ \<Rightarrow> Ok (L, [])
         | Ok blk \<Rightarrow> zmq_block E blk L))"

section \<open>Addresses can be written for every script\<close>

lemma nth_update_symbols: "symbols r \<Longrightarrow> symbols (r[i := x AND 31])"
  by (cases "i < length r") (auto simp: symbols_def list_all_length nth_list_update symbol_and and.assoc)

lemma emit_symbols: "symbols result \<Longrightarrow> to = 5 \<Longrightarrow> symbols (fst (emit_bits to acc (result, index, nbits)))"
proof (induction to acc "(result, index, nbits)" arbitrary: result index nbits rule: emit_bits.induct)
  case (1 to acc result index nbits)
  show ?case
  proof (cases "nbits < 5")
    case False
    then have "symbols (fst (emit_bits to acc (store_bits to acc (result, index, nbits - to))))"
      using 1 by (simp add: store_bits_def nth_update_symbols)
    with False 1(3) show ?thesis by (subst emit_bits.simps) simp
  qed (use 1 in \<open>subst emit_bits.simps, simp\<close>)
qed

lemma convert_bits_symbols: "symbols (convert_bits data 8 5 False)"
proof -
  have "symbols (fst (fst st)) \<Longrightarrow> symbols (fst (fst (fold (convert_step 8 5) data st)))" for st
  proof (induction data arbitrary: st)
    case (Cons d data)
    obtain r i b acc where st: "st = ((r, i, b), acc)" by (metis prod.collapse)
    have "symbols (fst (fst (convert_step 8 5 d st)))"
      using emit_symbols [of r 5 "push_bit 8 acc OR ucast d" i "b + 8"] Cons.prems by (simp add: st convert_step_def Let_def)
    then show ?case using Cons.IH by simp
  qed simp
  from this [of "((replicate n 0, 0, 0), 0)" for n]
  have z: "symbols (fst (fst (fold (convert_step 8 5) data ((replicate n 0, 0, 0), 0))))" for n
    by (simp add: symbols_def list_all_length)
  let ?n = "(length data * 8 + (5 - 1)) div 5"
  obtain r i b acc where f: "fold (convert_step 8 5) data ((replicate ?n 0, 0, 0), 0) = ((r, i, b), acc)" by (metis prod.collapse)
  with z [of ?n] have "symbols r" by simp
  then show ?thesis using f by (simp add: convert_bits_def Let_def nth_update_symbols)
qed

lemma to_cashaddr_total: "\<exists>a. to_cashaddr prefix v = Ok a"
  using encode_symbols [OF convert_bits_symbols] by (simp add: to_cashaddr_def Let_def)

lemma address_list_total: "\<exists>js. address_list prefix ks = Ok js"
proof (induction ks)
  case (Cons k ks)
  then show ?case using to_cashaddr_total [of prefix k] by auto
qed simp

section \<open>The GENESIS of what is accepted\<close>

text \<open>A SEND that moves nothing is the one message that is valid without any history.\<close>

definition zero_send :: "transaction \<Rightarrow> bool" where
  "zero_send tx \<longleftrightarrow> (\<exists>s. slp_tx (slp tx) = SlpSend s \<and> sent (amounts s) = 0)"

definition rooted :: "(txid \<rightharpoonup> transaction) \<Rightarrow> transaction \<Rightarrow> bool" where
  "rooted M tx \<longleftrightarrow> (\<exists>gtx g. M (slp_tokenid (slp tx)) = Some gtx \<and> slp_tx (slp gtx) = SlpGenesis g
     \<and> slp_token_type (slp gtx) = slp_token_type (slp tx)
     \<and> (slp_token_type (slp gtx) = 0x41 \<longrightarrow> (\<exists>i is' txi. inputs gtx = i # is' \<and> M (op_txid i) = Some txi)))"

lemma rooted_same: "same_token tx txi \<Longrightarrow> rooted M txi \<Longrightarrow> rooted M tx"
  by (simp add: same_token_def rooted_def)

lemma amount_not_zero_send: "output_slp_amount tx vout \<noteq> 0 \<Longrightarrow> slp_wf tx \<Longrightarrow> \<not> zero_send tx"
  by (auto simp: output_slp_amount_def zero_send_def sent_def slp_wf_def unat_gt_0 split: if_splits)

lemma legit_rooted:
  assumes "legit M {} t" and "M t = Some tx" and "\<not> zero_send tx"
    and wf: "\<And>t tx. M t = Some tx \<Longrightarrow> txid tx = t \<and> slp_wf tx"
  shows "rooted M tx"
  using assms(1-3)
proof (induction arbitrary: tx rule: legit.induct)
  case (legit_send t tx' s S)
  then have tx: "tx' = tx" by simp
  have "0 < sent (amounts s)" using legit_send by (auto simp: zero_send_def)
  then have "0 < (\<Sum>i \<leftarrow> filter (\<lambda>i. op_txid i \<in> S) (inputs tx). carried M tx i)" using legit_send tx by simp
  then have "\<exists>i \<in> set (filter (\<lambda>i. op_txid i \<in> S) (inputs tx)). carried M tx i \<noteq> 0"
    by (metis (no_types, lifting) less_numeral_extra(3) map_eq_conv sum_list_0)
  then obtain i where i: "op_txid i \<in> S" "carried M tx i \<noteq> 0" by auto
  then obtain txi where txi: "M (op_txid i) = Some txi" "same_token tx txi" "output_slp_amount txi (ucast (op_vout i)) \<noteq> 0"
    by (fastforce simp: carried_def split: option.splits if_splits)
  have "\<not> zero_send txi" using amount_not_zero_send [OF txi(3)] wf [OF txi(1)] by simp
  with legit_send.IH [OF i(1) txi(1)] txi(2) show ?case by (blast intro: rooted_same)
next
  case (legit_mint t tx' m i txi)
  have "variant_type (slp_tx (slp txi)) \<in> {TMint, TGenesis}"
    using legit_mint.hyps(5,8) wf [of "op_txid i" txi] by (simp add: slp_wf_def)
  then have "\<not> zero_send txi" by (auto simp: zero_send_def)
  then have "rooted M txi" by (rule legit_mint.IH [OF legit_mint.hyps(5)])
  moreover have "same_token tx txi" using legit_mint.hyps(1,6) legit_mint.prems(1) by simp
  ultimately show ?case by (rule rooted_same [rotated])
next
  case (legit_genesis t tx' g)
  then have "slp_tokenid (slp tx) = t" "slp_tx (slp tx) = SlpGenesis g" "slp_token_type (slp tx) \<noteq> 0x41"
    using wf [of t tx] by (simp_all add: slp_wf_def)
  with legit_genesis.prems(1) show ?case by (simp add: rooted_def)
next
  case (legit_child t tx' g i is' txi)
  then have "slp_tokenid (slp tx) = t" "slp_tx (slp tx) = SlpGenesis g" "inputs tx = i # is'" "M (op_txid i) = Some txi"
    using wf [of t tx] by (simp_all add: slp_wf_def)
  with legit_child.prems(1) show ?case by (simp add: rooted_def)
qed simp


section \<open>What the listener publishes\<close>

text \<open>
  \<open>slp_outputs\<close> reads the output 1 of a GENESIS or a MINT, and the outputs after the first of a SEND,
  without looking whether they exist.
\<close>

fun outputs_read :: "slp_transaction_type \<Rightarrow> nat" where
  "outputs_read TGenesis = 2" | "outputs_read TMint = 2" | "outputs_read TSend = 1" | "outputs_read TInvalid = 0"

definition lacks_outputs :: "transaction \<Rightarrow> bool" where
  "lacks_outputs tx \<longleftrightarrow> length (outputs tx) < outputs_read (slp_type (slp tx))"

lemma slp_outputs_lacking:
  assumes "slp_wf tx"
  shows "lacks_outputs tx \<Longrightarrow> slp_outputs tx = Oob" "\<not> lacks_outputs tx \<Longrightarrow> \<exists>os. slp_outputs tx = Ok os"
proof -
  have t: "slp_type (slp tx) = variant_type (slp_tx (slp tx))" using assms by (simp add: slp_wf_def)
  have m: "length (outputs tx) < 2 \<Longrightarrow> minting_outputs tx b = Oob" "\<not> length (outputs tx) < 2 \<Longrightarrow> \<exists>os. minting_outputs tx b = Ok os" for b
    by (auto simp: minting_outputs_def output_at_def)
  show "lacks_outputs tx \<Longrightarrow> slp_outputs tx = Oob" "\<not> lacks_outputs tx \<Longrightarrow> \<exists>os. slp_outputs tx = Ok os"
    using m t by (auto simp: lacks_outputs_def slp_outputs_def split: slp_tx_variant.splits)
qed

lemma known_placed:
  assumes "known_txs X V" and "transaction_map V t = Some tx"
  shows "placed_tx X tx" "txid tx = t" "slp_wf tx"
  using assms by (auto simp: known_txs_def placed_tx_def)

text \<open>The inputs that carry tokens are outputs the validator knows.\<close>

definition lacking_parent :: "slp_validator \<Rightarrow> outpoint list \<Rightarrow> bool" where
  "lacking_parent V ps \<longleftrightarrow> (\<exists>p \<in> set ps. \<exists>y. transaction_map V (op_txid p) = Some y \<and> lacks_outputs y)"

lemma slp_inputs_exact:
  assumes "known_txs X V"
  shows "if lacking_parent V ps then slp_inputs_loop V ps = Oob
    else (\<exists>is. slp_inputs_loop V ps = Ok is \<and> (\<exists>ks. input_scripts V is = Ok ks))"
proof (induction ps)
  case (Cons p ps)
  show ?case
  proof (cases "transaction_map V (op_txid p)")
    case (Some tx)
    note k = known_placed [OF assms Some]
    have g: "get_tx V (op_txid p) = Ok tx" "validator_has V (op_txid p)"
      using Some by (auto simp: get_tx_def validator_get_def validator_has_def)
    show ?thesis
    proof (cases "lacks_outputs tx")
      case True
      then show ?thesis using g Some slp_outputs_lacking(1) [OF k(3)] by (auto simp: lacking_parent_def)
    next
      case False
      then obtain os where os: "slp_outputs tx = Ok os" using slp_outputs_lacking(2) [OF k(3)] by blast
      have "unat (op_vout p) < length (outputs tx)" if "u \<in> set os" "prev_out_idx u = op_vout p" for u
        using placed_output [OF k(1) os that(1)] k(1) that(2) by (simp add: outpoint_of_def placed_tx_def)
      moreover have "lacking_parent V (p # ps) \<longleftrightarrow> lacking_parent V ps" using Some False by (auto simp: lacking_parent_def)
      ultimately show ?thesis using Cons.IH g os by (auto simp: output_at_def)
    qed
  next
    case None
    then have "lacking_parent V (p # ps) \<longleftrightarrow> lacking_parent V ps" by (auto simp: lacking_parent_def)
    then show ?thesis using Cons.IH None by (simp add: validator_has_def)
  qed
qed (simp add: lacking_parent_def)

lemma server_parts:
  assumes "server_reach utxosync X (s, T)"
  shows "known_txs X (sv_validator s)" "validator_inv (sv_validator s)" "validator_sound (sv_validator s, T)"
  using server_reach_inv [OF assms] sync_reach_inv(3) [OF server_reach_sync [OF assms]]
  by (auto simp: server_inv_def validator_sound.simps)

lemma tx_accepted:
  assumes "slpsync_process_tx utxosync tx s = Some (True, s')"
  shows "has_valid (sv_validator s') (txid tx)" "transaction_map (sv_validator s') (txid tx) = Some tx" "slp_type (slp tx) \<noteq> TInvalid"
proof -
  have p: "process_tx tx (sv_sync s) = VOk (True, sv_sync s')" by (rule tx_sync [OF assms])
  then have n: "slp_type (slp tx) \<noteq> TInvalid" "\<not> validator_has (sv_validator s) (txid tx)" by (auto simp: process_tx_def split: if_splits)
  then obtain ok V where W: "add_tx 2 tx False (sv_validator s) = VOk (ok, V)"
    using p by (cases "add_tx 2 tx False (sv_validator s)") (auto simp: process_tx_def)
  have "ok" "sv_sync s' = (sv_sync s)\<lparr>sy_validator := V, sy_mg := snd (insert_token_data (slp_tokenid (slp tx)) [tx] (sy_mg (sv_sync s)))\<rparr>"
    using p n W by (auto simp: process_tx_def Let_def split: if_splits)
  then have "ok" "sv_validator s' = V" by simp_all
  with add_tx_new [OF W n(2)] n show "has_valid (sv_validator s') (txid tx)" "transaction_map (sv_validator s') (txid tx) = Some tx"
    "slp_type (slp tx) \<noteq> TInvalid" by (auto simp: has_valid_def)
qed

lemma tx_reach:
  assumes "server_reach utxosync X (s, T)" and "placed_tx X tx" and "slpsync_process_tx utxosync tx s = Some (b, s')"
  shows "server_reach utxosync X (s', T)"
  using assms by (blast intro: reach_step server_tx)

text \<open>C10: when the publisher works: take a server that has only run and taken nothing on trust (no cached block
  was loaded), and a transaction, no SEND of nothing, that its handler accepts. Then the GENESIS of its
  token is known and no lookup throws. The summary is built, with the ticker that GENESIS
  declares, exactly when the transaction and every transaction known for one of its inputs has the outputs
  \<open>slp_outputs\<close> reads: two for a GENESIS or a MINT. Otherwise it reads outside the outputs, as for a GENESIS
  with the OP_RETURN alone, which the validator accepts.\<close>

theorem summary_total:
  assumes "server_reach utxosync X (s, {})" and "placed_tx X tx"
    and "slpsync_process_tx utxosync tx s = Some (True, s')" and "\<not> zero_send tx"
  shows "\<exists>gtx g. transaction_map (sv_validator s') (slp_tokenid (slp tx)) = Some gtx \<and> slp_tx (slp gtx) = SlpGenesis g
    \<and> (if lacks_outputs tx \<or> lacking_parent (sv_validator s') (inputs tx) then tx_summary (sv_validator s') prefix tx = Oob
       else (\<exists>ps. tx_summary (sv_validator s') prefix tx = Ok (JsonObj ps)
         \<and> map_of ps ''ticker'' = Some (JsonStr (ticker g))
         \<and> map_of ps ''txHash'' = Some (JsonStr (bhash_decompress True (txid tx)))))"
proof -
  let ?V = "sv_validator s'"
  note p = server_parts [OF tx_reach [OF assms(1-3)]]
  note a = tx_accepted [OF assms(3)]
  have "legit (transaction_map ?V) {} (txid tx)" using p(3) a(1) by (simp add: validator_sound.simps has_valid_def)
  moreover have "txid y = t \<and> slp_wf y" if "transaction_map ?V t = Some y" for t y
    using known_placed [OF p(1) that] by simp
  ultimately have "rooted (transaction_map ?V) tx" using legit_rooted [of "transaction_map ?V" "txid tx" tx] a(2) assms(4) by blast
  then obtain gtx g where g: "transaction_map ?V (slp_tokenid (slp tx)) = Some gtx" "slp_tx (slp gtx) = SlpGenesis g"
    and child: "slp_token_type (slp tx) = 0x41 \<longrightarrow> (\<exists>i is' txi. inputs gtx = i # is' \<and> transaction_map ?V (op_txid i) = Some txi)"
    by (auto simp: rooted_def)
  have get: "get_tx ?V t = Ok y" if "transaction_map ?V t = Some y" for t y
    using that by (simp add: get_tx_def validator_get_def)
  obtain grp where grp: "group_field ?V tx gtx = Ok grp" "grp = [] \<or> (\<exists>x. grp = [(''groupId'', x)])"
    using child get by (cases "slp_token_type (slp tx) = 0x41") (fastforce simp: group_field_def)+
  have gi: "genesis_info gtx = Ok g" using g(2) by (simp add: genesis_info_def)
  note outs = slp_outputs_lacking [OF known_placed(3) [OF p(1) a(2)]]
  show ?thesis
  proof (cases "lacking_parent ?V (inputs tx)")
    case True
    then have "slp_inputs ?V tx = Oob" using slp_inputs_exact [OF p(1), of "inputs tx"] by (simp add: slp_inputs_def)
    then show ?thesis using g grp(1) gi get [OF g(1)] True by (simp add: tx_summary_def)
  next
    case False
    then obtain ins ks where ins: "slp_inputs ?V tx = Ok ins" "input_scripts ?V ins = Ok ks"
      using slp_inputs_exact [OF p(1), of "inputs tx"] by (auto simp: slp_inputs_def)
    obtain j1 where j1: "address_list prefix ks = Ok j1" using address_list_total by meson
    show ?thesis
    proof (cases "lacks_outputs tx")
      case True
      then show ?thesis using g grp(1) gi get [OF g(1)] ins j1 outs(1) by (simp add: tx_summary_def)
    next
      case ok: False
      obtain os where os: "slp_outputs tx = Ok os" using outs(2) [OF ok] by blast
      obtain j2 where "address_list prefix (map out_script os) = Ok j2" using address_list_total by meson
      then show ?thesis
        using g grp gi ins os j1 False ok get [OF g(1)] by (cases "slp_type (slp tx)") (auto simp: tx_summary_def)
    qed
  qed
qed


text \<open>C9: one transaction ends the server: with publishing on, a SEND that moves nothing, of a token whose
  GENESIS the server does not have, is accepted by the handler, because nothing needs covering, and
  then the lookup of that GENESIS throws out of the thread. Whatever the server has seen before and
  whoever sends it, the process stops.\<close>

theorem zero_send_stops_listener:
  assumes "server_reach (le_utxosync E) X (ls_server L, T)" and "le_zmqpub E" and "\<not> ls_starting L"
    and "new_tx_parse (le_mem E) d = Ok tx" and "placed_tx X tx" and "outputs tx \<noteq> []" and "zero_send tx"
    and "\<not> validator_has (sv_validator (ls_server L)) (txid tx)"
    and "\<not> validator_has (sv_validator (ls_server L)) (slp_tokenid (slp tx))" and "slp_tokenid (slp tx) \<noteq> txid tx"
  shows "zmq_step E (RawTx d) L = Fail ''std::out_of_range''"
proof -
  let ?s = "ls_server L" and ?V = "sv_validator (ls_server L)"
  have wf: "slp_wf tx" using assms(5) by (simp add: placed_tx_def)
  obtain sm where send: "slp_tx (slp tx) = SlpSend sm" "sent (amounts sm) = 0" using assms(7) by (auto simp: zero_send_def)
  then have ty: "slp_type (slp tx) = TSend" using wf by (simp add: slp_wf_def)
  have new: "transaction_map ?V (txid tx) = None" using assms(8) by (simp add: validator_has_def)
  have "validator_inv (with_tx tx ?V)"
    using server_parts(2) [OF assms(1)] wf ty by (auto simp: validator_inv_def with_tx_def split: if_splits)
  then have "validate_tx 2 (with_tx tx ?V) tx = judgement (with_tx tx ?V) tx" by (rule validate_tx_fuel [OF _ wf]) simp
  also have "\<dots> = VOk True" by (simp add: judgement_def send)
  finally obtain V where V: "add_tx 2 tx False ?V = VOk (True, V)"
    using ty new by (auto simp: add_tx_unfold validate_txid_def with_tx_def)
  obtain y where y: "process_tx tx (sv_sync ?s) = VOk (True, y)" "sy_validator y = V"
    using assms(8) V ty by (auto simp: process_tx_def Let_def)
  obtain os where os: "slp_outputs tx = Ok os" using assms(6) by (cases "length (outputs tx) - Suc 0 \<le> length (amounts sm)") (auto simp: slp_outputs_def send)
  obtain b where b: "when_utxosync (le_utxosync E) (bch_process_mempool_tx tx) (sv_bch ?s) = Some b"
    using process_mempool_tx_total [OF os wf, of "sv_bch ?s"] by (cases "le_utxosync E") (auto simp: when_utxosync_def)
  have p: "slpsync_process_tx (le_utxosync E) tx ?s = Some (True, \<lparr>sv_sync = y, sv_bch = b\<rparr>)"
    using y(1) b by (simp add: slpsync_process_tx_def)
  have "transaction_map V (slp_tokenid (slp tx)) = None"
    using add_tx_new(2) [OF V assms(8)] ty assms(9,10) by (simp add: validator_has_def)
  then have "tx_summary V prefix tx = Fail ''std::out_of_range''" for prefix
    by (simp add: tx_summary_def get_tx_def validator_get_def)
  then show ?thesis
    using assms(2-4) p y(2) by (simp add: zmq_step_def zmq_tx_def publish_tx_def)
qed

section \<open>Examples\<close>

text \<open>A SEND of nothing, as bytes; the hash is the identity.\<close>

definition zero_script :: bytes where
  "zero_script = 0x6A # 4 # lokad_id @ 1 # 1 # 4 # ascii ''SEND'' @ 32 # replicate 32 7 @ 8 # replicate 8 0"

definition zero_outs :: "(u64 \<times> bytes) list" where
  "zero_outs = [(0, zero_script), (546, forged_script)]"

definition zero_tx :: transaction where
  "zero_tx = (ser_object id 0 2 example_ins zero_outs 7)\<lparr>slp := the (slp_transaction_of_script 0 zero_script)\<rparr>"

lemma zero_slp: "slp_transaction_of_script 0 zero_script
  = Some \<lparr>slp_tokenid = replicate 32 7, slp_token_type = 1, slp_type = TSend, slp_tx = SlpSend \<lparr>amounts = [0]\<rparr>\<rparr>"
  by code_simp

definition zero_env :: listener_env where
  "zero_env = \<lparr>le_mem = example_cache_env, le_node = example_node JsonNull JsonNull, le_utxosync = True, le_zmqpub = True,
     le_prefix = ascii ''simpleledger'', le_dump = (\<lambda>_. Some []), le_clock = 0\<rparr>"

lemma zero_parsed: "new_tx_parse (le_mem zero_env) (ser_tx 2 example_ins zero_outs 7) = Ok zero_tx"
proof -
  have "set_slp 0 (ser_object id 0 2 example_ins zero_outs 7) = Ok zero_tx"
    using zero_slp by (simp add: set_slp_def ser_object_def Let_def out_of_def is_op_return_def zero_tx_def zero_outs_def zero_script_def)
  then have "tx_hydrate id 0 (transaction_new 0 0 0) (ser_tx 2 example_ins zero_outs 7 @ []) = Ok zero_tx"
    by (subst tx_hydrate_ser_eq)
      (simp_all add: example_ins_def input_ok_def output_ok_def MAX_TX_SIZE_def zero_outs_def zero_script_def lokad_id_eq forged_script_def)
  then show ?thesis by (simp add: new_tx_parse_def zero_env_def example_cache_env_def)
qed


lemma zero_facts: "slp_tx (slp zero_tx) = SlpSend \<lparr>amounts = [0]\<rparr>" "slp_tokenid (slp zero_tx) = replicate 32 7" "slp_type (slp zero_tx) = TSend"
    "outputs zero_tx = out_of (txid zero_tx) 0 zero_outs" "inputs zero_tx = map in_outpoint example_ins"
  by (simp_all add: zero_tx_def zero_slp ser_object_def Let_def)

lemma zero_txid: "txid zero_tx = ser_tx 2 example_ins zero_outs 7"
  by (simp add: zero_tx_def ser_object_def Let_def)

lemma zero_placed: "placed_tx (\<lambda>_. zero_tx) zero_tx"
  by (auto simp: placed_tx_def slp_wf_def zero_facts example_ins_def MAX_TX_SIZE_def zero_outs_def out_of_def outpoint_of_def less_Suc_eq)

lemma zero_token_neq: "slp_tokenid (slp zero_tx) \<noteq> txid zero_tx"
proof -
  have "length (slp_tokenid (slp zero_tx)) < length (txid zero_tx)"
    by (simp add: zero_facts zero_txid ser_tx_def zero_outs_def ser_output_def zero_script_def)
  then show ?thesis by auto
qed

text \<open>A server that has just started is stopped by this one transaction.\<close>

theorem zero_send_stops_listener_witness:
  "zmq_step zero_env (RawTx (ser_tx 2 example_ins zero_outs 7))
     \<lparr>ls_server = server_new, ls_height = 0, ls_hash = [], ls_starting = False, ls_startup_txs = []\<rparr> = Fail ''std::out_of_range''"
proof (rule zero_send_stops_listener [where X = "\<lambda>_. zero_tx" and T = "{}"])
  show "zero_send zero_tx" by (simp add: zero_send_def zero_facts sent_def)
  show "outputs zero_tx \<noteq> []" by (simp add: zero_facts zero_outs_def out_of_def)
  show "new_tx_parse (le_mem zero_env) (ser_tx 2 example_ins zero_outs 7) = Ok zero_tx" by (rule zero_parsed)
qed (simp_all add: zero_placed zero_token_neq reach_init zero_env_def server_new_def sync_new_def validator_new_def validator_has_def)

text \<open>A GENESIS with its two outputs, and the same one with its OP_RETURN only.\<close>

definition short_genesis_tx :: transaction where
  "short_genesis_tx = example_genesis_tx\<lparr>outputs := take 1 (outputs example_genesis_tx)\<rparr>"

lemma genesis_accepted:
  assumes "tx = example_genesis_tx \<or> tx = short_genesis_tx"
  shows "\<exists>s'. slpsync_process_tx False tx server_new = Some (True, s')" "placed_tx (\<lambda>_. tx) tx" "\<not> zero_send tx"
    "slp_tokenid (slp tx) = txid tx" "inputs tx = []" "slp_tx (slp tx) = slp_tx (slp example_genesis_tx)" "slp_type (slp tx) = TGenesis"
proof -
  have eq: "slp tx = slp example_genesis_tx" "txid tx = txid example_genesis_tx" "inputs tx = inputs example_genesis_tx"
    using assms by (auto simp: short_genesis_tx_def)
  have g: "slp_type (slp tx) = TGenesis" "slp_wf tx" "slp_tokenid (slp tx) = txid tx" "inputs tx = []"
    using example_wf(1) unfolding eq slp_wf_def by (simp_all add: example_defs)
  then show "slp_tokenid (slp tx) = txid tx" "inputs tx = []" "slp_tx (slp tx) = slp_tx (slp example_genesis_tx)" "slp_type (slp tx) = TGenesis"
    by (simp_all add: eq)
  have "genesis_judgement (with_tx tx validator_new) tx" unfolding genesis_judgement_def eq by (simp add: example_defs)
  then have "judgement (with_tx tx validator_new) tx = VOk True" unfolding judgement_def eq by (simp add: example_defs)
  moreover have "validate_tx 2 (with_tx tx validator_new) tx = judgement (with_tx tx validator_new) tx"
    by (rule validate_tx_fuel [OF _ g(2)]) (use g in \<open>auto simp: validator_inv_def with_tx_def validator_new_def\<close>)
  ultimately obtain V where V: "add_tx 2 tx False validator_new = VOk (True, V)"
    using g(1) by (auto simp: add_tx_unfold validate_txid_def with_tx_def validator_new_def)
  then show "\<exists>s'. slpsync_process_tx False tx server_new = Some (True, s')"
    using g(1) by (auto simp: slpsync_process_tx_def when_utxosync_def process_tx_def server_new_def sync_new_def validator_has_def validator_new_def Let_def)
  show "placed_tx (\<lambda>_. tx) tx" using assms forged_placed(1) g(2) by (auto simp: placed_tx_def short_genesis_tx_def)
  show "\<not> zero_send tx" unfolding zero_send_def eq by (simp add: example_defs)
qed

theorem summary_total_witness:
  "\<exists>s1 ps g s2. slpsync_process_tx False example_genesis_tx server_new = Some (True, s1)
     \<and> tx_summary (sv_validator s1) (ascii ''simpleledger'') example_genesis_tx = Ok (JsonObj ps)
     \<and> slp_tx (slp example_genesis_tx) = SlpGenesis g \<and> map_of ps ''ticker'' = Some (JsonStr (ticker g))
     \<and> slpsync_process_tx False short_genesis_tx server_new = Some (True, s2)
     \<and> tx_summary (sv_validator s2) (ascii ''simpleledger'') short_genesis_tx = Oob"
proof -
  note g = genesis_accepted [OF disjI1 [OF refl]] and h = genesis_accepted [OF disjI2 [OF refl]]
  obtain s1 s2 where s: "slpsync_process_tx False example_genesis_tx server_new = Some (True, s1)"
    "slpsync_process_tx False short_genesis_tx server_new = Some (True, s2)" using g(1) h(1) by blast
  have reach: "server_reach False X (server_new, {})" for X by (rule reach_init) simp
  have l: "\<not> lacks_outputs example_genesis_tx" "lacks_outputs short_genesis_tx"
    by (simp_all add: lacks_outputs_def g(7) h(7)) (simp_all add: short_genesis_tx_def example_defs)
  have p: "\<not> lacking_parent V []" for V by (simp add: lacking_parent_def)
  have m: "transaction_map (sv_validator s1) (txid example_genesis_tx) = Some example_genesis_tx" using tx_accepted [OF s(1)] by blast
  from summary_total [OF reach g(2) s(1) g(3), of "ascii ''simpleledger''"]
    summary_total [OF reach h(2) s(2) h(3), of "ascii ''simpleledger''"] s l m
  show ?thesis by (auto simp: g(4,5) p)
qed

end
