(* ===== verification/Startup.thy ===== *)
theory Startup
  imports ZmqListener
begin

text \<open>
  The start of the server in \<open>main\<close> of \<open>server/gs++.cpp\<close>, with the heights, the cache files, the requests
  to the node and the retries that ChainCache leaves out: the loop over the cached blocks, the loop
  that fetches blocks from the node, and the first read of the pool. A loop that may run forever is a
  partial function whose result None says so. An uncaught exception or a read outside the data is
  \<open>Dies\<close>. No signal is ever installed that sets \<open>exit_early\<close>, so it stays false.
\<close>

section \<open>The state of main\<close>

datatype 'a main = Running 'a | Exits nat | Dies

type_synonym path = "bytes list"

record main_config =
  cf_cache_enabled :: bool
  cf_block_height :: u32
  cf_graphsearch :: bool
  cf_graphsearch_rpc :: bool
  cf_utxosync :: bool
  cf_node :: "nat \<Rightarrow> node"
  cf_mem :: cache_env

text \<open>
  The globals \<open>main\<close> works on; the cache directory as a map from paths to contents; and the number of
  attempts made so far to talk to the node, each of which has a node of its own to answer it.
\<close>

record main_state =
  ms_height :: u32
  ms_hash :: bytes
  ms_network :: bytes
  ms_prefix :: bytes
  ms_files :: "path \<rightharpoonup> bytes"
  ms_server :: server
  ms_attempt :: nat

definition network_prefixes :: "bytes \<Rightarrow> bytes" where
  "network_prefixes net = (if net = ascii ''main'' then ascii ''simpleledger'' else if net = ascii ''test'' then ascii ''slptest''
     else if net = ascii ''regtest'' then ascii ''slpreg'' else [])"

text \<open>
  The height is a signed integer that is compared with unsigned ones, kept here as its word;
  \<open>std::to_string\<close> prints it with its sign when a block is looked up, and without when it is written.
\<close>

definition to_string_int :: "u32 \<Rightarrow> bytes" where
  "to_string_int h = (if sint h < 0 then 0x2D # to_string (nat (- sint h)) else to_string (unat h))"

definition block_height_to_path :: "u32 \<Rightarrow> path" where
  "block_height_to_path height = [ascii ''slp'', to_string (unat height div 1000)]"

definition cached_path :: "u32 \<Rightarrow> path" where
  "cached_path height = block_height_to_path height @ [to_string_int height]"

definition written_path :: "u32 \<Rightarrow> path" where
  "written_path height = block_height_to_path height @ [to_string (unat height)]"

definition cache_slp_file :: "block \<Rightarrow> u32 \<Rightarrow> (path \<rightharpoonup> bytes) \<Rightarrow> (path \<rightharpoonup> bytes)" where
  "cache_slp_file b height files = files(written_path height \<mapsto> cache_slp_block b)"

section \<open>Loading the cache\<close>

definition read_block :: "main_config \<Rightarrow> bytes \<Rightarrow> (block, block) res" where
  "read_block C d = block_hydrate (ce_sha256 (cf_mem C)) (ce_unset (cf_mem C)) False (ce_block (cf_mem C)) d"

definition load_height :: "main_config \<Rightarrow> main_state \<Rightarrow> main_state option main" where
  "load_height C s = (case ms_files s (cached_path (ms_height s)) of
       None \<Rightarrow> Running None
     | Some blk_data \<Rightarrow> (case read_block C blk_data of
           Oob \<Rightarrow> Dies
         | Fail _ \<Rightarrow> Exits 0
         | Ok blk \<Rightarrow> (case process_chain_block (cf_utxosync C) (ce_order (cf_mem C)) True (blk_txs blk) (ms_server s) of
               None \<Rightarrow> Dies
             | Some (_, srv) \<Rightarrow> Running (Some (s\<lparr>ms_server := srv, ms_hash := block_hash blk\<rparr>)))))"

partial_function (option) cache_loop :: "main_config \<Rightarrow> main_state \<Rightarrow> main_state main option" where
  "cache_loop C s = (case load_height C s of
       Dies \<Rightarrow> Some Dies
     | Exits n \<Rightarrow> Some (Exits n)
     | Running None \<Rightarrow> Some (Running (s\<lparr>ms_height := ms_height s - 1\<rparr>))
     | Running (Some s) \<Rightarrow> cache_loop C (s\<lparr>ms_height := ms_height s + 1\<rparr>))"

section \<open>Fetching from the node\<close>

definition next_attempt :: "main_state \<Rightarrow> main_state" where
  "next_attempt s = s\<lparr>ms_attempt := Suc (ms_attempt s)\<rparr>"

text \<open>
  One round of the inner loop, without the change of the height: true to go on, false to sleep, step
  back and ask for the height of the chain again.
\<close>

definition fetch_block :: "main_config \<Rightarrow> main_state \<Rightarrow> (bool \<times> main_state) main" where
  "fetch_block C s = (let N = cf_node C (ms_attempt s); s = next_attempt s in
     case get_block_hash N 0 (scast (ms_height s)) of
       Oob \<Rightarrow> Dies | Fail _ \<Rightarrow> Dies
     | Ok None \<Rightarrow> Running (False, s)
     | Ok (Some h) \<Rightarrow> (case get_raw_block N 1 h of
         Oob \<Rightarrow> Dies | Fail _ \<Rightarrow> Dies
       | Ok None \<Rightarrow> Running (False, s)
       | Ok (Some block_data) \<Rightarrow> (case read_block C block_data of
           Oob \<Rightarrow> Dies
         | Fail _ \<Rightarrow> Running (False, s)
         | Ok blk \<Rightarrow> (case block_sort blk of None \<Rightarrow> Dies | Some blk \<Rightarrow>
           (case process_chain_block (cf_utxosync C) (ce_order (cf_mem C)) False (blk_txs blk) (ms_server s) of
             None \<Rightarrow> Dies
           | Some (valid_txs, srv) \<Rightarrow>
               if \<not> cf_cache_enabled C then Running (True, s\<lparr>ms_server := srv, ms_hash := h\<rparr>)
               else (case block_sort (blk\<lparr>blk_txs := valid_txs\<rparr>) of None \<Rightarrow> Dies | Some cblk \<Rightarrow>
                 Running (True, s\<lparr>ms_server := srv, ms_hash := h,
                   ms_files := cache_slp_file cblk (ms_height s) (ms_files s)\<rparr>)))))))"

text \<open>Both loops in one: \<open>best\<close> is the height of the chain while the inner one runs.\<close>

partial_function (option) rpc_loop :: "main_config \<Rightarrow> u32 option \<Rightarrow> main_state \<Rightarrow> main_state main option" where
  "rpc_loop C best s = (case best of
       None \<Rightarrow> (case get_blockchain_info (cf_node C (ms_attempt s)) 0 of
           Oob \<Rightarrow> Some Dies | Fail _ \<Rightarrow> Some Dies
         | Ok None \<Rightarrow> Some (Exits 1)
         | Ok (Some info) \<Rightarrow>
             (let s = (next_attempt s)\<lparr>ms_network := network info, ms_prefix := network_prefixes (network info)\<rparr> in
              if ms_height s = best_block_height info then Some (Running s)
              else rpc_loop C (Some (best_block_height info)) s))
     | Some b \<Rightarrow>
         if ms_height s \<le> b then (case fetch_block C s of
             Dies \<Rightarrow> Some Dies | Exits n \<Rightarrow> Some (Exits n)
           | Running (ok, s) \<Rightarrow>
               if ok then rpc_loop C (Some b) (s\<lparr>ms_height := ms_height s + 1\<rparr>)
               else rpc_loop C None (s\<lparr>ms_height := ms_height s - 1\<rparr>))
         else Some (Running (s\<lparr>ms_height := ms_height s - 1\<rparr>)))"

definition sync_chain :: "main_config \<Rightarrow> main_state \<Rightarrow> main_state main option" where
  "sync_chain C s = (let s = s\<lparr>ms_height := cf_block_height C\<rparr> in
     if \<not> cf_graphsearch C then Some (Running s)
     else Option.bind (if cf_cache_enabled C then cache_loop C s else Some (Running s)) (\<lambda>r. case r of
         Running s \<Rightarrow> if cf_graphsearch_rpc C then rpc_loop C None s else Some (Running s)
       | r \<Rightarrow> Some r))"

section \<open>The first read of the pool\<close>

text \<open>Tried until it succeeds; only a \<open>std::runtime_error\<close> is caught.\<close>

partial_function (option) pool_loop :: "main_config \<Rightarrow> nat \<Rightarrow> (transaction list \<times> nat) main option" where
  "pool_loop C k = (case get_mempool_transactions (cf_node C k) (new_tx_parse (cf_mem C)) 0 of
       Ok txs \<Rightarrow> Some (Running (txs, Suc k))
     | Oob \<Rightarrow> Some Dies
     | Fail e \<Rightarrow> if e \<in> set runtime_errors then pool_loop C (Suc k) else Some Dies)"

text \<open>\<open>heard\<close> are the transactions the listener has buffered until then.\<close>

definition first_pool :: "main_config \<Rightarrow> transaction list \<Rightarrow> main_state \<Rightarrow> main_state main option" where
  "first_pool C heard s = Option.bind
     (if cf_graphsearch C \<and> cf_graphsearch_rpc C then pool_loop C (ms_attempt s) else Some (Running ([], ms_attempt s)))
     (\<lambda>r. case r of
         Dies \<Rightarrow> Some Dies | Exits n \<Rightarrow> Some (Exits n)
       | Running (txs, k) \<Rightarrow> (case topological_sort (heard @ txs) of None \<Rightarrow> Some Dies | Some txs \<Rightarrow>
           (case slpsync_process_mempool (cf_utxosync C) (ce_order (cf_mem C)) txs (ms_server s) of
             None \<Rightarrow> Some Dies
           | Some srv \<Rightarrow> Some (Running (s\<lparr>ms_server := srv, ms_attempt := k\<rparr>)))))"

definition start_server :: "main_config \<Rightarrow> transaction list \<Rightarrow> main_state \<Rightarrow> main_state main option" where
  "start_server C heard s = Option.bind (sync_chain C s) (\<lambda>r. case r of
       Running s \<Rightarrow> first_pool C heard s
     | r \<Rightarrow> Some r)"

section \<open>What the loops do to the cache\<close>

abbreviation ms_validator :: "main_state \<Rightarrow> slp_validator" where
  "ms_validator s \<equiv> sv_validator (ms_server s)"

definition known_ids :: "main_state \<Rightarrow> txid set" where
  "known_ids s = dom (transaction_map (ms_validator s))"

definition file_ids :: "main_config \<Rightarrow> bytes \<Rightarrow> txid set" where
  "file_ids C f = (case read_block C f of Ok b \<Rightarrow> txid ` set (blk_txs b) | _ \<Rightarrow> {})"

definition config_ok :: "main_config \<Rightarrow> bool" where
  "config_ok C \<longleftrightarrow> (\<exists>sha256 unset. cache_env_ok sha256 unset (cf_mem C))"

text \<open>Every file is as it was, or holds none of the ids known before.\<close>

definition forgets :: "main_config \<Rightarrow> main_state \<Rightarrow> main_state \<Rightarrow> bool" where
  "forgets C s s' \<longleftrightarrow> known_ids s \<subseteq> known_ids s' \<and> (\<forall>p. ms_files s' p = ms_files s p
     \<or> (\<exists>f. ms_files s' p = Some f \<and> file_ids C f \<inter> known_ids s = {}))"

lemma forgets_same: "ms_files s' = ms_files s \<Longrightarrow> ms_server s' = ms_server s \<Longrightarrow> forgets C s s'"
  by (simp add: forgets_def known_ids_def)

lemma forgets_unchanged:
  assumes "forgets C s s'" and "ms_files s' p = Some g" and "t \<in> file_ids C g" and "t \<in> known_ids s"
  shows "ms_files s' p = ms_files s p"
proof (rule ccontr)
  assume "ms_files s' p \<noteq> ms_files s p"
  then obtain f where "ms_files s' p = Some f" "file_ids C f \<inter> known_ids s = {}" using assms(1) unfolding forgets_def by blast
  with assms(2-4) show False by auto
qed

lemma forgets_trans:
  assumes "forgets C s u" and "forgets C u v"
  shows "forgets C s v"
proof -
  have "known_ids s \<subseteq> known_ids u" using assms(1) by (simp add: forgets_def)
  then have "ms_files v p = ms_files s p \<or> (\<exists>f. ms_files v p = Some f \<and> file_ids C f \<inter> known_ids s = {})" for p
    using assms unfolding forgets_def by (metis (no_types, opaque_lifting) Int_mono order_refl subset_empty)
  with assms show ?thesis by (auto simp: forgets_def)
qed

lemma chain_block_known:
  assumes "process_chain_block utxosync ord trusted txs s = Some (l, s')"
  shows "dom (transaction_map (sv_validator s)) \<subseteq> dom (transaction_map (sv_validator s'))"
    and "dom (transaction_map (sv_validator s')) \<subseteq> dom (transaction_map (sv_validator s)) \<union> txid ` set txs"
proof -
  have p: "process_block ord trusted txs (sv_sync s) = VOk (l, sv_sync s')" by (rule chain_block_sync [OF assms])
  then obtain V m where a: "accept_txs trusted txs (sv_validator s) Map.empty [] = VOk (V, m, l)" "sv_validator s' = V"
    by (cases "accept_txs trusted txs (sv_validator s) Map.empty []") (auto simp: process_block_def dest!: arg_cong [of _ _ sy_validator])
  note k = accept_txs_knows [OF a(1)]
  then show "dom (transaction_map (sv_validator s)) \<subseteq> dom (transaction_map (sv_validator s'))"
    using map_le_implies_dom_le a(2) by blast
  show "dom (transaction_map (sv_validator s')) \<subseteq> dom (transaction_map (sv_validator s)) \<union> txid ` set txs"
    using k a(2) by (fastforce simp: dom_def)
qed

lemma fetch_block_forgets:
  assumes "fetch_block C s = Running (ok, s')" and "config_ok C"
  shows "ms_height s' = ms_height s \<and> forgets C s s'
    \<and> (ok \<longrightarrow> cf_cache_enabled C \<longrightarrow> (\<exists>f. ms_files s' (written_path (ms_height s)) = Some f \<and> file_ids C f \<inter> known_ids s = {}))"
proof (cases "ms_server s' = ms_server s \<and> ms_files s' = ms_files s \<and> ms_height s' = ms_height s \<and> \<not> ok")
  case True
  then show ?thesis by (simp add: forgets_same)
next
  case False
  let ?E = "cf_mem C"
  obtain sha256 unset where E: "cache_env_ok sha256 unset ?E" using assms(2) by (auto simp: config_ok_def)
  from assms(1) False obtain d b b' l srv h where
    b: "read_block C d = Ok b" "block_sort b = Some b'" and ok: "ok"
    and p: "process_chain_block (cf_utxosync C) (ce_order ?E) False (blk_txs b') (ms_server s) = Some (l, srv)"
    and r: "if \<not> cf_cache_enabled C then s' = (next_attempt s)\<lparr>ms_server := srv, ms_hash := h\<rparr>
       else \<exists>c. block_sort (b'\<lparr>blk_txs := l\<rparr>) = Some c \<and> s' = (next_attempt s)\<lparr>ms_server := srv, ms_hash := h,
         ms_files := cache_slp_file c (ms_height s) (ms_files s)\<rparr>"
    by (auto simp: fetch_block_def Let_def next_attempt_def split: res.splits option.splits if_splits)
  have k: "known_ids s \<subseteq> known_ids s'" using chain_block_known(1) [OF p] r by (auto simp: known_ids_def split: if_splits)
  show ?thesis
  proof (cases "cf_cache_enabled C")
    case False
    then show ?thesis using r k by (simp add: forgets_def next_attempt_def)
  next
    case True
    then obtain c where c: "block_sort (b'\<lparr>blk_txs := l\<rparr>) = Some c"
      "s' = (next_attempt s)\<lparr>ms_server := srv, ms_hash := h, ms_files := cache_slp_file c (ms_height s) (ms_files s)\<rparr>"
      using r by auto
    have "sync_rpc_block ?E d (sv_sync (ms_server s)) = Some (cache_slp_block c, sv_sync srv)"
      using b c(1) chain_block_sync [OF p] by (simp add: sync_rpc_block_def read_block_def)
    from sync_rpc_block_file [OF this E E] obtain x A where
      x: "set (blk_txs x) = set A" "accepted (ms_validator s) A (sv_validator srv)" "read_block C (cache_slp_block c) = Ok x"
      unfolding read_block_def by blast
    have "t \<notin> txid ` set A" if "t \<in> known_ids s" for t
      using x(2) that by (auto simp: accepted_def known_ids_def)
    then have "file_ids C (cache_slp_block c) \<inter> known_ids s = {}" using x(1,3) by (auto simp: file_ids_def)
    then show ?thesis using k c(2) by (auto simp: forgets_def cache_slp_file_def next_attempt_def)
  qed
qed

text \<open>A property of every run that ends, by induction on its rounds.\<close>

lemmas rpc_loop_induct = rpc_loop.raw_induct [rotated, consumes 1, case_names round]
lemmas cache_loop_induct = cache_loop.raw_induct [rotated, consumes 1, case_names round]

lemma rpc_loop_forgets:
  assumes "rpc_loop C best s = Some r"
  shows "config_ok C \<longrightarrow> (case r of Running s' \<Rightarrow> forgets C s s' | _ \<Rightarrow> True)"
  using assms
proof (induction rule: rpc_loop_induct)
  case (round rpc C best s r)
  note IH = round(1) and run = round(2)
  let ?goal = "case r of Running s' \<Rightarrow> forgets C s s' | _ \<Rightarrow> True"
  show ?case
  proof
    assume C: "config_ok C"
    have later: ?goal if "rpc C best' u = Some r" "forgets C s u" for best' u
      using IH [OF that(1)] C forgets_trans [OF that(2)] by (simp split: main.splits)
    show ?goal
    proof (cases best)
      case None
      show ?thesis
      proof (cases "get_blockchain_info (cf_node C (ms_attempt s)) 0")
        case (Ok i)
        show ?thesis
        proof (cases i)
          case (Some info)
          let ?u = "(next_attempt s)\<lparr>ms_network := network info, ms_prefix := network_prefixes (network info)\<rparr>"
          have u: "forgets C s ?u" by (rule forgets_same) (simp_all add: next_attempt_def)
          then show ?thesis using later [OF _ u] run None Ok Some by (auto simp: Let_def split: if_splits)
        qed (use run None Ok in auto)
      qed (use run None in auto)
    next
      case (Some b)
      have h: "forgets C s (u\<lparr>ms_height := x\<rparr>)" if "forgets C s u" for u x
        by (rule forgets_trans [OF that forgets_same]) simp_all
      show ?thesis
      proof (cases "fetch_block C s")
        case (Running oku)
        obtain ok u where oku: "oku = (ok, u)" by (cases oku)
        then have "forgets C s u" using fetch_block_forgets [OF _ C] Running by blast
        then show ?thesis using later [OF _ h] run Some Running oku by (auto simp: forgets_same split: if_splits)
      qed (use run Some in \<open>auto simp: forgets_same split: if_splits\<close>)
    qed
  qed
qed

lemma cache_loop_known:
  assumes "cache_loop C s = Some r"
  shows "case r of
     Running s' \<Rightarrow> ms_files s' = ms_files s \<and> (\<forall>t \<in> known_ids s'. t \<in> known_ids s \<or> (\<exists>p f. ms_files s p = Some f \<and> t \<in> file_ids C f))
   | _ \<Rightarrow> True"
  using assms
proof (induction rule: cache_loop_induct)
  case (round loop C s r)
  show ?case
  proof (cases "load_height C s")
    case (Running v)
    show ?thesis
    proof (cases v)
      case None
      then show ?thesis using round(2) Running by (auto simp: known_ids_def)
    next
      case (Some u)
      from Running Some obtain f b l where
        b: "ms_files s (cached_path (ms_height s)) = Some f" "read_block C f = Ok b"
          "process_chain_block (cf_utxosync C) (ce_order (cf_mem C)) True (blk_txs b) (ms_server s) = Some (l, ms_server u)"
          "ms_files u = ms_files s"
        by (auto simp: load_height_def split: option.splits res.splits)
      have u: "known_ids u \<subseteq> known_ids s \<union> file_ids C f"
        using chain_block_known(2) [OF b(3)] b(2) by (auto simp: known_ids_def file_ids_def)
      have "loop C (u\<lparr>ms_height := ms_height u + 1\<rparr>) = Some r" using round(2) Running Some by simp
      note IH = round(1) [OF this]
      have h: "known_ids (u\<lparr>ms_height := x\<rparr>) = known_ids u" "ms_files (u\<lparr>ms_height := x\<rparr>) = ms_files s" for x
        by (simp_all add: known_ids_def b(4))
      show ?thesis
      proof (cases r)
        case (Running s')
        with IH have k: "ms_files s' = ms_files s" "\<forall>t \<in> known_ids s'. t \<in> known_ids u \<or> (\<exists>p f. ms_files s p = Some f \<and> t \<in> file_ids C f)"
          by (simp_all add: h)
        then have "t \<in> known_ids s \<or> (\<exists>p f. ms_files s p = Some f \<and> t \<in> file_ids C f)" if "t \<in> known_ids s'" for t
          using that u b(1) by blast
        with k(1) show ?thesis by (simp add: Running)
      qed simp_all
    qed
  qed (use round(2) in auto)
qed

section \<open>A restart forgets the last cached block\<close>

lemma path_eq: "0 \<le> sint h \<Longrightarrow> cached_path h = written_path h"
  by (simp add: cached_path_def written_path_def to_string_int_def)

text \<open>C6: restarting loses transactions: a server that loads its cache and then finds that the chain is
  longer fetches the last cached block once more, already knows its transactions, and writes the
  file of that block again without them. Whatever happens afterwards while it catches up, including
  failures of the node and retries, a transaction that only this file held is unknown to the server
  that starts from the cache the next time.\<close>

theorem restart_forgets_block:
  assumes "config_ok C" and "cf_cache_enabled C" and "ms_server s0 = server_new"
    and "cache_loop C s0 = Some (Running s1)" and "0 \<le> sint (ms_height s1)"
    and "get_blockchain_info (cf_node C (ms_attempt s1)) 0 = Ok (Some info)" and "ms_height s1 < best_block_height info"
    and "fetch_block C ((next_attempt s1)\<lparr>ms_network := network info, ms_prefix := network_prefixes (network info)\<rparr>) = Running (True, u)"
    and "rpc_loop C None s1 = Some (Running s2)"
    and "t \<in> known_ids s1" and "\<forall>p f. ms_files s0 p = Some f \<and> t \<in> file_ids C f \<longrightarrow> p = cached_path (ms_height s1)"
    and "cache_loop C (s0\<lparr>ms_files := ms_files s2\<rparr>) = Some (Running s3)"
  shows "t \<notin> known_ids s3"
proof
  let ?v = "(next_attempt s1)\<lparr>ms_network := network info, ms_prefix := network_prefixes (network info)\<rparr>"
  have v: "known_ids ?v = known_ids s1" "ms_files ?v = ms_files s1" "ms_height ?v = ms_height s1"
    by (simp_all add: known_ids_def next_attempt_def)
  have empty: "known_ids (s0\<lparr>ms_files := fs\<rparr>) = {}" for fs
    by (simp add: known_ids_def assms(3) server_new_def sync_new_def validator_new_def)
  have files: "ms_files s1 = ms_files s0" using cache_loop_known [OF assms(4)] by simp
  from fetch_block_forgets [OF assms(8,1)] assms(2) v obtain f where
    f: "ms_files u (written_path (ms_height s1)) = Some f" "file_ids C f \<inter> known_ids s1 = {}" and u: "forgets C ?v u" by auto
  have "rpc_loop C (Some (best_block_height info)) ?v = Some (Running s2)"
    using assms(6,7,9) by (subst (asm) rpc_loop.simps) (auto simp: Let_def next_attempt_def split: if_splits)
  then have "rpc_loop C (Some (best_block_height info)) (u\<lparr>ms_height := ms_height u + 1\<rparr>) = Some (Running s2)"
    using assms(7,8) v(3) by (subst (asm) rpc_loop.simps) (simp add: less_imp_le)
  from rpc_loop_forgets [OF this] assms(1) have "forgets C (u\<lparr>ms_height := ms_height u + 1\<rparr>) s2" by simp
  then have r: "forgets C u s2" by (rule forgets_trans [OF forgets_same, rotated 2]) simp_all
  have known: "t \<in> known_ids ?v" "t \<in> known_ids u" using assms(10) v(1) u by (auto simp: forgets_def)
  assume "t \<in> known_ids s3"
  then obtain p g where g: "ms_files s2 p = Some g" "t \<in> file_ids C g"
    using cache_loop_known [OF assms(12)] empty by auto
  then have p2: "ms_files s2 p = ms_files u p" using forgets_unchanged [OF r] known(2) by blast
  then have "ms_files u p = Some g" using g(1) by simp
  from forgets_unchanged [OF u this g(2) known(1)] have "ms_files u p = ms_files ?v p" .
  then have "ms_files s0 p = Some g" using p2 g(1) v(2) files by simp
  then have "p = cached_path (ms_height s1)" using assms(11) g(2) by blast
  with f g p2 path_eq [OF assms(5)] assms(10) show False by auto
qed

section \<open>Examples\<close>

text \<open>A node that serves the same block at the heights 5 and 6, and a cache that has it at 5.\<close>

definition chain_node :: node where
  "chain_node = \<lparr>
     nd_post = (\<lambda>n req. Some (200, if req = rpc_request ''getblockchaininfo'' JsonNull then [1] else [2 + of_nat n])),
     nd_json = documented_json (\<lambda>body. Some (JsonArr [JsonObj [(''error'', JsonNull), (''result'',
       if body = [1] then JsonObj [(''blocks'', JsonNum 6), (''chain'', JsonStr (ascii ''main''))]
       else if body = [2] then JsonStr (gs_hex (replicate 32 7)) else JsonStr (gs_hex (block_serialize example_block)))]]))\<rparr>"

definition chain_config :: main_config where
  "chain_config = \<lparr>cf_cache_enabled = True, cf_block_height = 5, cf_graphsearch = True, cf_graphsearch_rpc = True,
     cf_utxosync = False, cf_node = (\<lambda>_. chain_node), cf_mem = example_cache_env\<rparr>"

definition chain_state :: main_state where
  "chain_state = \<lparr>ms_height = 5, ms_hash = [], ms_network = [], ms_prefix = [],
     ms_files = [cached_path 5 \<mapsto> block_serialize example_block], ms_server = server_new, ms_attempt = 0\<rparr>"

definition empty_file :: bytes where
  "empty_file = block_serialize (example_block\<lparr>blk_txs := []\<rparr>)"

lemma chain_config_ok: "config_ok chain_config"
  unfolding config_ok_def
  by (rule exI [of _ id], rule exI [of _ "(0, 0, 0)"])
    (simp add: chain_config_def cache_env_ok_def example_cache_env_def example_order_enumerates)

lemma chain_read:
  "read_block chain_config (block_serialize example_block) = Ok example_block"
  "read_block chain_config empty_file = Ok (example_block\<lparr>blk_txs := []\<rparr>)"
proof -
  have e: "read_block chain_config d = block_hydrate id (0, 0, 0) False (example_block\<lparr>blk_txs := []\<rparr>) d" for d
    by (simp add: read_block_def chain_config_def example_cache_env_def)
  have ok: "block_ok id (0, 0, 0) (example_block\<lparr>blk_txs := []\<rparr>)"
    using example_block_ok by (simp add: block_ok_def block_header_def)
  show "read_block chain_config (block_serialize example_block) = Ok example_block"
    using block_hydrate_ser [OF example_block_ok, of "example_block\<lparr>blk_txs := []\<rparr>" False "[]"] by (simp add: e kept_def)
  show "read_block chain_config empty_file = Ok (example_block\<lparr>blk_txs := []\<rparr>)"
    using block_hydrate_ser [OF ok, of "example_block\<lparr>blk_txs := []\<rparr>" False "[]"] by (simp add: e kept_def empty_file_def)
qed

lemma chain_paths:
  "cached_path 5 = written_path 5" "cached_path 6 = written_path 6" "cached_path 7 = written_path 7"
  "written_path 5 \<noteq> written_path 6" "written_path 5 \<noteq> written_path 7" "written_path 6 \<noteq> written_path 7"
proof -
  have d: "to_string n = [of_nat (48 + n)]" if "n < 10" for n using that by (subst to_string.simps) simp
  show "cached_path 5 = written_path 5" "cached_path 6 = written_path 6" "cached_path 7 = written_path 7"
    by (simp_all add: path_eq)
  show "written_path 5 \<noteq> written_path 6" "written_path 5 \<noteq> written_path 7" "written_path 6 \<noteq> written_path 7"
    by (simp_all add: written_path_def block_height_to_path_def d)
qed

lemma chain_answers: "get_block_hash chain_node 0 h = Ok (Some (replicate 32 7))"
    "get_raw_block chain_node (Suc 0) hs = Ok (Some (block_serialize example_block))"
    "get_blockchain_info chain_node 0 = Ok (Some \<lparr>network = ascii ''main'', best_block_height = 6\<rparr>)"
proof -
  have r: "rpc_request m p \<noteq> rpc_request ''getblockchaininfo'' JsonNull" if "m = ''getblockhash'' \<or> m = ''getblock''" for m p
    using that by (auto simp: rpc_request_def)
  show "get_block_hash chain_node 0 h = Ok (Some (replicate 32 7))"
    by (simp add: get_block_hash_def rpc_method_def rpc_query_def rpc_reply_def chain_node_def r doc_simps bhash_def bhash_hex_gs_hex)
  show "get_raw_block chain_node (Suc 0) hs = Ok (Some (block_serialize example_block))"
    by (simp add: get_raw_block_def rpc_method_def rpc_query_def rpc_reply_def chain_node_def r doc_simps unhex_gs_hex)
  show "get_blockchain_info chain_node 0 = Ok (Some \<lparr>network = ascii ''main'', best_block_height = 6\<rparr>)"
    by (simp add: get_blockchain_info_def rpc_method_def rpc_query_def rpc_reply_def chain_node_def doc_simps)
qed

text \<open>A block whose transactions are all known.\<close>

lemma known_block:
  assumes "\<forall>tx \<in> set txs. validator_has (sv_validator s) (txid tx)"
  shows "\<exists>s'. process_chain_block False ord trusted txs s = Some ([], s') \<and> sv_validator s' = sv_validator s"
proof -
  have "accept_txs trusted txs V m l = VOk (V, m, l)" if "\<forall>tx \<in> set txs. validator_has V (txid tx)" for V m l
    using that by (induction txs) simp_all
  from this [OF assms] show ?thesis
    by (auto simp: process_chain_block_def slpsync_process_block_def when_utxosync_def process_block_def)
qed

lemma chain_fetch:
  assumes "validator_has (ms_validator s) (txid Block.example_tx)"
  shows "\<exists>u. fetch_block chain_config s = Running (True, u) \<and> ms_validator u = ms_validator s
    \<and> ms_height u = ms_height s \<and> ms_files u = (ms_files s)(written_path (ms_height s) \<mapsto> empty_file)"
proof -
  have e: "blk_txs example_block = [Block.example_tx]" by (simp add: example_block_def Let_def)
  obtain s' where s': "process_chain_block False (ce_order example_cache_env) False [Block.example_tx] (ms_server s) = Some ([], s')"
    "sv_validator s' = ms_validator s" using known_block [of "[Block.example_tx]" "ms_server s"] assms by fastforce
  have n: "topological_sort [] = Some []" by (simp add: topological_sort_def topological_sort_internal_def)
  have c: "cf_node chain_config k = chain_node" "cf_utxosync chain_config = False" "cf_mem chain_config = example_cache_env"
    "cf_cache_enabled chain_config" for k by (simp_all add: chain_config_def)
  show ?thesis
    using s' by (simp add: fetch_block_def Let_def next_attempt_def c chain_answers chain_read block_sort_def e sort_single n
        cache_slp_file_def cache_slp_block_def empty_file_def)
qed


lemma chain_load:
  assumes "ms_files s (cached_path (ms_height s)) = Some f" and "read_block chain_config f = Ok b"
    and "process_chain_block False example_order True (blk_txs b) (ms_server s) = Some (l, srv)"
  shows "cache_loop chain_config s = cache_loop chain_config (s\<lparr>ms_server := srv, ms_hash := block_hash b, ms_height := ms_height s + 1\<rparr>)"
  using assms by (subst cache_loop.simps)
    (simp add: load_height_def chain_config_def [THEN arg_cong, of cf_utxosync] chain_config_def [THEN arg_cong, of cf_mem] example_cache_env_def)

lemma chain_load_end:
  "ms_files s (cached_path (ms_height s)) = None \<Longrightarrow> cache_loop chain_config s = Some (Running (s\<lparr>ms_height := ms_height s - 1\<rparr>))"
  by (subst cache_loop.simps) (simp add: load_height_def)

text \<open>The first start after the block was cached, and the start after that.\<close>

lemma chain_first:
  "\<exists>s1. cache_loop chain_config chain_state = Some (Running s1) \<and> ms_height s1 = 5
     \<and> ms_files s1 = ms_files chain_state \<and> validator_has (ms_validator s1) (txid Block.example_tx)"
proof -
  let ?V = "snd (add_valid_txid (txid Block.example_tx) (with_tx Block.example_tx validator_new))"
  have n: "\<not> validator_has validator_new (txid Block.example_tx)" "slp_type (slp Block.example_tx) \<noteq> TInvalid"
    using example_tx_facts(1) by (simp_all add: validator_has_def validator_new_def)
  then have "add_tx 2 Block.example_tx True validator_new = VOk (True, ?V)" by (simp add: add_tx_unfold validator_has_def)
  moreover have "validator_has ?V (txid Block.example_tx)" by (simp add: validator_has_def with_tx_def add_valid_txid_def validator_new_def)
  ultimately obtain srv where srv: "process_chain_block False example_order True [Block.example_tx] server_new = Some ([Block.example_tx], srv)"
    "validator_has (sv_validator srv) (txid Block.example_tx)"
    using n(1) by (auto simp: process_chain_block_def slpsync_process_block_def when_utxosync_def process_block_def server_new_def sync_new_def)
  let ?s1 = "chain_state\<lparr>ms_server := srv, ms_hash := block_hash example_block, ms_height := 6\<rparr>"
  have "cache_loop chain_config chain_state = cache_loop chain_config ?s1"
    using chain_load [OF _ chain_read(1), of chain_state "[Block.example_tx]" srv] srv(1)
    by (simp add: chain_state_def example_block_def Let_def)
  also have "\<dots> = Some (Running (?s1\<lparr>ms_height := 5\<rparr>))"
    using chain_load_end [of ?s1] chain_paths by (simp add: chain_state_def)
  finally show ?thesis using srv(2) by (simp add: chain_state_def)
qed

lemma chain_catch_up:
  assumes "ms_height s = 5" and "validator_has (ms_validator s) (txid Block.example_tx)"
  shows "\<exists>s'. rpc_loop chain_config (Some 6) s = Some (Running s')
    \<and> ms_files s' = (ms_files s)(written_path 5 \<mapsto> empty_file, written_path 6 \<mapsto> empty_file)"
proof -
  obtain u where u: "fetch_block chain_config s = Running (True, u)" "ms_validator u = ms_validator s" "ms_height u = 5"
    "ms_files u = (ms_files s)(written_path 5 \<mapsto> empty_file)" using chain_fetch [OF assms(2)] assms(1) by auto
  let ?u = "u\<lparr>ms_height := 6\<rparr>"
  obtain w where w: "fetch_block chain_config ?u = Running (True, w)" "ms_height w = 6"
    "ms_files w = (ms_files u)(written_path 6 \<mapsto> empty_file)" using chain_fetch [of ?u] assms(2) u(2) by auto
  have "rpc_loop chain_config (Some 6) s = rpc_loop chain_config (Some 6) ?u"
    using u(1,3) assms(1) by (subst rpc_loop.simps) simp
  also have "\<dots> = rpc_loop chain_config (Some 6) (w\<lparr>ms_height := 7\<rparr>)"
    using w(1,2) by (subst rpc_loop.simps) simp
  also have "\<dots> = Some (Running (w\<lparr>ms_height := 6\<rparr>))" by (subst rpc_loop.simps) simp
  finally show ?thesis using u(4) w(3) by simp
qed

lemma chain_second:
  "\<exists>s3. cache_loop chain_config (chain_state\<lparr>ms_files := [written_path 5 \<mapsto> empty_file, written_path 6 \<mapsto> empty_file]\<rparr>) = Some (Running s3)"
proof -
  have e: "\<exists>srv. process_chain_block False example_order True (blk_txs (example_block\<lparr>blk_txs := []\<rparr>)) s = Some ([], srv)" for s
    using known_block [of "[]" s example_order True] by auto
  let ?s = "chain_state\<lparr>ms_files := [written_path 5 \<mapsto> empty_file, written_path 6 \<mapsto> empty_file]\<rparr>"
  obtain a where a: "process_chain_block False example_order True (blk_txs (example_block\<lparr>blk_txs := []\<rparr>)) (ms_server ?s) = Some ([], a)"
    using e by blast
  let ?t = "?s\<lparr>ms_server := a, ms_hash := block_hash (example_block\<lparr>blk_txs := []\<rparr>), ms_height := ms_height ?s + 1\<rparr>"
  obtain b where b: "process_chain_block False example_order True (blk_txs (example_block\<lparr>blk_txs := []\<rparr>)) (ms_server ?t) = Some ([], b)"
    using e by blast
  let ?u = "?t\<lparr>ms_server := b, ms_hash := block_hash (example_block\<lparr>blk_txs := []\<rparr>), ms_height := ms_height ?t + 1\<rparr>"
  have "cache_loop chain_config ?s = cache_loop chain_config ?t"
    by (rule chain_load [OF _ chain_read(2) a]) (simp add: chain_state_def chain_paths)
  also have "\<dots> = cache_loop chain_config ?u"
    by (rule chain_load [OF _ chain_read(2) b]) (simp add: chain_state_def chain_paths)
  also have "\<dots> = Some (Running (?u\<lparr>ms_height := ms_height ?u - 1\<rparr>))"
    using chain_paths by (intro chain_load_end) (simp add: chain_state_def)
  finally show ?thesis by blast
qed

theorem restart_forgets_block_witness:
  "\<exists>s1 s2 s3. cache_loop chain_config chain_state = Some (Running s1) \<and> rpc_loop chain_config None s1 = Some (Running s2)
     \<and> cache_loop chain_config (chain_state\<lparr>ms_files := ms_files s2\<rparr>) = Some (Running s3)
     \<and> txid Block.example_tx \<in> known_ids s1 \<and> txid Block.example_tx \<notin> known_ids s3"
proof -
  obtain s1 where s1: "cache_loop chain_config chain_state = Some (Running s1)" "ms_height s1 = 5"
    "ms_files s1 = ms_files chain_state" "validator_has (ms_validator s1) (txid Block.example_tx)" using chain_first by blast
  let ?info = "\<lparr>network = ascii ''main'', best_block_height = 6\<rparr>"
  let ?v = "(next_attempt s1)\<lparr>ms_network := network ?info, ms_prefix := network_prefixes (network ?info)\<rparr>"
  have node: "cf_node chain_config k = chain_node" for k by (simp add: chain_config_def)
  have v: "ms_height ?v = 5" "validator_has (ms_validator ?v) (txid Block.example_tx)" "ms_files ?v = ms_files chain_state"
    using s1 by (simp_all add: next_attempt_def)
  obtain s2 where s2: "rpc_loop chain_config (Some 6) ?v = Some (Running s2)"
    "ms_files s2 = [written_path 5 \<mapsto> empty_file, written_path 6 \<mapsto> empty_file]"
    using chain_catch_up [OF v(1,2)] v(3) chain_paths by (auto simp: chain_state_def)
  have r: "rpc_loop chain_config None s1 = Some (Running s2)"
    using s2(1) s1(2) by (subst rpc_loop.simps) (simp add: node chain_answers Let_def next_attempt_def)
  obtain s3 where s3: "cache_loop chain_config (chain_state\<lparr>ms_files := ms_files s2\<rparr>) = Some (Running s3)"
    using chain_second s2(2) by auto
  obtain u where u: "fetch_block chain_config ?v = Running (True, u)" using chain_fetch [OF v(2)] by blast
  have k: "txid Block.example_tx \<in> known_ids s1" using s1(4) by (auto simp: known_ids_def validator_has_def)
  have "txid Block.example_tx \<notin> known_ids s3"
    by (rule restart_forgets_block [OF chain_config_ok _ _ s1(1) _ _ _ u r k _ s3])
      (simp_all add: s1(2) node chain_answers chain_state_def, simp add: chain_config_def)
  with s1 r s3 k show ?thesis by blast
qed

end
