(* ===== verification/CacheRestart.thy ===== *)
theory CacheRestart
  imports Startup
begin

text \<open>
  What a restart from the block cache gives back, over the loops of \<open>main\<close> in \<open>server/gs++.cpp\<close> with
  their heights and files (Startup): while a first server catches up with the node, every file it
  writes is one that a second server loads with the same effect, apart from the first file.
\<close>

section \<open>Paths and rounds\<close>

text \<open>Decimal numbers, and so the paths of different heights, differ.\<close>

lemma to_string_value: "foldl (\<lambda>acc b. acc * 10 + (unat b - 48)) 0 (to_string n) = n"
proof (induction n rule: to_string.induct)
  case (1 n)
  have d: "unat (of_nat (48 + k) :: byte) - 48 = k" if "k < 10" for k
    using that by (simp add: unat_of_nat take_bit_nat_eq_self del: of_nat_add)
  show ?case
  proof (cases "n < 10")
    case True
    then show ?thesis using d [of n] by (subst to_string.simps) simp
  next
    case False
    then show ?thesis using 1 [OF False] d [of "n mod 10"] by (subst to_string.simps) simp
  qed
qed

lemma written_path_inj: "written_path h = written_path h' \<longleftrightarrow> h = h'"
proof
  assume "written_path h = written_path h'"
  then have "to_string (unat h) = to_string (unat h')" by (simp add: written_path_def block_height_to_path_def)
  then have "unat h = unat h'" by (metis to_string_value)
  then show "h = h'" by (simp add: word_unat_eq_iff)
qed simp

text \<open>One round, and the file it writes.\<close>

lemma fetch_block_cached:
  assumes "fetch_block C s = Running (True, u)" and "cf_cache_enabled C"
  shows "\<exists>d f. sync_rpc_block (cf_mem C) d (sv_sync (ms_server s)) = Some (f, sv_sync (ms_server u))
    \<and> ms_files u = (ms_files s)(written_path (ms_height s) \<mapsto> f) \<and> ms_height u = ms_height s"
proof -
  let ?E = "cf_mem C"
  from assms obtain d b b' l srv h c where
    b: "read_block C d = Ok b" "block_sort b = Some b'"
    and p: "process_chain_block (cf_utxosync C) (ce_order ?E) False (blk_txs b') (ms_server s) = Some (l, srv)"
    and c: "block_sort (b'\<lparr>blk_txs := l\<rparr>) = Some c"
      "u = (next_attempt s)\<lparr>ms_server := srv, ms_hash := h, ms_files := cache_slp_file c (ms_height s) (ms_files s)\<rparr>"
    by (auto simp: fetch_block_def Let_def next_attempt_def split: res.splits option.splits if_splits)
  then have "sync_rpc_block ?E d (sv_sync (ms_server s)) = Some (cache_slp_block c, sv_sync srv)"
    using chain_block_sync [OF p] by (simp add: sync_rpc_block_def read_block_def)
  then show ?thesis using c(2) by (auto simp: cache_slp_file_def next_attempt_def)
qed

text \<open>A file read back on trust.\<close>

lemma load_height_trusted:
  assumes "ms_files v (cached_path (ms_height v)) = Some f" and "read_block C f = Ok b" and "\<not> cf_utxosync C"
    and "process_block (ce_order (cf_mem C)) True (blk_txs b) (sv_sync (ms_server v)) = VOk (l, y)"
  shows "\<exists>w. load_height C v = Running (Some w) \<and> sv_sync (ms_server w) = y \<and> ms_files w = ms_files v \<and> ms_height w = ms_height v"
  using assms by (simp add: load_height_def process_chain_block_def slpsync_process_block_def when_utxosync_def)

text \<open>A node that never fails: every fetch succeeds, or the process dies.\<close>

definition never_fails :: "main_config \<Rightarrow> bool" where
  "never_fails C \<longleftrightarrow> (\<forall>s u. fetch_block C s \<noteq> Running (False, u))"

lemma catch_up_round:
  assumes "never_fails C" and "ms_height s \<le> best" and "rpc_loop C (Some best) s = Some (Running s')"
  obtains u where "fetch_block C s = Running (True, u)" "rpc_loop C (Some best) (u\<lparr>ms_height := ms_height u + 1\<rparr>) = Some (Running s')"
proof (cases "fetch_block C s")
  case (Running oku)
  obtain ok u where oku: "oku = (ok, u)" by (cases oku)
  have ok using assms(1) Running oku by (cases ok) (simp_all add: never_fails_def)
  then have u: "fetch_block C s = Running (True, u)" using Running oku by simp
  have "rpc_loop C (Some best) s = rpc_loop C (Some best) (u\<lparr>ms_height := ms_height u + 1\<rparr>)"
    using assms(2) u by (subst rpc_loop.simps) simp
  with assms(3) u that show thesis by simp
qed (use assms(2,3) in \<open>subst (asm) rpc_loop.simps, simp\<close>)+

lemma catch_up_end: "\<not> ms_height s \<le> best \<Longrightarrow> rpc_loop C (Some best) s = Some (Running (s\<lparr>ms_height := ms_height s - 1\<rparr>))"
  by (subst rpc_loop.simps) simp

lemma sint_small:
  assumes "unat (h :: u32) < 2147483648"
  shows "0 \<le> sint h"
proof -
  have "uint h < 2147483648" using assms by (metis of_nat_less_iff of_nat_numeral uint_nat)
  then have "sint h = uint h"
    unfolding sint_uint by (intro signed_take_bit_int_eq_self order_trans [OF _ uint_ge_0]) simp_all
  then show ?thesis using uint_ge_0 [of h] by presburger
qed

lemma next_height:
  assumes "(h :: u32) \<le> best" and "best < 0x7FFFFFFF"
  shows "unat (h + 1) = unat h + 1" "unat best + 1 - unat (h + 1) = unat best - unat h" "h + 1 \<le> best + 1" "0 \<le> sint h"
    "unat best + 1 - unat h = Suc (unat best - unat h)"
proof -
  have h: "unat h \<le> unat best" "unat best < 0x7FFFFFFF" using assms by (simp_all add: word_le_nat_alt word_less_nat_alt)
  then show n: "unat (h + 1) = unat h + 1" by (simp add: unat_word_ariths)
  have "unat (best + 1) = unat best + 1" using h(2) by (simp add: unat_word_ariths)
  with n h(1) show "h + 1 \<le> best + 1" by (simp add: word_le_nat_alt)
  show "unat best + 1 - unat (h + 1) = unat best - unat h" "unat best + 1 - unat h = Suc (unat best - unat h)"
    unfolding n using h(1) by (simp_all add: Suc_diff_le)
  show "0 \<le> sint h" by (rule sint_small) (use h in linarith)
qed

lemma catch_up_files:
  assumes "never_fails C" and "cf_cache_enabled C" and "best < 0x7FFFFFFF"
  shows "rpc_loop C (Some best) s = Some (Running s') \<Longrightarrow> (\<And>h. ms_height s \<le> h \<Longrightarrow> h \<le> best \<Longrightarrow> p \<noteq> written_path h)
    \<Longrightarrow> ms_files s' p = ms_files s p"
proof (induction "unat best + 1 - unat (ms_height s)" arbitrary: s)
  case 0
  then have "\<not> ms_height s \<le> best" by (simp add: word_le_nat_alt)
  with catch_up_end [OF this, of C] 0(2) show ?case by auto
next
  case (Suc n)
  then have le: "ms_height s \<le> best" by (simp add: word_le_nat_alt)
  obtain u where u: "fetch_block C s = Running (True, u)" "rpc_loop C (Some best) (u\<lparr>ms_height := ms_height u + 1\<rparr>) = Some (Running s')"
    using catch_up_round [OF assms(1) le Suc.prems(1)] .
  then obtain f where f: "ms_files u = (ms_files s)(written_path (ms_height s) \<mapsto> f)" "ms_height u = ms_height s"
    using fetch_block_cached [OF u(1) assms(2)] by blast
  have "p \<noteq> written_path h" if "ms_height s + 1 \<le> h" "h \<le> best" for h
    using that Suc.prems(2) [of h] next_height(1) [OF le assms(3)] by (simp add: word_le_nat_alt)
  then have "ms_files s' p = ms_files u p"
    using Suc.hyps(1) [of "u\<lparr>ms_height := ms_height u + 1\<rparr>"] u(2) f(2) Suc.hyps(2) next_height(2,5) [OF le assms(3)] by simp
  then show ?case using f(1) Suc.prems(2) [of "ms_height s"] le by simp
qed


text \<open>While the first server catches up, its files carry a second one along.\<close>

lemma catch_up_load:
  assumes "never_fails C" and "cf_cache_enabled C" and "best < 0x7FFFFFFF" and "cache_env_ok sha256 unset (cf_mem C)"
    and C': "C' = C\<lparr>cf_mem := E\<rparr>" "cache_env_ok sha256 unset E" "\<not> cf_utxosync C"
  shows "rpc_loop C (Some best) s = Some (Running s') \<Longrightarrow> ms_height s \<le> best + 1 \<Longrightarrow> ms_files s (written_path (best + 1)) = None
    \<Longrightarrow> sync_reach (sv_sync (ms_server s), T) \<Longrightarrow> restarted F (sv_sync (ms_server s)) (sv_sync (ms_server v))
    \<Longrightarrow> ms_height v = ms_height s \<Longrightarrow> ms_files v = ms_files s'
    \<Longrightarrow> \<exists>w. cache_loop C' v = Some (Running w) \<and> ms_height w = best \<and> ms_height s' = best
      \<and> restarted F (sv_sync (ms_server s')) (sv_sync (ms_server w)) \<and> sync_reach (sv_sync (ms_server s'), T)"
proof (induction "unat best + 1 - unat (ms_height s)" arbitrary: s v)
  case 0
  have n: "\<not> ms_height s \<le> best" using 0(1) by (simp add: word_le_nat_alt)
  have b1: "unat (best + 1) = unat best + 1" using next_height(1) [OF order_refl assms(3)] .
  then have h: "ms_height s = best + 1" using n 0(3) by (simp add: word_le_nat_alt word_unat_eq_iff)
  have s': "s' = s\<lparr>ms_height := best\<rparr>" using catch_up_end [OF n, of C] 0(2) h by simp
  have "unat best < 0x7FFFFFFF" using assms(3) by (simp add: word_less_nat_alt)
  with b1 have "cached_path (best + 1) = written_path (best + 1)" by (intro path_eq sint_small) linarith
  then have "cache_loop C' v = Some (Running (v\<lparr>ms_height := best\<rparr>))"
    using 0(4,7,8) h s' by (subst cache_loop.simps) (simp add: load_height_def)
  then show ?case using 0(5,6) s' by simp
next
  case (Suc n)
  then have le: "ms_height s \<le> best" by (simp add: word_le_nat_alt)
  note nh = next_height [OF le assms(3)]
  obtain u where u: "fetch_block C s = Running (True, u)" "rpc_loop C (Some best) (u\<lparr>ms_height := ms_height u + 1\<rparr>) = Some (Running s')"
    using catch_up_round [OF assms(1) le Suc.prems(1)] .
  then obtain d f where f: "sync_rpc_block (cf_mem C) d (sv_sync (ms_server s)) = Some (f, sv_sync (ms_server u))"
    "ms_files u = (ms_files s)(written_path (ms_height s) \<mapsto> f)" "ms_height u = ms_height s"
    using fetch_block_cached [OF u(1) assms(2)] by blast
  let ?u = "u\<lparr>ms_height := ms_height u + 1\<rparr>"
  have "written_path (ms_height s) \<noteq> written_path h" if "ms_height ?u \<le> h" for h
    using that nh(1) f(3) by (auto simp: written_path_inj word_le_nat_alt)
  then have "ms_files s' (written_path (ms_height s)) = Some f"
    using catch_up_files [OF assms(1-3) u(2)] f(2) by simp
  then have stored: "ms_files v (cached_path (ms_height v)) = Some f" using Suc.prems(6,7) nh(4) by (simp add: path_eq)
  obtain b l y where b: "read_block C' f = Ok b"
    "process_block (ce_order (cf_mem C')) True (blk_txs b) (sv_sync (ms_server v)) = VOk (l, y)" "restarted F (sv_sync (ms_server u)) y"
    using restarted_step [OF Suc.prems(5) f(1) assms(4) Suc.prems(4) C'(2)] by (auto simp: read_block_def C'(1))
  obtain w where w: "load_height C' v = Running (Some w)" "sv_sync (ms_server w) = y" "ms_files w = ms_files v" "ms_height w = ms_height v"
    using load_height_trusted [OF stored b(1) _ b(2)] C'(1,3) by auto
  have reach: "sync_reach (sv_sync (ms_server u), T)"
    using sync_rpc_block_cached [OF f(1) assms(4) Suc.prems(4) assms(4)] by blast
  have other: "ms_files ?u (written_path (best + 1)) = None"
    using Suc.prems(3) f(2) le next_height(1) [OF order_refl assms(3)] by (auto simp: written_path_inj word_le_nat_alt)
  let ?w = "w\<lparr>ms_height := ms_height w + 1\<rparr>"
  have "\<exists>x. cache_loop C' ?w = Some (Running x) \<and> ms_height x = best \<and> ms_height s' = best
      \<and> restarted F (sv_sync (ms_server s')) (sv_sync (ms_server x)) \<and> sync_reach (sv_sync (ms_server s'), T)"
    using Suc.hyps(2) nh f(3) reach b(3) w Suc.prems(6,7) other
    by (intro Suc.hyps(1) [OF _ u(2)]) simp_all
  moreover have "cache_loop C' v = cache_loop C' ?w" using w(1) by (subst cache_loop.simps) simp
  ultimately show ?case by simp
qed


text \<open>C28: what a restart from the cache gives back: take a server without the UTXO database that starts with an
  empty cache at a configured height of at least 1 that the chain has reached, fetches its blocks from a node
  that never fails, and catches up. When it starts again on the files it wrote, with hash maps in any order,
  loading the cache succeeds and ends at the height the first run ended at. The server then holds the same
  transactions valid, stores exactly these, and has the same graph of confirmed transactions, except
  for the transactions of one file: finding no cached block, the first start steps back to the height below
  the configured one and writes that block too, but a later start begins reading at the configured
  height and never loads it. Its transactions are gone, and with them the links to them. When
  that file is empty, every search over the confirmed graph gives the same reply. A node that fails
  once would make the loop step back and write the file of a known block again, without its transactions.\<close>

theorem cache_restart:
  assumes "cf_cache_enabled C" and "cf_graphsearch C" and "cf_graphsearch_rpc C" and "\<not> cf_utxosync C" and "never_fails C"
    and "cache_env_ok sha256 unset (cf_mem C)" and "cache_env_ok sha256 unset E"
    and "ms_files s0 = Map.empty" and "ms_server s0 = server_new"
    and "get_blockchain_info (cf_node C (ms_attempt s0)) 0 = Ok (Some info)"
    and "1 \<le> cf_block_height C" and "cf_block_height C \<le> best_block_height info" and "best_block_height info < 0x7FFFFFFF"
    and "sync_chain C s0 = Some (Running s)"
    and "ms_files v = ms_files s" and "ms_server v = server_new" and "ms_height v = cf_block_height C"
    and "F = (case ms_files s (written_path (cf_block_height C - 1)) of Some f \<Rightarrow> file_ids C f | None \<Rightarrow> {})"
  shows "\<exists>w. cache_loop (C\<lparr>cf_mem := E\<rparr>) v = Some (Running w) \<and> ms_height w = ms_height s
    \<and> valid_txids (ms_validator w) = valid_txids (ms_validator s) - F
    \<and> transaction_map (ms_validator w) = transaction_map (ms_validator s) |` (valid_txids (ms_validator s) - F)
    \<and> cut_graph F (sy_g (sv_sync (ms_server s))) (sy_g (sv_sync (ms_server w)))
    \<and> (F = {} \<longrightarrow> (\<forall>t X. graph_search_ptr (sy_g (sv_sync (ms_server w))) t X = graph_search_ptr (sy_g (sv_sync (ms_server s))) t X))"
proof -
  let ?H = "cf_block_height C" and ?best = "best_block_height info"
  let ?s = "(next_attempt (s0\<lparr>ms_height := ?H - 1\<rparr>))\<lparr>ms_network := network info, ms_prefix := network_prefixes (network info)\<rparr>"
  have H: "unat (?H - 1) + 1 = unat ?H" "?H - 1 + 1 = ?H"
    using assms(11) by (simp_all add: unat_sub word_le_nat_alt)
  have le: "?H - 1 \<le> ?best" and ne: "?H - 1 \<noteq> ?best" using assms(12) H(1) by (auto simp: word_le_nat_alt)
  note nh = next_height [OF le assms(13)]
  have "cache_loop C (s0\<lparr>ms_height := ?H\<rparr>) = Some (Running (s0\<lparr>ms_height := ?H - 1\<rparr>))"
    using assms(8) by (subst cache_loop.simps) (simp add: load_height_def)
  then have "rpc_loop C None (s0\<lparr>ms_height := ?H - 1\<rparr>) = Some (Running s)" using assms(1-3,14) by (simp add: sync_chain_def)
  then have run: "rpc_loop C (Some ?best) ?s = Some (Running s)"
    using assms(10) ne by (subst (asm) rpc_loop.simps) (simp add: Let_def next_attempt_def)
  have start: "sv_sync (ms_server ?s) = sync_new" "ms_files ?s = Map.empty" "ms_height ?s = ?H - 1"
    using assms(8,9) by (simp_all add: next_attempt_def server_new_def)
  obtain u where u: "fetch_block C ?s = Running (True, u)" "rpc_loop C (Some ?best) (u\<lparr>ms_height := ms_height u + 1\<rparr>) = Some (Running s)"
    using catch_up_round [OF assms(5) _ run] le start(3) by auto
  obtain d f where f: "sync_rpc_block (cf_mem C) d sync_new = Some (f, sv_sync (ms_server u))"
    "ms_files u = [written_path (?H - 1) \<mapsto> f]" "ms_height u = ?H - 1"
    using fetch_block_cached [OF u(1) assms(1)] start by auto
  from restarted_first [OF f(1) assms(6)] obtain b where
    b: "sync_reach (sv_sync (ms_server u), {})" "read_block C f = Ok b" "restarted (txid ` set (blk_txs b)) (sv_sync (ms_server u)) sync_new"
    by (auto simp: read_block_def)
  let ?u = "u\<lparr>ms_height := ms_height u + 1\<rparr>"
  have "ms_files s (written_path (?H - 1)) = ms_files ?u (written_path (?H - 1))"
    by (rule catch_up_files [OF assms(5,1,13) u(2)]) (use f(3) H in \<open>auto simp: written_path_inj word_le_nat_alt\<close>)
  then have F: "F = txid ` set (blk_txs b)" using assms(18) f(2) b(2) by (simp add: file_ids_def)
  have "unat (?best + 1) \<noteq> unat (?H - 1)" using le next_height(1) [OF order_refl assms(13)] by (simp add: word_le_nat_alt)
  then have "?best + 1 \<noteq> ?H - 1" by metis
  then have none: "ms_files ?u (written_path (?best + 1)) = None" using f(2) by (simp add: written_path_inj)
  obtain w where w: "cache_loop (C\<lparr>cf_mem := E\<rparr>) v = Some (Running w)" "ms_height w = ?best" "ms_height s = ?best"
    "restarted F (sv_sync (ms_server s)) (sv_sync (ms_server w))" "sync_reach (sv_sync (ms_server s), {})"
    using catch_up_load [OF assms(5,1,13,6) refl assms(7,4) u(2) _ none, of "{}" F v] b(1,3) F f(3) assms(15-17) nh(3) H
    by (auto simp: server_new_def)
  have "txgraph_inv (sy_g (sv_sync (ms_server s)))" by (rule sync_reach_inv(1) [OF w(5)])
  then have "F = {} \<longrightarrow> graph_search_ptr (sy_g (sv_sync (ms_server w))) t X = graph_search_ptr (sy_g (sv_sync (ms_server s))) t X" for t X
    using cut_graph_search w(4) by (auto simp: restarted_def)
  with w show ?thesis by (auto simp: restarted_def)
qed


section \<open>Example\<close>

text \<open>A first start at height 5. The node serves the block with the transaction at every height, or an empty one first.\<close>

definition quiet_node :: node where
  "quiet_node = \<lparr>
     nd_post = (\<lambda>n req. Some (200, [2 + of_nat n])),
     nd_json = documented_json (\<lambda>body. Some (JsonArr [JsonObj [(''error'', JsonNull), (''result'',
       if body = [2] then JsonStr (gs_hex (replicate 32 7)) else JsonStr (gs_hex empty_file))]]))\<rparr>"

definition start_config :: "bool \<Rightarrow> main_config" where
  "start_config quiet = chain_config\<lparr>cf_node := (\<lambda>k. if quiet \<and> k = 1 then quiet_node else chain_node)\<rparr>"

definition start_state :: main_state where
  "start_state = chain_state\<lparr>ms_files := Map.empty\<rparr>"

lemma start_fields:
  "cf_cache_enabled (start_config q)" "cf_graphsearch (start_config q)" "cf_graphsearch_rpc (start_config q)"
  "\<not> cf_utxosync (start_config q)" "cf_mem (start_config q) = example_cache_env" "cf_block_height (start_config q) = 5"
  "cf_node (start_config q) k = (if q \<and> k = 1 then quiet_node else chain_node)" "read_block (start_config q) = read_block chain_config"
  by (simp_all add: start_config_def chain_config_def read_block_def fun_eq_iff)

lemma quiet_answers: "get_block_hash quiet_node 0 h = Ok (Some (replicate 32 7))" "get_raw_block quiet_node (Suc 0) hs = Ok (Some empty_file)"
  by (simp_all add: get_block_hash_def get_raw_block_def rpc_method_def rpc_query_def rpc_reply_def quiet_node_def doc_simps bhash_def
    bhash_hex_gs_hex unhex_gs_hex)

lemma start_block: "blk_txs example_block = [Block.example_tx]" "topological_sort [] = Some []"
  by (simp_all add: example_block_def Let_def topological_sort_def topological_sort_internal_def)

lemma start_never_fails: "never_fails (start_config q)"
proof -
  have "fetch_block (start_config q) s \<noteq> Running (False, u)" for s u
    by (cases "q \<and> ms_attempt s = 1")
      (simp_all add: fetch_block_def Let_def next_attempt_def start_fields chain_answers quiet_answers chain_read block_sort_def start_block
        sort_single split: option.split)
  then show ?thesis by (simp add: never_fails_def)
qed

text \<open>The three rounds: the first block, the block with the transaction, and the same block again.\<close>

lemma start_fetch:
  assumes "fetched = (if q \<and> ms_attempt s = 1 then [] else [Block.example_tx])"
    and "process_chain_block False example_order False fetched (ms_server s) = Some (l, srv)" and "l = [] \<or> l = [Block.example_tx]"
  shows "\<exists>u. fetch_block (start_config q) s = Running (True, u) \<and> ms_server u = srv \<and> ms_height u = ms_height s
    \<and> ms_attempt u = Suc (ms_attempt s)
    \<and> ms_files u = (ms_files s)(written_path (ms_height s) \<mapsto> block_serialize (example_block\<lparr>blk_txs := l\<rparr>))"
  using assms
  by (auto simp: fetch_block_def Let_def next_attempt_def start_fields chain_answers quiet_answers chain_read block_sort_def start_block
        sort_single cache_slp_file_def cache_slp_block_def example_cache_env_def split: if_splits)


definition start_holds :: "main_state \<Rightarrow> bool" where
  "start_holds s \<longleftrightarrow> validator_has (ms_validator s) (txid Block.example_tx) \<and> valid_txids (ms_validator s) = {txid Block.example_tx}"

lemma start_process:
  "sv_sync srv0 = sync_new \<Longrightarrow> \<exists>srv. process_chain_block False example_order False [] srv0 = Some ([], srv) \<and> sv_sync srv = sync_new"
  "sv_sync srv0 = sync_new \<Longrightarrow> \<exists>srv. process_chain_block False example_order False [Block.example_tx] srv0 = Some ([Block.example_tx], srv)
     \<and> validator_has (sv_validator srv) (txid Block.example_tx) \<and> valid_txids (sv_validator srv) = {txid Block.example_tx}"
proof -
  assume new: "sv_sync srv0 = sync_new"
  have "example_order {} = []" using example_order_enumerates unfolding enumerates_def by (metis finite.emptyI set_empty)
  then have "insert_valid example_order Map.empty txgraph_new = txgraph_new" by (simp add: insert_valid_def)
  then show "\<exists>srv. process_chain_block False example_order False [] srv0 = Some ([], srv) \<and> sv_sync srv = sync_new"
    using new by (simp add: process_chain_block_def slpsync_process_block_def when_utxosync_def process_block_def sync_new_def)
  obtain W where W: "add_tx 2 Block.example_tx False validator_new = VOk (True, W)" using example_accepted by blast
  then have "validator_has W (txid Block.example_tx)" "valid_txids W = {txid Block.example_tx}"
    using add_tx_new [OF W] by (simp_all add: validator_has_def validator_new_def)
  then show "\<exists>srv. process_chain_block False example_order False [Block.example_tx] srv0 = Some ([Block.example_tx], srv)
     \<and> validator_has (sv_validator srv) (txid Block.example_tx) \<and> valid_txids (sv_validator srv) = {txid Block.example_tx}"
    using W new by (simp add: process_chain_block_def slpsync_process_block_def when_utxosync_def process_block_def sync_new_def
      validator_has_def validator_new_def)
qed

lemma start_round:
  assumes "ms_height s \<le> 6" and "fetched = (if q \<and> ms_attempt s = 1 then [] else [Block.example_tx])"
    and "process_chain_block False example_order False fetched (ms_server s) = Some (l, srv)" and "l = [] \<or> l = [Block.example_tx]"
  shows "\<exists>u. rpc_loop (start_config q) (Some 6) s = rpc_loop (start_config q) (Some 6) u \<and> ms_server u = srv
    \<and> ms_height u = ms_height s + 1 \<and> ms_attempt u = Suc (ms_attempt s)
    \<and> ms_files u = (ms_files s)(written_path (ms_height s) \<mapsto> block_serialize (example_block\<lparr>blk_txs := l\<rparr>))"
proof -
  obtain u where u: "fetch_block (start_config q) s = Running (True, u)" "ms_server u = srv" "ms_height u = ms_height s"
    "ms_attempt u = Suc (ms_attempt s)"
    "ms_files u = (ms_files s)(written_path (ms_height s) \<mapsto> block_serialize (example_block\<lparr>blk_txs := l\<rparr>))"
    using start_fetch [OF assms(2-4)] by blast
  have "rpc_loop (start_config q) (Some 6) s = rpc_loop (start_config q) (Some 6) (u\<lparr>ms_height := ms_height u + 1\<rparr>)"
    using assms(1) u(1) by (subst rpc_loop.simps) simp
  with u(2-) show ?thesis by (intro exI [of _ "u\<lparr>ms_height := ms_height u + 1\<rparr>"]) simp
qed

lemma start_serialized:
  "block_serialize (example_block\<lparr>blk_txs := []\<rparr>) = empty_file"
  "block_serialize (example_block\<lparr>blk_txs := [Block.example_tx]\<rparr>) = block_serialize example_block"
proof -
  have "example_block\<lparr>blk_txs := [Block.example_tx]\<rparr> = example_block" using start_block(1) by simp
  then show "block_serialize (example_block\<lparr>blk_txs := [Block.example_tx]\<rparr>) = block_serialize example_block" by simp
qed (simp add: empty_file_def)

lemma start_quiet_round:
  assumes "ms_height s \<le> 6" and "ms_attempt s = 1" and "sv_sync (ms_server s) = sync_new"
  shows "\<exists>u. rpc_loop (start_config True) (Some 6) s = rpc_loop (start_config True) (Some 6) u
      \<and> sv_sync (ms_server u) = sync_new \<and> ms_height u = ms_height s + 1 \<and> ms_attempt u = Suc (ms_attempt s)
      \<and> ms_files u = (ms_files s)(written_path (ms_height s) \<mapsto> empty_file)"
  using start_process(1) [OF assms(3)] start_round [OF assms(1), of "[]" True "[]"] assms(2) by (fastforce simp: start_serialized)

lemma start_new_round:
  assumes "ms_height s \<le> 6" and "\<not> (q \<and> ms_attempt s = 1)" and "sv_sync (ms_server s) = sync_new"
  shows "\<exists>u. rpc_loop (start_config q) (Some 6) s = rpc_loop (start_config q) (Some 6) u
      \<and> start_holds u \<and> ms_height u = ms_height s + 1 \<and> ms_attempt u = Suc (ms_attempt s)
      \<and> ms_files u = (ms_files s)(written_path (ms_height s) \<mapsto> block_serialize example_block)"
  using start_process(2) [OF assms(3)] start_round [OF assms(1), of "[Block.example_tx]" q "[Block.example_tx]"] assms(2)
  by (fastforce simp: start_serialized start_holds_def)

lemma start_known_round:
  assumes "ms_height s \<le> 6" and "\<not> (q \<and> ms_attempt s = 1)" and "start_holds s"
  shows "\<exists>u. rpc_loop (start_config q) (Some 6) s = rpc_loop (start_config q) (Some 6) u
      \<and> start_holds u \<and> ms_height u = ms_height s + 1 \<and> ms_attempt u = Suc (ms_attempt s)
      \<and> ms_files u = (ms_files s)(written_path (ms_height s) \<mapsto> empty_file)"
proof -
  have "\<forall>tx \<in> set [Block.example_tx]. validator_has (ms_validator s) (txid tx)" using assms(3) by (simp add: start_holds_def)
  from known_block [OF this, of example_order False] obtain srv where
    srv: "process_chain_block False example_order False [Block.example_tx] (ms_server s) = Some ([], srv)" "sv_validator srv = ms_validator s"
    by blast
  have fetched: "[Block.example_tx] = (if q \<and> ms_attempt s = 1 then [] else [Block.example_tx])" using assms(2) by auto
  from start_round [OF assms(1) fetched srv(1)] obtain u where u:
    "rpc_loop (start_config q) (Some 6) s = rpc_loop (start_config q) (Some 6) u" "ms_server u = srv" "ms_height u = ms_height s + 1"
    "ms_attempt u = Suc (ms_attempt s)" "ms_files u = (ms_files s)(written_path (ms_height s) \<mapsto> empty_file)"
    by (auto simp: start_serialized)
  moreover from u(2) have "start_holds u" using assms(3) srv(2) by (simp add: start_holds_def)
  ultimately show ?thesis by blast
qed

lemma start_run:
  "\<exists>s. sync_chain (start_config q) start_state = Some (Running s) \<and> valid_txids (ms_validator s) = {txid Block.example_tx}
    \<and> ms_files s (written_path 4) = Some (if q then empty_file else block_serialize example_block)"
proof -
  let ?C = "start_config q" and ?s = "(next_attempt (start_state\<lparr>ms_height := 4\<rparr>))\<lparr>ms_network := ascii ''main'', ms_prefix := network_prefixes (ascii ''main'')\<rparr>"
  have s: "sv_sync (ms_server ?s) = sync_new" "ms_attempt ?s = 1" "ms_height ?s = 4" "ms_files ?s = Map.empty"
    by (simp_all add: start_state_def chain_state_def next_attempt_def server_new_def)
  have "cache_loop ?C (start_state\<lparr>ms_height := 5\<rparr>) = Some (Running (start_state\<lparr>ms_height := 4\<rparr>))"
    by (subst cache_loop.simps) (simp add: load_height_def start_state_def)
  moreover have "rpc_loop ?C None (start_state\<lparr>ms_height := 4\<rparr>) = rpc_loop ?C (Some 6) ?s"
    by (subst rpc_loop.simps) (simp add: start_fields chain_answers Let_def start_state_def chain_state_def next_attempt_def)
  ultimately have run: "sync_chain ?C start_state = rpc_loop ?C (Some 6) ?s" by (simp add: sync_chain_def start_fields)
  obtain u where u: "rpc_loop ?C (Some 6) ?s = rpc_loop ?C (Some 6) u" "if q then sv_sync (ms_server u) = sync_new else start_holds u"
      "ms_height u = 5" "ms_attempt u = 2" "ms_files u (written_path 4) = Some (if q then empty_file else block_serialize example_block)"
    using start_quiet_round [of ?s] start_new_round [of ?s False] s by (cases q) fastforce+
  obtain x where x: "rpc_loop ?C (Some 6) u = rpc_loop ?C (Some 6) x" "start_holds x" "ms_height x = 6" "ms_attempt x = 3"
      "ms_files x (written_path 4) = ms_files u (written_path 4)"
    using start_new_round [of u True] start_known_round [of u False] u(2-4) by (cases q) (fastforce simp: written_path_inj)+
  obtain y where y: "rpc_loop ?C (Some 6) x = rpc_loop ?C (Some 6) y" "start_holds y" "ms_height y = 7"
    "ms_files y (written_path 4) = ms_files x (written_path 4)"
    using start_known_round [of x q] x(2-4) by (fastforce simp: written_path_inj)
  have "rpc_loop ?C (Some 6) y = Some (Running (y\<lparr>ms_height := 6\<rparr>))" using catch_up_end [of y 6 ?C] y(3) by simp
  with run u(1,5) x(1,5) y show ?thesis by (auto simp: start_holds_def)
qed

text \<open>The transaction survives the restart when the first block is empty, and is lost when it comes with the first block.\<close>

theorem cache_restart_witness:
  "\<forall>q. \<exists>s w. sync_chain (start_config q) start_state = Some (Running s) \<and> valid_txids (ms_validator s) = {txid Block.example_tx}
     \<and> cache_loop (start_config q) (start_state\<lparr>ms_files := ms_files s\<rparr>) = Some (Running w)
     \<and> valid_txids (ms_validator w) = (if q then {txid Block.example_tx} else {})"
proof
  fix q
  obtain s where s: "sync_chain (start_config q) start_state = Some (Running s)" "valid_txids (ms_validator s) = {txid Block.example_tx}"
    "ms_files s (written_path 4) = Some (if q then empty_file else block_serialize example_block)" using start_run by blast
  have env: "cache_env_ok id (0, 0, 0) (cf_mem (start_config q))"
    by (simp add: start_fields cache_env_ok_def example_cache_env_def example_order_enumerates)
  have "(start_config q)\<lparr>cf_mem := cf_mem (start_config q)\<rparr> = start_config q" by simp
  then have same: "(start_config q)\<lparr>cf_mem := example_cache_env\<rparr> = start_config q" by (simp only: start_fields)
  have F: "(case ms_files s (written_path (cf_block_height (start_config q) - 1)) of Some f \<Rightarrow> file_ids (start_config q) f | None \<Rightarrow> {})
      = (if q then {} else {txid Block.example_tx})"
    using s(3) by (simp add: start_fields file_ids_def chain_read start_block)
  obtain w where "cache_loop (start_config q) (start_state\<lparr>ms_files := ms_files s\<rparr>) = Some (Running w)"
    "valid_txids (ms_validator w) = valid_txids (ms_validator s) - (if q then {} else {txid Block.example_tx})"
    using cache_restart [OF start_fields(1-4) start_never_fails env env _ _ _ _ _ _ s(1), of "\<lparr>network = ascii ''main'', best_block_height = 6\<rparr>"
      "start_state\<lparr>ms_files := ms_files s\<rparr>", OF _ _ _ _ _ _ _ _ _ F [symmetric]]
    by (auto simp: same start_fields chain_answers start_state_def chain_state_def)
  with s show "\<exists>s w. sync_chain (start_config q) start_state = Some (Running s) \<and> valid_txids (ms_validator s) = {txid Block.example_tx}
     \<and> cache_loop (start_config q) (start_state\<lparr>ms_files := ms_files s\<rparr>) = Some (Running w)
     \<and> valid_txids (ms_validator w) = (if q then {txid Block.example_tx} else {})" by (cases q) auto
qed

end
