(* ===== verification/CacheBurn.thy ===== *)
theory CacheBurn
  imports TokenService
begin

text \<open>
  The cache and the database of outputs. \<open>main\<close> of \<open>server/gs++.cpp\<close> hands every fetched block with all
  its transactions to the database, twice; the cache keeps only the transactions the block made
  valid, and after a restart only those reach the database. Here both runs are lists of blocks, and
  the theorem says what the difference is: an output burnt by a transaction the cache does not keep
  is unspent again.
\<close>

section \<open>Runs over blocks\<close>

text \<open>The blocks with the order of the hash maps for each, and the valid transactions of each block.\<close>

fun chain_run :: "bool \<Rightarrow> ((tokenid set \<Rightarrow> tokenid list) \<times> transaction list) list \<Rightarrow> server \<Rightarrow> (transaction list list \<times> server) option" where
  "chain_run trusted [] s = Some ([], s)"
| "chain_run trusted ((ord, txs) # bs) s = Option.bind (process_chain_block True ord trusted txs s) (\<lambda>(l, s).
     Option.bind (chain_run trusted bs s) (\<lambda>(ls, s). Some (l # ls, s)))"

section \<open>The outputs after a run\<close>

definition created :: "transaction list \<Rightarrow> outpoint set" where
  "created txs = (case block_outputs txs of Ok os \<Rightarrow> block_added os | _ \<Rightarrow> {})"

definition block_effect :: "transaction list \<Rightarrow> outpoint set \<Rightarrow> outpoint set" where
  "block_effect txs U = (U \<union> created txs) - set (block_inputs txs)"

text \<open>Handing the block over twice is handing it over once.\<close>

lemma block_effect_idem: "block_effect txs (block_effect txs U) = block_effect txs U"
  by (auto simp: block_effect_def)

lemma when_utxosync_True: "when_utxosync True f b = Some c \<longleftrightarrow> f b = Ok c"
  by (cases "f b") (auto simp: when_utxosync_def)

lemma add_output_spent:
  "u_mempool_spent_confirmed_outpoints (fst (add_output m st)) \<subseteq> u_mempool_spent_confirmed_outpoints (fst st)"
  by (cases st) (auto simp: add_output_def Let_def)

lemma spend_input_spent:
  "u_mempool_spent_confirmed_outpoints (fst (fst (spend_input m st))) \<subseteq> u_mempool_spent_confirmed_outpoints (fst (fst st))"
proof -
  have "u_mempool_spent_confirmed_outpoints (fst (spend_confirmed m y)) \<subseteq> u_mempool_spent_confirmed_outpoints (fst y)" for y
    by (cases y) (auto simp: spend_confirmed_def split: option.split)
  moreover have "u_mempool_spent_confirmed_outpoints (fst (spend_mempool m y)) = u_mempool_spent_confirmed_outpoints (fst y)" for y
    by (cases y) (simp add: spend_mempool_def split: option.split)
  ultimately show ?thesis by (metis fst_conv spend_input_def)
qed

lemma fold_subset:
  assumes "\<And>m st. f (g m st) \<subseteq> f st"
  shows "f (fold g ms st) \<subseteq> f st"
  by (induction ms arbitrary: st) (use assms in \<open>auto, blast\<close>)

lemma process_block_spent:
  assumes "bch_process_block txs save b = Ok b'"
  shows "u_mempool_spent_confirmed_outpoints (b_utxodb b') \<subseteq> u_mempool_spent_confirmed_outpoints (b_utxodb b)"
proof -
  let ?f = u_mempool_spent_confirmed_outpoints
  let ?d0 = "(b_utxodb b)\<lparr>u_current_block_height := u_current_block_height (b_utxodb b) + 1\<rparr>"
  from process_block_parts [OF assms] obtain os db1 added slp1 st where
    p: "fold add_output os (?d0, []) = (db1, added)" "st = fold spend_input (block_inputs txs) ((db1, []), slp1)"
    and u: "b_utxodb b' = (let db = fst (fst st) in if save then db\<lparr>
         u_last_block_added := push_rollback added (u_last_block_added db),
         u_last_block_removed := push_rollback (snd (fst st)) (u_last_block_removed db)\<rparr> else db)" by blast
  have "?f (b_utxodb b') = ?f (fst (fst st))" by (simp add: u Let_def)
  moreover have "?f (fst (fst st)) \<subseteq> ?f db1"
    using fold_subset [of "\<lambda>st. ?f (fst (fst st))" spend_input, OF spend_input_spent, of "block_inputs txs" "((db1, []), slp1)"] p(2) by simp
  moreover have "?f db1 \<subseteq> ?f (b_utxodb b)"
    using fold_subset [of "\<lambda>st. ?f (fst st)" add_output, OF add_output_spent, of os "(?d0, [])"] p(1) by simp
  ultimately show ?thesis by simp
qed

lemma chain_block_effect:
  assumes "process_chain_block True ord trusted txs s = Some (l, s')" and "utxo_ok (output_named X) (sv_utxodb s)"
    and "list_all (placed_tx X) txs"
  shows "utxo_ok (output_named X) (sv_utxodb s') \<and> utxo_set (sv_bch s') = block_effect txs (utxo_set (sv_bch s))
    \<and> u_mempool_outpoint_map (sv_utxodb s') \<subseteq>\<^sub>m u_mempool_outpoint_map (sv_utxodb s)
    \<and> u_mempool_spent_confirmed_outpoints (sv_utxodb s') \<subseteq> u_mempool_spent_confirmed_outpoints (sv_utxodb s)
    \<and> (\<exists>os. block_outputs txs = Ok os)"
proof -
  have g: "\<forall>tx \<in> set txs. genuine_tx (output_named X) tx" using assms(3) by (auto simp: list_all_iff placed_genuine)
  obtain s1 where s1: "slpsync_process_block True ord trusted txs s = Some (l, s1)"
    and b2: "bch_process_block txs True (sv_bch s1) = Ok (sv_bch s')"
    using assms(1) by (auto simp: process_chain_block_def when_utxosync_True bind_eq_Some_conv)
  have b1: "bch_process_block txs True (sv_bch s) = Ok (sv_bch s1)"
    using s1 by (cases "process_block ord trusted txs (sv_sync s)")
      (auto simp: slpsync_process_block_def when_utxosync_def bind_eq_Some_conv split: res.splits)
  note 1 = process_block_ok [OF assms(2) g b1]
  note 2 = process_block_ok [OF conjunct1 [OF 1] g b2]
  have "utxo_set (sv_bch s') = block_effect txs (block_effect txs (utxo_set (sv_bch s)))"
    using 1 2 by (auto simp: block_effect_def created_def)
  then show ?thesis
    using 2 process_block_mempool [OF b1] process_block_mempool [OF b2] process_block_spent [OF b1] process_block_spent [OF b2]
    by (auto simp: block_effect_idem intro: map_le_trans)
qed

lemma chain_run_effect:
  assumes "chain_run trusted bs s = Some (ls, s')" and "utxo_ok (output_named X) (sv_utxodb s)"
    and "\<forall>b \<in> set bs. list_all (placed_tx X) (snd b)"
  shows "utxo_ok (output_named X) (sv_utxodb s') \<and> utxo_set (sv_bch s') = fold block_effect (map snd bs) (utxo_set (sv_bch s))
    \<and> u_mempool_outpoint_map (sv_utxodb s') \<subseteq>\<^sub>m u_mempool_outpoint_map (sv_utxodb s)
    \<and> u_mempool_spent_confirmed_outpoints (sv_utxodb s') \<subseteq> u_mempool_spent_confirmed_outpoints (sv_utxodb s)
    \<and> (\<forall>b \<in> set bs. \<exists>os. block_outputs (snd b) = Ok os)"
  using assms
proof (induction bs arbitrary: s ls)
  case (Cons b bs)
  obtain ord txs where b: "b = (ord, txs)" by (cases b)
  with Cons.prems(1) obtain l s1 ls1 where s1: "process_chain_block True ord trusted txs s = Some (l, s1)"
    and r: "chain_run trusted bs s1 = Some (ls1, s')" by (auto simp: bind_eq_Some_conv)
  note e = chain_block_effect [OF s1 Cons.prems(2)]
  have "list_all (placed_tx X) txs" using Cons.prems(3) by (simp add: b)
  note e = e [OF this]
  note i = Cons.IH [OF r conjunct1 [OF e]]
  have "\<forall>b \<in> set bs. list_all (placed_tx X) (snd b)" using Cons.prems(3) by simp
  note i = i [OF this]
  have "u_mempool_outpoint_map (sv_utxodb s') \<subseteq>\<^sub>m u_mempool_outpoint_map (sv_utxodb s)"
    using e i map_le_trans by blast
  with e i show ?case by (auto simp: b)
qed simp

text \<open>An output that is created and not spent stays; one that is spent and not created stays away.\<close>

lemma effect_keeps: "p \<in> U \<Longrightarrow> \<forall>txs \<in> set bs. p \<notin> set (block_inputs txs) \<Longrightarrow> p \<in> fold block_effect bs U"
  by (induction bs arbitrary: U) (simp_all add: block_effect_def)

lemma effect_created:
  assumes "txs \<in> set bs" and "p \<in> created txs" and "\<forall>txs \<in> set bs. p \<notin> set (block_inputs txs)"
  shows "p \<in> fold block_effect bs U"
proof -
  obtain xs ys where bs: "bs = xs @ txs # ys" using assms(1) split_list by fast
  have "p \<in> block_effect txs (fold block_effect xs U)" using assms(2,3) bs by (simp add: block_effect_def)
  then show ?thesis using effect_keeps [of p _ ys] assms(3) by (simp add: bs)
qed

lemma effect_gone: "p \<notin> U \<Longrightarrow> \<forall>txs \<in> set bs. p \<notin> created txs \<Longrightarrow> p \<notin> fold block_effect bs U"
  by (induction bs arbitrary: U) (simp_all add: block_effect_def)

lemma created_in: "block_outputs txs = Ok os \<Longrightarrow> tx \<in> set txs \<Longrightarrow> p \<in> created [tx] \<Longrightarrow> p \<in> created txs"
  by (induction txs arbitrary: os) (auto simp: created_def res_bind_Ok block_added_def)

text \<open>Members of related lists.\<close>

lemma list_all2_member_fst: "list_all2 P xs ys \<Longrightarrow> x \<in> set xs \<Longrightarrow> \<exists>y \<in> set ys. P x y"
  by (induction rule: list_all2_induct) auto

lemma list_all2_member_snd: "list_all2 P xs ys \<Longrightarrow> y \<in> set ys \<Longrightarrow> \<exists>x \<in> set xs. P x y"
  by (induction rule: list_all2_induct) auto

text \<open>C8: burnt tokens come back: a server ran over blocks from the node, of which one holds a transaction
  that spends a token output without being a valid token transaction, and a second server starts
  from all the transactions the first one cached, in any order within a block. When it has loaded them, and
  has not asked the node for more yet, the first server no
  longer finds the output; the second one has it in its table and lists it for the script it once
  paid.\<close>

theorem restart_revives_burnt:
  assumes "chain_run False (bs1 @ (ord, txs) # bs2) server_new = Some (ls, s)"
    and "chain_run True cs server_new = Some (ls', u)" and "list_all2 (\<lambda>l c. set (snd c) = set l) ls cs"
    and "\<forall>b \<in> set (bs1 @ (ord, txs) # bs2) \<union> set cs. list_all (placed_tx X) (snd b)"
    and "p \<in> set (block_inputs txs)" and "\<forall>b \<in> set bs2. p \<notin> created (snd b)"
    and "l \<in> set ls" and "tx \<in> set l" and "p \<in> created [tx]" and "\<forall>l \<in> set ls. p \<notin> set (block_inputs l)"
  shows "lookup_outpoint (sv_utxodb s) p = None \<and> lookup_outpoint (sv_utxodb u) p = Some (output_named X p)
    \<and> output_named X p \<in> set (entries (u_scriptpubkey_to_output (sv_utxodb u)) (out_script (output_named X p)))"
proof -
  have new: "utxo_ok (output_named X) (sv_utxodb server_new)" "utxo_set (sv_bch server_new) = {}"
    "u_mempool_outpoint_map (sv_utxodb server_new) = Map.empty" "u_mempool_spent_confirmed_outpoints (sv_utxodb server_new) = {}"
    by (simp_all add: server_new_def bch_new_def utxo_ok_new) (simp_all add: utxo_set_def utxodb_new_def)
  have pl1: "\<forall>b \<in> set (bs1 @ (ord, txs) # bs2). list_all (placed_tx X) (snd b)" using assms(4) by blast
  note e1 = chain_run_effect [OF assms(1) new(1) pl1]
  have "utxo_set (sv_bch s) = fold block_effect (map snd bs2) (block_effect txs (fold block_effect (map snd bs1) {}))"
    and m: "u_mempool_outpoint_map (sv_utxodb s) = Map.empty"
    using e1 new(3) map_le_implies_dom_le [of "u_mempool_outpoint_map (sv_utxodb s)" Map.empty] by (auto simp: new(2))
  moreover have "p \<notin> block_effect txs U" for U using assms(5) by (simp add: block_effect_def)
  ultimately have "p \<notin> utxo_set (sv_bch s)" using effect_gone [of p _ "map snd bs2"] assms(6) by simp
  then have gone: "lookup_outpoint (sv_utxodb s) p = None" by (simp add: lookup_outpoint_def utxo_set_def domIff m)
  obtain c where c: "c \<in> set cs" "set (snd c) = set l"
    using list_all2_member_fst [OF assms(3,7)] by blast
  have ins: "\<forall>b \<in> set (map snd cs). p \<notin> set (block_inputs b)"
  proof
    fix b
    assume "b \<in> set (map snd cs)"
    then obtain d where "d \<in> set cs" "b = snd d" by auto
    then obtain l' where "l' \<in> set ls" "set b = set l'" using list_all2_member_snd [OF assms(3)] by blast
    then have "set (block_inputs b) = set (block_inputs l')" by (simp add: block_inputs_def)
    with assms(10) \<open>l' \<in> set ls\<close> show "p \<notin> set (block_inputs b)" by simp
  qed
  have pl: "\<forall>b \<in> set cs. list_all (placed_tx X) (snd b)" using assms(4) by blast
  note e = chain_run_effect [OF assms(2) new(1) pl]
  obtain os where "block_outputs (snd c) = Ok os" using e c(1) by blast
  then have "p \<in> created (snd c)" using created_in assms(8,9) c(2) by blast
  then have "p \<in> utxo_set (sv_bch u)" using effect_created [of "snd c" "map snd cs" p] c(1) ins e by (simp add: new(2))
  then obtain x where x: "u_outpoint_map (sv_utxodb u) p = Some x" by (auto simp: utxo_set_def)
  have ok: "utxo_ok (output_named X) (sv_utxodb u)" and sp: "u_mempool_spent_confirmed_outpoints (sv_utxodb u) = {}" using e new(4) by auto
  have "x = output_named X p" using ok x table_ok_D unfolding utxo_ok_def by blast
  moreover have "x \<in> set (entries (u_scriptpubkey_to_output (sv_utxodb u)) (out_script x))"
    using ok x unfolding utxo_ok_def index_complete_def by blast
  ultimately show ?thesis using gone x sp by (simp add: lookup_outpoint_def)
qed


section \<open>Examples\<close>

text \<open>A GENESIS, and a transaction without a message that spends its token output.\<close>

definition burn_tx :: transaction where
  "burn_tx = \<lparr>txid = replicate 32 3, version = 1, lock_time = 0, inputs = [\<lparr>op_txid = replicate 32 1, op_vout = 1\<rparr>], outputs = [],
     slp = slp_transaction_new 0, serialized = [4]\<rparr>"

definition burn_X :: "txid \<Rightarrow> transaction" where
  "burn_X t = (if t = replicate 32 1 then example_genesis_tx else burn_tx)"

lemma burn_placed: "placed_tx burn_X example_genesis_tx" "placed_tx burn_X burn_tx"
  using forged_placed(1) replicate_neq_sym
  by (auto simp: placed_tx_def burn_X_def forged_X_def burn_tx_def slp_wf_def slp_transaction_new_def MAX_TX_SIZE_def example_genesis_facts)

lemma genesis_outputs: "slp_outputs example_genesis_tx = Ok [outputs example_genesis_tx ! 1]"
  by (simp add: slp_outputs_def minting_outputs_def output_at_def example_defs)

lemma burn_bch: "\<exists>b'. bch_process_block txs True b = Ok b'" if "txs = [] \<or> txs = [example_genesis_tx] \<or> txs = [burn_tx]"
proof -
  have n: "topological_sort [] = Some []" by (simp add: topological_sort_def topological_sort_internal_def)
  have "slp_outputs burn_tx = Ok []" by (simp add: slp_outputs_def burn_tx_def slp_transaction_new_def)
  then have "\<exists>b'. bch_process_block [burn_tx] True b = Ok b'" "\<exists>b'. bch_process_block [] True b = Ok b'"
    using process_block_total [of "[burn_tx]" "[]" "[]"] process_block_total [of "[]" "[]" "[]"]
    by (simp_all add: block_slp_txs_def n burn_tx_def slp_transaction_new_def)
  with that forged_bch(2) show ?thesis by blast
qed

lemma burn_block:
  assumes "process_block ord trusted txs (sv_sync s) = VOk (l, y)" and "txs = [] \<or> txs = [example_genesis_tx] \<or> txs = [burn_tx]"
  shows "\<exists>s'. process_chain_block True ord trusted txs s = Some (l, s') \<and> sv_sync s' = y"
proof -
  obtain b where b: "bch_process_block txs True (sv_bch s) = Ok b" using burn_bch [OF assms(2)] by blast
  obtain c where "bch_process_block txs True b = Ok c" using burn_bch [OF assms(2)] by blast
  then have "when_utxosync True (bch_process_block txs True) b = Some c" by (simp add: when_utxosync_True)
  then show ?thesis using block_steps [OF assms(1) b] by (simp add: process_chain_block_def)
qed

theorem restart_revives_burnt_witness:
  "\<exists>s u. chain_run False [(example_order, [example_genesis_tx]), (example_order, [burn_tx])] server_new = Some ([[example_genesis_tx], []], s)
     \<and> chain_run True [(example_order, [example_genesis_tx]), (example_order, [])] server_new = Some ([[example_genesis_tx], []], u)
     \<and> lookup_outpoint (sv_utxodb s) \<lparr>op_txid = replicate 32 1, op_vout = 1\<rparr> = None
     \<and> lookup_outpoint (sv_utxodb u) \<lparr>op_txid = replicate 32 1, op_vout = 1\<rparr> = Some (outputs example_genesis_tx ! 1)"
proof -
  let ?p = "\<lparr>op_txid = replicate 32 1, op_vout = 1\<rparr>"
  have g: "process_block example_order trusted [example_genesis_tx] (sv_sync server_new) = VOk ([example_genesis_tx], y) \<Longrightarrow>
      \<exists>s. process_chain_block True example_order trusted [example_genesis_tx] server_new = Some ([example_genesis_tx], s)" for trusted y
    using burn_block by blast
  obtain s1 where s1: "process_chain_block True example_order False [example_genesis_tx] server_new = Some ([example_genesis_tx], s1)"
    using g [of False] example_mined_step by (auto simp: server_new_def)
  have "add_tx 2 example_genesis_tx True validator_new = VOk (True, snd (add_valid_txid (txid example_genesis_tx) (with_tx example_genesis_tx validator_new)))"
    by (simp add: add_tx_unfold example_genesis_facts validator_new_def)
  then obtain y where "process_block example_order True [example_genesis_tx] (sv_sync server_new) = VOk ([example_genesis_tx], y)"
    by (simp add: process_block_def server_new_def sync_new_def validator_has_def validator_new_def)
  then obtain u1 where u1: "process_chain_block True example_order True [example_genesis_tx] server_new = Some ([example_genesis_tx], u1)"
    using g by blast
  have nb: "\<exists>y. process_block example_order False [burn_tx] z = VOk ([], y)" for z
    by (cases "validator_has (sy_validator z) (txid burn_tx)")
      (simp_all add: process_block_def add_tx_unfold burn_tx_def slp_transaction_new_def)
  obtain s where s: "process_chain_block True example_order False [burn_tx] s1 = Some ([], s)" using nb burn_block by blast
  have ne: "\<exists>y. process_block example_order True [] z = VOk ([], y)" for z by (simp add: process_block_def)
  obtain u where u: "process_chain_block True example_order True [] u1 = Some ([], u)" using ne burn_block by blast
  let ?bs = "[(example_order, [example_genesis_tx])] @ (example_order, [burn_tx]) # []"
  let ?cs = "[(example_order, [example_genesis_tx]), (example_order, [])]"
  have r: "chain_run False ?bs server_new = Some ([[example_genesis_tx], []], s)" "chain_run True ?cs server_new = Some ([[example_genesis_tx], []], u)"
    using s1 s u1 u by simp_all
  have c: "?p \<in> created [example_genesis_tx]"
  proof -
    have "?p = outpoint_of (outputs example_genesis_tx ! 1)" "\<not> is_op_return (outputs example_genesis_tx ! 1)"
      by (simp_all add: example_genesis_tx_def outpoint_of_def is_op_return_def)
    then show ?thesis by (simp add: created_def genesis_outputs block_added_def)
  qed
  have "lookup_outpoint (sv_utxodb s) ?p = None \<and> lookup_outpoint (sv_utxodb u) ?p = Some (output_named burn_X ?p)"
    using restart_revives_burnt [OF r, of burn_X ?p "[example_genesis_tx]" example_genesis_tx] burn_placed c
    by (simp add: block_inputs_def burn_tx_def) (simp add: example_defs)
  moreover have "output_named burn_X ?p = outputs example_genesis_tx ! 1" by (simp add: output_named_def burn_X_def)
  ultimately show ?thesis using r by auto
qed

end
