(* ===== verification/Spec2Isabelle.thy ===== *)
theory Spec2Isabelle
  imports RestEventLoop FuzzDrivers GraphService Rollback RestBridge SlpdbSearch CacheRestart CacheBurn
begin

text \<open>
  A verification library for gs++, the SLP graph search server, and its JavaScript bridges.

  The server keeps every valid transaction of the Simple Ledger Protocol in a graph and answers,
  for an id, with the transaction and all its ancestors, so that a wallet can check the validity of
  a token itself. Blocks and mempool transactions come from a Bitcoin node; they are parsed,
  validated against the rules of the token protocol and, when valid, inserted into the graph. A
  JavaScript REST server translates HTTP requests into gRPC calls on that server, and two small
  JavaScript bridges let a fuzzer compare the C++ message parser with two parsers in JavaScript.

  The theories, in the order of the imports:

  Prelude: lemmas on lists and maps; \<open>codec\<close>, the interface of an encoder with its decoder;
  \<open>machine\<close>, a transition system with an invariant; \<open>refinement\<close>, a machine whose steps are steps of
  an abstract one. JsRuntime: strings, base64, percent coding, Array.prototype methods, exceptions as
  \<open>Inl\<close>. JsValue: the JSON values.

  RestServer (rest/index.js): each route handler and gRPC callback as a function from the request to
  the call it makes, or the response it sends; \<open>hexToBytes\<close>, \<open>bytesToHex\<close> and
  \<open>addressToScriptpubkey\<close>. RestProgram (rest/index.js): the same routes and callbacks statement by statement, over
  response objects that list what was sent on them and a list of sent calls, each with the response its
  callback closes over; a statement completes normally, by \<open>return\<close> or with an exception, so that a missing
  \<open>return\<close> lets a body run on; the bodies are proved to have the outcomes RestServer gives.
  RestEventLoop: the loop of Node and Express that runs these bodies, as a machine; it maps to no code of
  the repository. The theorems say that every request is answered once and with its own data, and when a
  callback throws instead. FuzzServers
  (fuzz/slp-parser.js/server.js, fuzz/nodejs_validation/server.js and report.js): the handlers of the
  two bridges and the report; the theorems say which messages they answer faithfully. FuzzDrivers
  (fuzz/differential_slpparser.cpp, fuzz/differential_nodejs.cpp, fuzz/util.hpp): the C++ programs at the
  other end of the bridges, from the script file through the attempts to reach the bridge to the comparison of
  each field; driver and bridge together are proved to report exactly the differences of the two parsers, for slp-validate up to
  the texts of a GENESIS, which its driver leaves out.

  GsUtil (include/gs++/util.hpp, src/util.cpp, include/gs++/bhash.hpp): integers, variable-length
  integers, hex and ids over byte lists; a read past the end of a buffer is the outcome \<open>Oob\<close>.
  SlpTransaction (include/gs++/slp_transaction.hpp): the message parser \<open>slp_hydrate\<close>, proved
  equivalent to a grammar. Transaction (include/gs++/transaction.hpp, src/transaction.cpp): the
  transaction parser \<open>tx_hydrate\<close>, its bounds, and the round trip with the network format.
  TopoSort (src/util.cpp): the sort of a block's transactions. GraphSearch, TxGraph (src/txgraph.cpp):
  the search over the inputs of a node, the exclusion sets, insertion; the search is proved to return
  the reachable nodes, each once. SlpValidator (src/slp_validator.cpp): the state of the validator and
  its recursion, with the theorem that it computes a judgement on the parents alone and that a
  valid transaction is legitimate by the inductive rule \<open>legit\<close> of the protocol.

  GraphService (server/gs++.cpp): the handlers GraphSearch, TrustedValidation,
  TrustedValidationBulk and OutputOracle over a graph \<open>g\<close> of confirmed and a graph \<open>mg\<close> of mempool
  transactions, with what the oracle wrongly signs. SyncServer (server/gs++.cpp): the handlers of blocks, mempool scans and single
  transactions, as a machine that refines the abstract \<open>ledger\<close> of id sets; through it come the
  theorems on what is served: only legitimate transactions, those of each block, but not those that
  were first seen in the mempool.

  Block (include/gs++/block.hpp, src/block.cpp): the block parser and its serialization, with the
  bounds and the round trip. ChainCache (server/gs++.cpp, \<open>cache_slp_block\<close>): the content of a cache file, and
  what one file carries over to a restarted server; \<open>sync_rpc_block\<close> there is one fetch without its height and
  file, and only serves the proofs on the loops of Startup.

  CppJson: JSON values and the interface \<open>json_library\<close> of the library the C++ code reads them with.
  RpcClient (src/rpc.cpp, \<open>get_mempool_transactions\<close> of server/gs++.cpp): the requests to the Bitcoin node,
  with every way a request can fail; the theorem says that a node that answers has its pool read in full.
  ZmqListener (server/gs++.cpp, the thread of \<open>main\<close>; \<open>slp_inputs\<close> of src/transaction.cpp): one received
  transaction or block as a step, with the summary that is published for an accepted transaction; the theorems
  say exactly when the summary of a transaction that moves tokens can be built, on a server that loaded no cache,
  which fails for want of an output only, and that a SEND of nothing ends the
  server instead. Startup (server/gs++.cpp, \<open>main\<close>): the loops over the cache files, the blocks of the node and
  the first pool, with heights, paths and retries; the theorem says that a
  restart makes the cache forget its last block. CacheRestart: what a server gets back from the files of a first run
  over the same loops: everything but the block below the configured height, which is written and never
  read. CacheBurn: runs over blocks, fetched or cached, with the database of outputs;
  the theorem says that a restart makes burnt outputs unspent again.

  SlpDb (include/gs++/slpdb.hpp, slp_token.hpp): the tokens with their unspent amounts. UtxoDb
  (src/utxodb.cpp): the tables of confirmed and mempool outputs with an index by script, the queries and
  the rollback. Bch (src/bch.cpp): how blocks and mempool transactions change both; the table is
  proved to refine a set of unspent outpoints, and a block to create no tokens. Rollback: what
  \<open>utxodb::rollback\<close> restores and what it leaves behind.

  CashAddr (src/cashaddr/cashaddr.cpp, include/gs++/scriptpubkey.hpp): the address format and the
  conversion between addresses and scripts; the checksum is proved linear and to detect every burst
  of eight symbols, the regrouping of bits is proved on numbers in base \<open>2^5\<close> and \<open>2^8\<close>, and from these
  come the round trip of public key hashes, the shift of script hashes and the reads out of bounds.
  UtxoSync (server/gs++.cpp): the handlers of SyncServer with the switch \<open>utxosync\<close>, which also feed the
  database of outputs, as a machine that refines SyncServer's; its invariant ties every output of the
  database to a transaction the validator has. TokenService (server/gs++.cpp): the handlers SlpOutpoints,
  SlpUtxos, SlpTokenInfo, SlpTokenBalance, SlpAllTokenBalances and the UtxoService; the theorems say
  what a reported balance is the sum of, that it counts forged tokens, and when a request fails.
  RestBridge: the route \<open>/utxo/\<close> of rest/index.js composed with UtxoSearchByOutpoints, from the id in a
  URL to the callback.

  SlpdbSearch (test/check_slpdb/index.js): the script that collects ancestors from an SLPDB server by
  concurrent queries, with each promise as a task; the theorems say that a search that ends has all
  ancestors, that it ends when all are answered, by a measure on the ranks of the open queries, and
  that one missing ancestor leaves it pending.

  State. A C++ object is a record that each method returns updated; a hash map is a map, and
  where the code iterates over one, the order is an argument. Pointers to graph nodes are the pairs
  of token and transaction id under which the nodes are stored, which are never removed. The locks
  are not modelled: each handler is one step, as it is under the processing lock of the writers;
  a search reads \<open>g\<close> several times without that lock, so an insertion in between is not covered.

  Fuel and bounds. The recursion of the validator takes fuel; two levels are enough on parsed
  transactions (\<open>validate_tx_fuel\<close>), and the callers are modelled with that number. The search loops are
  \<open>partial_function\<close>s and proved to return. The loops of \<open>main\<close>, which may repeat a request for ever, are
  \<open>partial_function\<close>s too, whose None is to run for ever; the theorems on them speak of the runs that
  end, and their witnesses compute one. Each attempt to reach the node has a number, by which the node may answer
  differently every time. The drivers of the fuzzer try 100 times, as in the code. The recursion of the topological sort is bounded by the
  number of transactions. Sums of amounts are taken in 128 bits as in the code, and proved not to
  wrap for parsed messages. The loop of \<open>convertBits\<close> ends by the number of bits at hand; its result
  length, in floating point in the code, is exact for the lengths the theorems speak of. The listings
  of the token handlers stop at the 100000 outputs the code asks for.

  Failures. An exception that leaves a handler is \<open>Fail\<close>, a read outside a buffer is \<open>Oob\<close>; assertions are
  taken as compiled out. The conversions of the protocol buffers between JavaScript and C++ values
  are parameters of RestBridge. A driver that calls \<open>abort\<close> ends with the failure \<open>aborts\<close>.

  Parameters. SHA-256, the signature, express, grpc, cashaddrjs, bitcore and the two JavaScript
  parsers are arguments of the definitions that use them; so are the Bitcoin node, the HTTP client of the drivers,
  and the JSON and conversion libraries of C++, whose documented behaviour is the locale \<open>json_library\<close>.

  Not modelled: the reading of the configuration file, sockets, threads and the start of the gRPC server,
  the Status handler and logging (I/O around the modelled steps, and copies of counters); the command line tools,
  which only print what the modelled parsers return; the drivers for the parsers in Python, slp-indexer and the
  node, whose other side is not in the repository; the C bindings, which do not compile; vendored, minified and
  generated code.
\<close>

end
